(* ===== verification/Prelude.thy ===== *)
theory Prelude
  imports Main "HOL-Library.Word" "HOL-Library.Signed_Division"
begin

text \<open>
  Shared vocabulary of the development: the machine integer types of the Rust sources, Rust's
  wrapping and checked arithmetic on them, and the generic facts on lists and words that several
  components use. Nothing here is specific to one source file.
\<close>

unbundle bit_operations_syntax

section \<open>Machine integers\<close>

text \<open>
  Unsigned and signed Rust integers of one width are the same word type; the signed reading is
  \<open>sint\<close>. A byte string (\<open>&[u8]\<close>, or a Rust \<open>str\<close> seen as its UTF-8 bytes) is a list of bytes.
\<close>

type_synonym u8 = "8 word"
type_synonym u16 = "16 word"
type_synonym u32 = "32 word"
type_synonym u64 = "64 word"
type_synonym i64 = "64 word"
type_synonym bytes = "8 word list"

named_theorems xor_simps \<open>associative-commutative normal form of XOR with cancellation\<close>
named_theorems len_simps \<open>lengths of the fixed-size arrays and buffers of the model\<close>

definition i64_min :: int where
  "i64_min = - (2 ^ 63)"

definition i64_max :: int where
  "i64_max = 2 ^ 63 - 1"

definition fits_i64 :: "int \<Rightarrow> bool" where
  "fits_i64 n \<longleftrightarrow> i64_min \<le> n \<and> n \<le> i64_max"

lemma fits_i64_iff: "fits_i64 n \<longleftrightarrow> - 9223372036854775808 \<le> n \<and> n < 9223372036854775808"
  by (auto simp: fits_i64_def i64_min_def i64_max_def)

lemma sint_fits_i64 [simp, intro]: "fits_i64 (sint (a :: i64))"
proof -
  have "- (2 ^ 63) \<le> sint a" and "sint a < 2 ^ 63"
    using sint_ge [of a] sint_lt [of a] by simp_all
  then show ?thesis by (simp add: fits_i64_iff)
qed

lemma sint_of_int_i64 [simp]: "fits_i64 n \<Longrightarrow> sint (word_of_int n :: i64) = n"
  by (simp add: sint_sbintrunc' signed_take_bit_int_eq_self fits_i64_iff)

lemma sint_i64_eq_iff: "(a :: i64) = b \<longleftrightarrow> sint a = sint b"
  by (auto intro: word_eq_iff_signed [THEN iffD2])

lemma sint_i64_0_iff: "(b :: i64) = 0 \<longleftrightarrow> sint b = 0"
  by (simp add: sint_i64_eq_iff)

lemma word_of_int_sint_i64 [simp]: "word_of_int (sint (a :: i64)) = a"
  by simp

lemma sint_add_i64: "fits_i64 (sint a + sint b) \<Longrightarrow> sint (a + b :: i64) = sint a + sint b"
  by (metis sint_of_int_i64 wi_hom_add word_of_int_sint_i64)

lemma sint_sub_i64: "fits_i64 (sint a - sint b) \<Longrightarrow> sint (a - b :: i64) = sint a - sint b"
  by (metis sint_of_int_i64 wi_hom_sub word_of_int_sint_i64)

text \<open>Rust's \<open>checked_*\<close>: the exact result when it fits, else nothing.\<close>

definition checked_i64 :: "int \<Rightarrow> i64 option" where
  "checked_i64 n = (if fits_i64 n then Some (word_of_int n) else None)"

lemma checked_i64_Some: "checked_i64 n = Some v \<longleftrightarrow> fits_i64 n \<and> v = word_of_int n"
  by (auto simp: checked_i64_def)

lemma checked_i64_None: "checked_i64 n = None \<longleftrightarrow> \<not> fits_i64 n"
  by (auto simp: checked_i64_def)

lemma checked_i64_sint: "checked_i64 n = Some v \<Longrightarrow> sint v = n"
  by (auto simp: checked_i64_Some)

text \<open>Rust's \<open>wrapping_div\<close> and \<open>wrapping_rem\<close> truncate towards zero; only MIN / -1 wraps.\<close>

definition wrapping_div_i64 :: "i64 \<Rightarrow> i64 \<Rightarrow> i64" where
  "wrapping_div_i64 a b = word_of_int (sint a sdiv sint b)"

definition wrapping_rem_i64 :: "i64 \<Rightarrow> i64 \<Rightarrow> i64" where
  "wrapping_rem_i64 a b = word_of_int (sint a smod sint b)"

definition checked_mul_u64 :: "u64 \<Rightarrow> u64 \<Rightarrow> u64 option" where
  "checked_mul_u64 a b = (if unat a * unat b < 2 ^ 64 then Some (a * b) else None)"

definition checked_add_u64 :: "u64 \<Rightarrow> u64 \<Rightarrow> u64 option" where
  "checked_add_u64 a b = (if unat a + unat b < 2 ^ 64 then Some (a + b) else None)"

lemma checked_mul_u64_Some:
  "checked_mul_u64 a b = Some c \<Longrightarrow> unat c = unat a * unat b"
  by (auto simp: checked_mul_u64_def unat_word_ariths split: if_splits)

lemma checked_add_u64_Some:
  "checked_add_u64 a b = Some c \<Longrightarrow> unat c = unat a + unat b"
  by (auto simp: checked_add_u64_def unat_word_ariths split: if_splits)

section \<open>Truncating division against floor division\<close>

lemma int_sdiv_smod: "(a::int) sdiv b * b + a smod b = a"
  by (rule sdiv_mult_smod_eq)

lemma smod_int_abs: "(b::int) \<noteq> 0 \<Longrightarrow> \<bar>a smod b\<bar> < \<bar>b\<bar>"
  by (simp add: signed_modulo_int_def abs_mult abs_sgn_eq)

text \<open>
  The correction Rust code applies to truncating division: one less when the remainder is
  non-zero and its sign differs from the divisor's.
\<close>

lemma floor_from_trunc:
  fixes a b :: int
  assumes "b \<noteq> 0"
  shows "a div b = (if a smod b \<noteq> 0 \<and> (a smod b < 0) \<noteq> (b < 0) then a sdiv b - 1 else a sdiv b)"
    and "a mod b = (if a smod b \<noteq> 0 \<and> (a smod b < 0) \<noteq> (b < 0) then a smod b + b else a smod b)"
proof -
  let ?q = "a sdiv b" and ?r = "a smod b"
  have eq: "a = ?q * b + ?r" using int_sdiv_smod [of a b] by simp
  have ab: "\<bar>?r\<bar> < \<bar>b\<bar>" using assms by (rule smod_int_abs)
  define q' where "q' = (if ?r \<noteq> 0 \<and> (?r < 0) \<noteq> (b < 0) then ?q - 1 else ?q)"
  define r' where "r' = (if ?r \<noteq> 0 \<and> (?r < 0) \<noteq> (b < 0) then ?r + b else ?r)"
  have "a = q' * b + r'"
    using eq by (auto simp: q'_def r'_def algebra_simps)
  moreover have "if 0 < b then 0 \<le> r' \<and> r' < b else b < r' \<and> r' \<le> 0"
    using ab assms by (auto simp: r'_def)
  ultimately have "a div b = q' \<and> a mod b = r'"
    using assms int_div_pos_eq [of a b q' r'] int_mod_pos_eq [of a b q' r']
      int_div_neg_eq [of a b q' r'] int_mod_neg_eq [of a b q' r']
    by (simp add: mult.commute split: if_splits)
  then show "a div b = (if ?r \<noteq> 0 \<and> (?r < 0) \<noteq> (b < 0) then ?q - 1 else ?q)"
    and "a mod b = (if ?r \<noteq> 0 \<and> (?r < 0) \<noteq> (b < 0) then ?r + b else ?r)"
    by (simp_all add: q'_def r'_def)
qed

text \<open>A quotient by at least two in magnitude is well inside the dividend's range.\<close>

lemma div_shrinks:
  fixes a c m :: int
  assumes c: "2 \<le> c" and a: "- m \<le> a" "a \<le> m" and m: "0 < m"
  shows "- m \<le> a div c \<and> a div c < m"
proof -
  let ?q = "a div c"
  have e: "a = c * ?q + a mod c" and r: "0 \<le> a mod c" "a mod c < c"
    using c by simp_all
  have "?q < m"
  proof (rule ccontr)
    assume "\<not> ?q < m"
    then have "2 * m \<le> c * ?q" using c m by (intro mult_mono) auto
    then show False using e r a m by linarith
  qed
  moreover have "- m \<le> ?q"
  proof (rule ccontr)
    assume "\<not> - m \<le> ?q"
    then have "c * (?q + 1) \<le> c * (- m)" using c by (intro mult_left_mono) auto
    also have "\<dots> \<le> 2 * (- m)" using c m by (intro mult_right_mono_neg) auto
    finally have "c * (?q + 1) \<le> 2 * (- m)" .
    then show False using e r a m by (simp add: algebra_simps)
  qed
  ultimately show ?thesis by simp
qed

lemma option_eq_by_Some: "(\<And>i. x = Some i \<longleftrightarrow> y = Some i) \<Longrightarrow> x = y"
  by (cases x) (metis not_None_eq)+

section \<open>Three-way comparison\<close>

text \<open>\<open>std::cmp::Ordering\<close> and \<open>Ord::cmp\<close>.\<close>

datatype ordering = Less | Equal | Greater

definition cmp :: "'a::linorder \<Rightarrow> 'a \<Rightarrow> ordering" where
  "cmp a b = (if a < b then Less else if a = b then Equal else Greater)"

section \<open>XOR\<close>

lemma xor_cancel [xor_simps]:
  fixes x y :: "'a::len word"
  shows "x XOR x = 0" "x XOR 0 = x" "0 XOR x = x" "x XOR (x XOR y) = y" "(y XOR x) XOR x = y"
  by (simp_all flip: xor.assoc) (simp_all add: xor.assoc)

lemmas xor_ac_words [xor_simps] = xor.assoc xor.commute xor.left_commute

lemma xor_eq_0_iff_word: "(x :: 'a::len word) XOR y = 0 \<longleftrightarrow> x = y"
  by (metis xor.assoc xor_cancel(1) xor_cancel(2) xor_cancel(3))

text \<open>The byte-wise XOR of two buffers, as the stream and block modes use it.\<close>

definition xor_bytes :: "bytes \<Rightarrow> bytes \<Rightarrow> bytes" where
  "xor_bytes xs ys = map2 (XOR) xs ys"

lemma length_xor_bytes [len_simps, simp]:
  "length (xor_bytes xs ys) = min (length xs) (length ys)"
  by (simp add: xor_bytes_def)

lemma xor_bytes_cancel:
  "length xs \<le> length ks \<Longrightarrow> xor_bytes (xor_bytes xs ks) ks = xs"
proof (induction xs arbitrary: ks)
  case Nil
  then show ?case by (simp add: xor_bytes_def)
next
  case (Cons x xs)
  then obtain k ks' where "ks = k # ks'" by (cases ks) auto
  with Cons show ?case by (simp add: xor_bytes_def xor.assoc)
qed

section \<open>Fixed-size chunks\<close>

text \<open>\<open>chunks n\<close> is Rust's \<open>slice::chunks(n)\<close>: pieces of \<open>n\<close>, the last one possibly shorter.\<close>

function chunks :: "nat \<Rightarrow> 'a list \<Rightarrow> 'a list list" where
  "chunks n xs = (if xs = [] \<or> n = 0 then [] else take n xs # chunks n (drop n xs))"
  by pat_completeness auto
termination
  by (relation "measure (\<lambda>(n, xs). length xs)") auto

declare chunks.simps [simp del]

lemma chunks_Nil [simp]: "chunks n [] = []"
  by (simp add: chunks.simps)

lemma chunks_step: "xs \<noteq> [] \<Longrightarrow> 0 < n \<Longrightarrow> chunks n xs = take n xs # chunks n (drop n xs)"
  by (subst chunks.simps) simp

lemma concat_chunks: "0 < n \<Longrightarrow> concat (chunks n xs) = xs"
proof (induction n xs rule: chunks.induct)
  case (1 n xs)
  then show ?case by (cases "xs = []") (simp_all add: chunks_step)
qed

lemma chunks_length: "c \<in> set (chunks n xs) \<Longrightarrow> 0 < length c \<and> length c \<le> n"
proof (induction n xs rule: chunks.induct)
  case (1 n xs)
  show ?case
  proof (cases "xs = [] \<or> n = 0")
    case True
    with "1.prems" show ?thesis by (auto simp: chunks.simps)
  next
    case False
    with 1 show ?thesis by (auto simp: chunks_step)
  qed
qed

lemma chunks_exact:
  "length xs mod n = 0 \<Longrightarrow> c \<in> set (chunks n xs) \<Longrightarrow> length c = n"
proof (induction n xs rule: chunks.induct)
  case (1 n xs)
  show ?case
  proof (cases "xs = [] \<or> n = 0")
    case True
    with "1.prems" show ?thesis by (auto simp: chunks.simps)
  next
    case False
    have le: "n \<le> length xs"
    proof (rule ccontr)
      assume "\<not> n \<le> length xs"
      then have "length xs mod n = length xs" by simp
      with False "1.prems"(1) show False by simp
    qed
    then have "length (drop n xs) mod n = 0"
      using "1.prems"(1) by (simp add: le_mod_geq)
    with False le 1 show ?thesis by (auto simp: chunks_step)
  qed
qed

end
