(* ===== verification/Value_Model.thy ===== *)
theory Value_Model
  imports Prelude
begin

text \<open>
  The runtime value of the interpreter (\<open>value.rs\<close>, \<open>Value\<close>): one constructor per variant.
  Heap variants carry the slot index of their object (\<open>ObjId\<close>), symbols the interner index
  (\<open>SymId\<close>), classes the identity of their \<open>Rc<Class>\<close>. A float is its IEEE-754 bit pattern.
  A string value carries the content and encoding tag of the shared \<open>RStr\<close> cell as they are at
  the moment of the operation; writes through the cell are outside this development.
\<close>

type_synonym objid = nat
type_synonym symid = nat
type_synonym classid = nat
type_synonym f64 = "64 word"

datatype encoding_tag = Utf8 | UsAscii | Binary | Other u8

record rstr =
  content :: bytes
  encoding :: encoding_tag

record regex_lit =
  rx_source :: bytes
  rx_options :: u32

datatype rvalue =
    VInt i64
  | VBigInt objid
  | VFloat f64
  | VRational objid
  | VStr rstr
  | VSym symid
  | VBool bool
  | VNil
  | VClass classid
  | VObject objid
  | VArray objid
  | VHash objid
  | VRange objid
  | VBlock objid
  | VRegex regex_lit
  | VBoundMethod objid
  | VUnboundMethod objid
  | VCurriedProc objid

text \<open>\<open>Value::is_truthy\<close>: everything but \<open>nil\<close> and \<open>false\<close>.\<close>

fun is_truthy :: "rvalue \<Rightarrow> bool" where
  "is_truthy VNil = False"
| "is_truthy (VBool False) = False"
| "is_truthy _ = True"

text \<open>The heap slot a value refers to (\<open>Value::is_gc_heap_ref\<close> says whether there is one).\<close>

fun heap_ref :: "rvalue \<Rightarrow> objid option" where
  "heap_ref (VBigInt i) = Some i"
| "heap_ref (VRational i) = Some i"
| "heap_ref (VObject i) = Some i"
| "heap_ref (VArray i) = Some i"
| "heap_ref (VHash i) = Some i"
| "heap_ref (VRange i) = Some i"
| "heap_ref (VBlock i) = Some i"
| "heap_ref (VBoundMethod i) = Some i"
| "heap_ref (VUnboundMethod i) = Some i"
| "heap_ref (VCurriedProc i) = Some i"
| "heap_ref _ = None"

definition is_gc_heap_ref :: "rvalue \<Rightarrow> bool" where
  "is_gc_heap_ref v \<longleftrightarrow> heap_ref v \<noteq> None"

section \<open>Encoding compatibility\<close>

text \<open>
  \<open>enc_compat\<close>: the encoding of a combination of two strings. Equal tags win; an ASCII-only
  side is compatible with anything.
\<close>

definition all_ascii :: "bytes \<Rightarrow> bool" where
  "all_ascii bs \<longleftrightarrow> list_all (\<lambda>b. b < 0x80) bs"

definition enc_compat ::
  "encoding_tag \<Rightarrow> bytes \<Rightarrow> encoding_tag \<Rightarrow> bytes \<Rightarrow> encoding_tag option" where
  "enc_compat a_tag a_bytes b_tag b_bytes =
     (if a_tag = b_tag then Some a_tag
      else (case (all_ascii a_bytes, all_ascii b_bytes) of
              (True, True) \<Rightarrow> Some a_tag
            | (True, False) \<Rightarrow> Some b_tag
            | (False, True) \<Rightarrow> Some a_tag
            | (False, False) \<Rightarrow> None))"

lemma enc_compat_None_iff:
  "enc_compat a as b bs = None \<longleftrightarrow> a \<noteq> b \<and> \<not> all_ascii as \<and> \<not> all_ascii bs"
  by (auto simp: enc_compat_def split: bool.splits)

text \<open>The result tag always fits the non-ASCII operand: no byte is re-read under a foreign tag.\<close>

lemma enc_compat_keeps_non_ascii:
  "enc_compat a as b bs = Some t \<Longrightarrow> (\<not> all_ascii as \<longrightarrow> t = a) \<and> (\<not> all_ascii bs \<longrightarrow> t = b)"
  by (auto simp: enc_compat_def split: bool.splits if_splits)

section \<open>Binary operators\<close>

datatype binop_kind = Add | Sub | Mul | Div | Mod | Lt | Le | Gt | Ge | Eq | Ne

fun binop_name :: "binop_kind \<Rightarrow> string" where
  "binop_name Add = ''+''" | "binop_name Sub = ''-''" | "binop_name Mul = ''*''"
| "binop_name Div = ''/''" | "binop_name Mod = ''%''"
| "binop_name Lt = ''<''" | "binop_name Le = ''<=''"
| "binop_name Gt = ''>''" | "binop_name Ge = ''>=''"
| "binop_name Eq = ''==''" | "binop_name Ne = ''!=''"

definition from_op_name :: "string \<Rightarrow> binop_kind option" where
  "from_op_name s =
     (if s = ''+'' then Some Add else if s = ''-'' then Some Sub
      else if s = ''*'' then Some Mul else if s = ''/'' then Some Div
      else if s = ''%'' then Some Mod else if s = ''<'' then Some Lt
      else if s = ''<='' then Some Le else if s = ''>'' then Some Gt
      else if s = ''>='' then Some Ge else if s = ''=='' then Some Eq
      else if s = ''!='' then Some Ne else None)"

lemma from_op_name_of_name [simp]: "from_op_name (binop_name k) = Some k"
  by (cases k) (simp_all add: from_op_name_def)

lemma from_op_name_Some: "from_op_name s = Some k \<Longrightarrow> s = binop_name k"
  by (auto simp: from_op_name_def split: if_splits)

end
