(* ===== verification/Int_Ops.thy ===== *)
theory Int_Ops
  imports Complex_Main Value_Model
begin

text \<open>
  Integer arithmetic of the interpreter with the \<open>bignum\<close> feature on (its default): the
  \<open>Int\<close> fast path of the binary operators (\<open>bytecode.rs\<close>, \<open>BinOpKind::apply_int\<close>) and the
  \<open>i64\<close> helpers of \<open>vm/numeric.rs\<close>. Every result is related to the exact integer it stands
  for; \<open>None\<close> is the request to redo the operation on big integers.
\<close>

section \<open>Floor division and modulus\<close>

definition floor_div_i64 :: "i64 \<Rightarrow> i64 \<Rightarrow> i64" where
  "floor_div_i64 a b =
     (let q = wrapping_div_i64 a b; r = wrapping_rem_i64 a b
      in if r \<noteq> 0 \<and> (sint r < 0) \<noteq> (sint b < 0) then q - 1 else q)"

definition floor_mod_i64 :: "i64 \<Rightarrow> i64 \<Rightarrow> i64" where
  "floor_mod_i64 a b =
     (let r = wrapping_rem_i64 a b
      in if r \<noteq> 0 \<and> (sint r < 0) \<noteq> (sint b < 0) then r + b else r)"

lemma fits_i64_smod: "b \<noteq> 0 \<Longrightarrow> fits_i64 b \<Longrightarrow> fits_i64 (a smod b)"
  using smod_int_range [of b a] by (auto simp: fits_i64_iff)

lemma sint_wrapping_rem [simp]:
  "b \<noteq> 0 \<Longrightarrow> sint (wrapping_rem_i64 a b) = sint a smod sint b"
  by (simp add: wrapping_rem_i64_def fits_i64_smod sint_i64_0_iff)

lemma floor_mod_i64_eq:
  assumes "b \<noteq> 0"
  shows "sint (floor_mod_i64 a b) = sint a mod sint b"
proof -
  have b0: "sint b \<noteq> 0" using assms by (simp add: sint_i64_0_iff)
  let ?r = "sint a smod sint b"
  have r: "sint (wrapping_rem_i64 a b) = ?r" using assms by simp
  have fits: "fits_i64 (?r + sint b)" if "?r \<noteq> 0 \<and> (?r < 0) \<noteq> (sint b < 0)"
    using that smod_int_range [OF b0, of "sint a"] sint_fits_i64 [of b]
    by (auto simp: fits_i64_iff)
  have "sint (wrapping_rem_i64 a b + b) = ?r + sint b" if "?r \<noteq> 0 \<and> (?r < 0) \<noteq> (sint b < 0)"
    using fits [OF that] r by (subst sint_add_i64) simp_all
  then show ?thesis
    using r floor_from_trunc(2) [OF b0, of "sint a"]
    by (auto simp: floor_mod_i64_def Let_def sint_i64_0_iff)
qed

lemma floor_div_i64_word:
  assumes "b \<noteq> 0"
  shows "floor_div_i64 a b = word_of_int (sint a div sint b)"
proof -
  have b0: "sint b \<noteq> 0" using assms by (simp add: sint_i64_0_iff)
  have r: "sint (wrapping_rem_i64 a b) = sint a smod sint b" using assms by simp
  have "wrapping_div_i64 a b - 1 = word_of_int (sint a sdiv sint b - 1)"
    by (simp add: wrapping_div_i64_def wi_hom_sub [symmetric])
  then show ?thesis
    using r floor_from_trunc(1) [OF b0, of "sint a"]
    by (auto simp: floor_div_i64_def Let_def sint_i64_0_iff wrapping_div_i64_def)
qed

text \<open>The quotient of two \<open>i64\<close> overflows in one case only.\<close>

lemma fits_i64_div:
  assumes "b \<noteq> 0" and "fits_i64 a" and "fits_i64 b"
  shows "fits_i64 (a div b) \<longleftrightarrow> \<not> (a = i64_min \<and> b = - 1)"
proof -
  have le: "- (2 ^ 63) \<le> a" "a \<le> 2 ^ 63" "- (2 ^ 63) \<le> - a" "- a \<le> 2 ^ 63"
    using assms(2) by (simp_all add: fits_i64_iff)
  consider "b = 1" | "b = - 1" | "2 \<le> b" | "2 \<le> - b" using assms(1) by linarith
  then show ?thesis
  proof cases
    case 1
    then show ?thesis using assms(2) by simp
  next
    case 2
    then show ?thesis using assms(2) by (auto simp: fits_i64_iff i64_min_def)
  next
    case 3
    with div_shrinks [OF 3 le(1,2)] show ?thesis by (auto simp: fits_i64_iff)
  next
    case 4
    with div_shrinks [OF 4 le(3,4)] show ?thesis by (auto simp: fits_i64_iff)
  qed
qed

lemma floor_div_i64_eq:
  assumes "b \<noteq> 0" and "\<not> (sint a = i64_min \<and> sint b = - 1)"
  shows "sint (floor_div_i64 a b) = sint a div sint b"
  using assms fits_i64_div [of "sint b" "sint a"]
  by (simp add: floor_div_i64_word sint_i64_0_iff)

section \<open>The binary operators on two small integers\<close>

definition apply_int :: "binop_kind \<Rightarrow> i64 \<Rightarrow> i64 \<Rightarrow> rvalue option" where
  "apply_int k a b =
     (case k of
        Add \<Rightarrow> map_option VInt (checked_i64 (sint a + sint b))
      | Sub \<Rightarrow> map_option VInt (checked_i64 (sint a - sint b))
      | Mul \<Rightarrow> map_option VInt (checked_i64 (sint a * sint b))
      | Div \<Rightarrow> if sint a = i64_min \<and> sint b = - 1 then None else Some (VInt (floor_div_i64 a b))
      | Mod \<Rightarrow> Some (VInt (floor_mod_i64 a b))
      | Lt \<Rightarrow> Some (VBool (sint a < sint b))
      | Le \<Rightarrow> Some (VBool (sint a \<le> sint b))
      | Gt \<Rightarrow> Some (VBool (sint b < sint a))
      | Ge \<Rightarrow> Some (VBool (sint b \<le> sint a))
      | Eq \<Rightarrow> Some (VBool (a = b))
      | Ne \<Rightarrow> Some (VBool (a \<noteq> b)))"

text \<open>What Ruby's \<open>Integer\<close> promises: the operator on unbounded integers, dividing towards \<open>-\<infinity>\<close>.\<close>

fun int_arith :: "binop_kind \<Rightarrow> int \<Rightarrow> int \<Rightarrow> int" where
  "int_arith Add a b = a + b"
| "int_arith Sub a b = a - b"
| "int_arith Mul a b = a * b"
| "int_arith Div a b = a div b"
| "int_arith Mod a b = a mod b"
| "int_arith _ a b = 0"

fun int_compare :: "binop_kind \<Rightarrow> int \<Rightarrow> int \<Rightarrow> bool" where
  "int_compare Lt a b = (a < b)"
| "int_compare Le a b = (a \<le> b)"
| "int_compare Gt a b = (a > b)"
| "int_compare Ge a b = (a \<ge> b)"
| "int_compare Eq a b = (a = b)"
| "int_compare Ne a b = (a \<noteq> b)"
| "int_compare _ a b = False"

definition is_arith :: "binop_kind \<Rightarrow> bool" where
  "is_arith k \<longleftrightarrow> k \<in> {Add, Sub, Mul, Div, Mod}"

lemma apply_int_arith:
  assumes "is_arith k" and "k \<in> {Div, Mod} \<Longrightarrow> b \<noteq> 0"
  shows "apply_int k a b =
    (if fits_i64 (int_arith k (sint a) (sint b))
     then Some (VInt (word_of_int (int_arith k (sint a) (sint b)))) else None)"
proof (cases k)
  case Div
  with assms have b: "b \<noteq> 0" by simp
  then show ?thesis
    using fits_i64_div [of "sint b" "sint a"] floor_div_i64_word [OF b, of a] Div
    by (auto simp: apply_int_def sint_i64_0_iff)
next
  case Mod
  with assms have b: "b \<noteq> 0" by simp
  have "fits_i64 (sint a mod sint b)"
    using floor_mod_i64_eq [OF b, of a] sint_fits_i64 [of "floor_mod_i64 a b"] by simp
  then show ?thesis
    using floor_mod_i64_eq [OF b, of a] Mod
    by (auto simp: apply_int_def sint_i64_eq_iff)
qed (use assms in \<open>auto simp: apply_int_def checked_i64_def is_arith_def\<close>)

lemma apply_int_compare:
  "\<not> is_arith k \<Longrightarrow> apply_int k a b = Some (VBool (int_compare k (sint a) (sint b)))"
  by (cases k) (auto simp: apply_int_def is_arith_def sint_i64_eq_iff)

section \<open>Lossless left shift\<close>

definition try_int_shl_lossless :: "i64 \<Rightarrow> i64 \<Rightarrow> i64 option" where
  "try_int_shl_lossless a shift =
     (if sint shift < 0 \<or> 2 ^ 32 \<le> sint shift then None
      else let s = nat (sint shift) in
        if 64 \<le> s then None
        else let result = push_bit s a in
          if signed_drop_bit s result = a then Some result else None)"

lemma push_bit_i64: "push_bit s (a :: i64) = word_of_int (sint a * 2 ^ s)"
proof -
  have "push_bit s a = a * 2 ^ s" by (simp add: push_bit_eq_mult)
  also have "\<dots> = word_of_int (sint a) * word_of_int (2 ^ s)" by simp
  also have "\<dots> = word_of_int (sint a * 2 ^ s)" by (simp only: wi_hom_mult)
  finally show ?thesis .
qed

lemma sint_word_of_int_dvd:
  assumes "s < 64" and "2 ^ s dvd n"
  shows "2 ^ s dvd sint (word_of_int n :: i64)"
proof -
  have "take_bit 64 (sint (word_of_int n :: i64)) = take_bit 64 n"
    by (simp add: sint_sbintrunc' take_bit_signed_take_bit)
  then have "sint (word_of_int n :: i64) mod 2 ^ 64 = n mod 2 ^ 64"
    by (simp add: take_bit_eq_mod)
  moreover have "(2 :: int) ^ s dvd 2 ^ 64" using assms by (intro le_imp_power_dvd) simp
  ultimately show ?thesis using assms(2) by (metis dvd_mod_iff)
qed

lemma shl_round_trip:
  fixes a :: i64
  assumes "s < 64"
  shows "signed_drop_bit s (push_bit s a) = a \<longleftrightarrow> fits_i64 (sint a * 2 ^ s)"
proof -
  define w where "w = push_bit s a"
  have w: "w = word_of_int (sint a * 2 ^ s)" unfolding w_def by (rule push_bit_i64)
  have d: "sint (signed_drop_bit s w) = sint w div 2 ^ s"
    by (simp add: sint_signed_drop_bit_eq drop_bit_eq_div)
  have "signed_drop_bit s w = a \<longleftrightarrow> fits_i64 (sint a * 2 ^ s)"
  proof
    assume "signed_drop_bit s w = a"
    with d have "sint w div 2 ^ s = sint a" by simp
    moreover have "2 ^ s dvd sint w"
      unfolding w by (rule sint_word_of_int_dvd [OF assms]) simp
    ultimately have "sint w = sint a * 2 ^ s" by (metis dvd_div_mult_self)
    then show "fits_i64 (sint a * 2 ^ s)" by (metis sint_fits_i64)
  next
    assume "fits_i64 (sint a * 2 ^ s)"
    then have "sint w = sint a * 2 ^ s" unfolding w by (rule sint_of_int_i64)
    with d show "signed_drop_bit s w = a" by (simp add: sint_i64_eq_iff)
  qed
  then show ?thesis by (simp only: w_def)
qed

lemma try_int_shl_lossless_eq:
  "try_int_shl_lossless a shift =
     (if 0 \<le> sint shift \<and> sint shift < 64 \<and> fits_i64 (sint a * 2 ^ nat (sint shift))
      then Some (word_of_int (sint a * 2 ^ nat (sint shift))) else None)"
proof (cases "0 \<le> sint shift \<and> sint shift < 64")
  case True
  then have s: "nat (sint shift) < 64" by linarith
  have "try_int_shl_lossless a shift =
      (if signed_drop_bit (nat (sint shift)) (push_bit (nat (sint shift)) a) = a
       then Some (push_bit (nat (sint shift)) a) else None)"
    unfolding try_int_shl_lossless_def Let_def
    using True s by (simp only: not_less [symmetric] if_False if_True HOL.simp_thms) (auto simp del: push_bit_eq_mult)
  then show ?thesis using shl_round_trip [OF s, of a] True by (simp only: push_bit_i64) auto
next
  case False
  then show ?thesis by (auto simp: try_int_shl_lossless_def Let_def)
qed

section \<open>Greatest common divisor and least common multiple\<close>

definition unsigned_abs :: "i64 \<Rightarrow> u64" where
  "unsigned_abs a = word_of_int \<bar>sint a\<bar>"

lemma abs_sint_le: "\<bar>sint (a :: i64)\<bar> \<le> 2 ^ 63"
  using sint_fits_i64 [of a] by (auto simp: fits_i64_iff)

lemma uint_unsigned_abs: "uint (unsigned_abs a) = \<bar>sint a\<bar>"
  using abs_sint_le [of a] by (simp add: unsigned_abs_def uint_word_of_int)

lemma unat_unsigned_abs: "unat (unsigned_abs a) = nat \<bar>sint a\<bar>"
  by (simp only: unat_eq_nat_uint uint_unsigned_abs)

function gcd_loop :: "u64 \<Rightarrow> u64 \<Rightarrow> u64" where
  "gcd_loop x y = (if y = 0 then x else gcd_loop y (x mod y))"
  by pat_completeness auto
termination
  by (relation "measure (\<lambda>(x, y). unat y)") (auto simp: word_gt_0 unat_mod unat_gt_0)

declare gcd_loop.simps [simp del]

lemma unat_gcd_loop: "unat (gcd_loop x y) = gcd (unat x) (unat y)"
proof (induction x y rule: gcd_loop.induct)
  case (1 x y)
  show ?case
  proof (cases "y = 0")
    case True
    then show ?thesis by (simp add: gcd_loop.simps [of x 0])
  next
    case False
    with 1 show ?thesis
      by (simp add: gcd_loop.simps [of x y] unat_mod gcd_red_nat [of "unat x"])
  qed
qed

definition gcd_i64 :: "i64 \<Rightarrow> i64 \<Rightarrow> i64" where
  "gcd_i64 a b =
     (let x = gcd_loop (unsigned_abs a) (unsigned_abs b)
      in if word_of_int i64_max < x then word_of_int i64_max else x)"

lemma gcd_loop_abs:
  "uint (gcd_loop (unsigned_abs a) (unsigned_abs b)) = gcd (sint a) (sint b)"
proof -
  have "unat (gcd_loop (unsigned_abs a) (unsigned_abs b)) = nat (gcd (sint a) (sint b))"
    by (simp only: unat_gcd_loop unat_unsigned_abs gcd_int_def nat_int)
  then show ?thesis by (metis gcd_ge_0_int int_nat_eq uint_nat)
qed

lemma gcd_i64_le: "gcd (sint (a :: i64)) (sint (b :: i64)) \<le> 2 ^ 63"
proof (cases "sint a = 0")
  case True
  then show ?thesis using abs_sint_le [of b] by simp
next
  case False
  have "gcd (sint a) (sint b) dvd \<bar>sint a\<bar>" by simp
  then have "gcd (sint a) (sint b) \<le> \<bar>sint a\<bar>" using False by (intro zdvd_imp_le) simp_all
  also have "\<dots> \<le> 2 ^ 63" by (rule abs_sint_le)
  finally show ?thesis .
qed

lemma sint_eq_uint_i64: "uint (x :: i64) < 2 ^ 63 \<Longrightarrow> sint x = uint x"
proof -
  assume "uint x < 2 ^ 63"
  moreover have "0 \<le> uint x" by simp
  ultimately have "fits_i64 (uint x)" by (auto simp: fits_i64_iff intro: order_trans [of _ 0])
  then have "sint (word_of_int (uint x) :: i64) = uint x" by (rule sint_of_int_i64)
  then show ?thesis by simp
qed

lemma gcd_i64_eq:
  "sint (gcd_i64 a b) = (if gcd (sint a) (sint b) = 2 ^ 63 then i64_max else gcd (sint a) (sint b))"
proof -
  define x where "x = gcd_loop (unsigned_abs a) (unsigned_abs b)"
  have u: "uint x = gcd (sint a) (sint b)" unfolding x_def by (rule gcd_loop_abs)
  have m: "uint (word_of_int i64_max :: u64) = 2 ^ 63 - 1" by (simp add: i64_max_def)
  have g: "gcd_i64 a b = (if 2 ^ 63 - 1 < uint x then word_of_int i64_max else x)"
    by (simp only: gcd_i64_def Let_def x_def [symmetric] word_less_def m)
  have mx: "sint (word_of_int i64_max :: i64) = i64_max"
    by (rule sint_of_int_i64) (simp add: fits_i64_iff i64_max_def)
  show ?thesis
  proof (cases "gcd (sint a) (sint b) = 2 ^ 63")
    case True
    then have "gcd_i64 a b = word_of_int i64_max" using g u by simp
    then show ?thesis using True mx by simp
  next
    case False
    with gcd_i64_le [of a b] have lt: "uint x < 2 ^ 63" unfolding u by linarith
    then have "gcd_i64 a b = x" using g by simp
    then show ?thesis using sint_eq_uint_i64 [OF lt] False u by simp
  qed
qed

definition lcm_i64 :: "i64 \<Rightarrow> i64 \<Rightarrow> i64 option" where
  "lcm_i64 a b =
     (if a = 0 \<or> b = 0 then Some 0
      else if sint a = i64_min \<or> sint b = i64_min then None
      else let g = gcd_i64 a b; quotient = wrapping_div_i64 a g
        in map_option (\<lambda>v. word_of_int \<bar>sint v\<bar>) (checked_i64 (sint quotient * sint b)))"

text \<open>A proper divisor of a power of two divides the next lower power.\<close>

lemma dvd_lower_power:
  fixes a :: int
  assumes d: "a dvd 2 ^ Suc k" and less: "\<bar>a\<bar> < 2 ^ Suc k"
  shows "a dvd 2 ^ k"
proof -
  obtain m where m: "2 ^ Suc k = a * m" using d by (rule dvdE)
  show ?thesis
  proof (cases "even m")
    case True
    then obtain j where "m = 2 * j" by (rule evenE)
    with m have "2 ^ k = a * j" by simp
    then show ?thesis by simp
  next
    case False
    then have "coprime m (2 ^ Suc k)" by simp
    moreover have "m dvd 2 ^ Suc k" using m by simp
    ultimately have "\<bar>m\<bar> = 1" by (metis coprime_absorb_left zdvd1_eq)
    then have "\<bar>2 ^ Suc k\<bar> = \<bar>a\<bar>" unfolding m by (simp add: abs_mult)
    then have "\<bar>a\<bar> = 2 ^ Suc k" by simp
    with less show ?thesis by simp
  qed
qed

lemma lcm_not_2_63:
  assumes "\<bar>x\<bar> < 2 ^ 63" and "\<bar>y\<bar> < 2 ^ 63"
  shows "lcm x y \<noteq> (2 :: int) ^ 63"
proof
  assume l: "lcm x y = 2 ^ 63"
  have "x dvd lcm x y" "y dvd lcm x y" by simp_all
  then have "x dvd 2 ^ Suc 62" "y dvd 2 ^ Suc 62" unfolding l by simp_all
  with assms have "x dvd 2 ^ 62" "y dvd 2 ^ 62" using dvd_lower_power [of _ 62] by simp_all
  then have "lcm x y dvd 2 ^ 62" by simp
  then show False unfolding l by simp
qed

lemma lcm_i64_min:
  assumes "x = i64_min" and "y \<noteq> 0"
  shows "\<not> fits_i64 (lcm x y)" and "\<not> fits_i64 (lcm y x)"
proof -
  have "0 < lcm x y" using assms by (simp add: lcm_pos_int i64_min_def)
  moreover have "x dvd lcm x y" by simp
  ultimately have "\<bar>x\<bar> \<le> lcm x y" by (metis abs_dvd_iff zdvd_imp_le)
  then show "\<not> fits_i64 (lcm x y)" using assms by (simp add: fits_i64_iff i64_min_def)
  then show "\<not> fits_i64 (lcm y x)" by (simp add: lcm.commute)
qed

lemma lcm_i64_eq: "lcm_i64 a b = checked_i64 (lcm (sint a) (sint b))"
proof -
  consider "a = 0 \<or> b = 0" | "a \<noteq> 0 \<and> b \<noteq> 0 \<and> (sint a = i64_min \<or> sint b = i64_min)"
    | "a \<noteq> 0" "b \<noteq> 0" "sint a \<noteq> i64_min" "sint b \<noteq> i64_min" by blast
  then show ?thesis
  proof cases
    case 1
    then show ?thesis by (auto simp: lcm_i64_def checked_i64_def fits_i64_iff)
  next
    case 2
    then have "\<not> fits_i64 (lcm (sint a) (sint b))"
      using lcm_i64_min [of "sint a" "sint b"] lcm_i64_min [of "sint b" "sint a"]
      by (auto simp: sint_i64_0_iff)
    with 2 show ?thesis by (simp add: lcm_i64_def checked_i64_def)
  next
    case 3
    define x y where "x = sint a" and "y = sint b"
    have nz: "x \<noteq> 0" "y \<noteq> 0" using 3 by (simp_all add: x_def y_def sint_i64_0_iff)
    have small: "\<bar>x\<bar> < 2 ^ 63" "\<bar>y\<bar> < 2 ^ 63"
      using 3(3,4) sint_fits_i64 [of a] sint_fits_i64 [of b]
      unfolding x_def y_def fits_i64_iff i64_min_def by (auto simp: abs_if)
    define g where "g = gcd x y"
    have g0: "0 < g" using nz by (simp add: g_def)
    have "g dvd \<bar>x\<bar>" by (simp add: g_def)
    then have "g \<le> \<bar>x\<bar>" using nz by (intro zdvd_imp_le) simp_all
    then have "g \<noteq> 2 ^ 63" using small by simp
    then have sg: "sint (gcd_i64 a b) = g"
      using gcd_i64_eq [of a b] by (simp add: g_def x_def y_def)
    obtain k where k: "x = g * k" unfolding g_def by (metis dvdE gcd_dvd1)
    have quot: "x sdiv g = k"
      unfolding k using g0 by (auto simp: signed_divide_int_def abs_mult sgn_mult zsgn_def zero_less_mult_iff)
    have "\<bar>k\<bar> \<le> \<bar>x\<bar>" using g0 mult_right_mono [of 1 g "\<bar>k\<bar>"] by (simp add: k abs_mult)
    then have fk: "fits_i64 k" using small by (auto simp: fits_i64_iff)
    have sq: "sint (wrapping_div_i64 a (gcd_i64 a b)) = k"
      by (simp add: wrapping_div_i64_def sg x_def [symmetric] quot fk)
    have "lcm x y * g = \<bar>x * y\<bar>"
      using prod_gcd_lcm_int [of x y] by (simp add: g_def abs_mult mult.commute)
    then have "lcm x y * g = \<bar>k * y\<bar> * g" using g0 by (simp add: k abs_mult)
    then have l: "lcm x y = \<bar>k * y\<bar>" using g0 by simp
    have "\<bar>k * y\<bar> \<noteq> 2 ^ 63" using lcm_not_2_63 [OF small] l by simp
    then have "fits_i64 (k * y) \<longleftrightarrow> fits_i64 \<bar>k * y\<bar>" by (auto simp: fits_i64_iff abs_if)
    then show ?thesis
      using 3 by (auto simp: lcm_i64_def Let_def sq checked_i64_def l [unfolded x_def y_def] y_def
          simp del: of_int_mult)
  qed
qed

section \<open>Rounding to a power of ten\<close>

datatype half_mode = HalfUp | HalfDown | HalfEven

text \<open>
  \<open>int_round_with_half\<close>: \<open>Inl\<close> carries the \<open>i128\<close> result that does not fit \<open>i64\<close>. Every
  intermediate value is below \<open>2 * 10\<^sup>3\<^sup>8\<close>, or within twice the receiver's magnitude plus one
  step, and so inside \<open>i128\<close>: the integers here are exact.
\<close>

definition round_bump :: "half_mode \<Rightarrow> int \<Rightarrow> int \<Rightarrow> int \<Rightarrow> bool" where
  "round_bump mode q abs_r p =
     (case mode of
        HalfUp \<Rightarrow> abs_r * 2 \<ge> p
      | HalfDown \<Rightarrow> abs_r * 2 > p
      | HalfEven \<Rightarrow> if abs_r * 2 \<noteq> p then abs_r * 2 > p else q smod 2 \<noteq> 0)"

definition int_round_with_half :: "i64 \<Rightarrow> i64 \<Rightarrow> half_mode \<Rightarrow> int + rvalue" where
  "int_round_with_half a n mode =
     (if 0 \<le> sint n then Inr (VInt a)
      else let abs_n = nat \<bar>sint n\<bar> in
        if 38 < abs_n then Inr (VInt 0)
        else let p = 10 ^ abs_n; q = sint a sdiv p; r = sint a smod p;
            rounded = (if round_bump mode q \<bar>r\<bar> p
                       then (if 0 \<le> r then (q + 1) * p else (q - 1) * p)
                       else q * p)
          in if fits_i64 rounded then Inr (VInt (word_of_int rounded)) else Inl rounded)"

text \<open>The integer a rounding result stands for.\<close>

fun round_value :: "int + rvalue \<Rightarrow> int" where
  "round_value (Inl n) = n"
| "round_value (Inr (VInt a)) = sint a"
| "round_value (Inr _) = 0"

definition rounded_to :: "half_mode \<Rightarrow> int \<Rightarrow> int \<Rightarrow> int \<Rightarrow> bool" where
  "rounded_to mode p a r \<longleftrightarrow>
     p dvd r \<and> 2 * \<bar>r - a\<bar> \<le> p \<and>
     (2 * \<bar>r - a\<bar> = p \<longrightarrow>
        (case mode of HalfUp \<Rightarrow> \<bar>a\<bar> < \<bar>r\<bar> | HalfDown \<Rightarrow> \<bar>r\<bar> < \<bar>a\<bar> | HalfEven \<Rightarrow> even (r div p)))"

lemma round_core:
  fixes a p :: int
  assumes p: "0 < p" "even p"
    and q: "q = a sdiv p" and r: "r = a smod p"
    and R: "R = (if round_bump mode q \<bar>r\<bar> p then (if 0 \<le> r then (q + 1) * p else (q - 1) * p)
                 else q * p)"
  shows "rounded_to mode p a R"
proof -
  have a: "a = q * p + r" using q r int_sdiv_smod [of a p] by simp
  have rp: "\<bar>r\<bar> < p" using p smod_int_abs [of p a] r by simp
  have m: "\<not> x mod p < 0" "x mod p \<le> 0 \<longleftrightarrow> x mod p = 0" for x
    using p pos_mod_sign [of p x] by linarith+
  have sgn: "0 \<le> r \<Longrightarrow> r \<noteq> 0 \<Longrightarrow> 0 \<le> q" "r < 0 \<Longrightarrow> q \<le> 0"
    using q r p m by (auto simp: signed_divide_int_def signed_modulo_int_def sgn_if
        pos_imp_zdiv_nonneg_iff split: if_splits)
  have q2: "q smod 2 \<noteq> 0 \<longleftrightarrow> odd q"
    using int_sdiv_smod [of q 2] smod_int_abs [of 2 q] by presburger
  have qp: "0 \<le> q * p" if "0 \<le> q" using that p by simp
  have qn: "q * p \<le> 0" if "q \<le> 0" using that p by (simp add: mult_le_0_iff)
  have dvd: "p dvd R" by (simp add: R)
  have dist: "2 * \<bar>R - a\<bar> \<le> p"
    using rp p by (cases mode) (auto simp: R a round_bump_def algebra_simps)
  have tie: "case mode of HalfUp \<Rightarrow> \<bar>a\<bar> < \<bar>R\<bar> | HalfDown \<Rightarrow> \<bar>R\<bar> < \<bar>a\<bar> | HalfEven \<Rightarrow> even (R div p)"
    if t: "2 * \<bar>R - a\<bar> = p"
  proof -
    have r0: "2 * \<bar>r\<bar> = p"
      using t rp p by (auto simp: R a algebra_simps split: if_splits)
    show ?thesis
    proof (cases "0 \<le> r")
      case True
      with r0 p sgn have q0: "0 \<le> q" by auto
      show ?thesis using True r0 p q0 qp [OF q0] q2
        by (cases mode) (auto simp: R a round_bump_def algebra_simps)
    next
      case False
      with sgn have q0: "q \<le> 0" by simp
      show ?thesis using False r0 p q0 qn [OF q0] q2
        by (cases mode) (auto simp: R a round_bump_def algebra_simps)
    qed
  qed
  show ?thesis using dvd dist tie by (simp add: rounded_to_def)
qed

lemma int_round_negative:
  assumes "sint n < 0"
  shows "rounded_to mode (10 ^ nat \<bar>sint n\<bar>) (sint a) (round_value (int_round_with_half a n mode))"
proof (cases "38 < nat \<bar>sint n\<bar>")
  case True
  have "(10 :: int) ^ 39 \<le> 10 ^ nat \<bar>sint n\<bar>" using True by (intro power_increasing) simp_all
  moreover have "2 * \<bar>sint a\<bar> < 10 ^ 39" using abs_sint_le [of a] by simp
  ultimately have "2 * \<bar>sint a\<bar> < 10 ^ nat \<bar>sint n\<bar>" by linarith
  then show ?thesis using True assms by (simp add: int_round_with_half_def rounded_to_def)
next
  case False
  define m where "m = nat \<bar>sint n\<bar>"
  define R where "R = (if round_bump mode (sint a sdiv 10 ^ m) \<bar>sint a smod 10 ^ m\<bar> (10 ^ m)
    then (if 0 \<le> sint a smod 10 ^ m then (sint a sdiv 10 ^ m + 1) * 10 ^ m
          else (sint a sdiv 10 ^ m - 1) * 10 ^ m)
    else sint a sdiv 10 ^ m * 10 ^ m)"
  have eq: "int_round_with_half a n mode =
      (if fits_i64 R then Inr (VInt (word_of_int R)) else Inl R)"
    using False assms by (simp only: int_round_with_half_def Let_def m_def [symmetric] R_def) auto
  have "0 < m" using assms by (simp add: m_def)
  then have "even ((10 :: int) ^ m)" by simp
  then have "rounded_to mode (10 ^ m) (sint a) R"
    by (intro round_core [OF _ _ refl refl R_def]) simp_all
  moreover have "round_value (int_round_with_half a n mode) = R"
    unfolding eq by simp
  ultimately show ?thesis by (simp add: m_def)
qed

lemma int_round_fits:
  "(case int_round_with_half a n mode of
      Inl m \<Rightarrow> \<not> fits_i64 m
    | Inr v \<Rightarrow> \<exists>r. v = VInt r)"
  by (simp add: int_round_with_half_def Let_def)

lemma int_round_nonneg: "0 \<le> sint n \<Longrightarrow> int_round_with_half a n mode = Inr (VInt a)"
  by (simp add: int_round_with_half_def)

section \<open>FNV-1a\<close>

definition fnv_offset_basis :: u64 where
  "fnv_offset_basis = 0xcbf29ce484222325"

definition fnv_prime :: u64 where
  "fnv_prime = 0x100000001b3"

definition fnv1a_step :: "u8 \<Rightarrow> u64 \<Rightarrow> u64" where
  "fnv1a_step b hash = (hash XOR ucast b) * fnv_prime"

definition fnv1a_64 :: "bytes \<Rightarrow> u64" where
  "fnv1a_64 bs = fold fnv1a_step bs fnv_offset_basis"

text \<open>The inverse of the prime modulo \<open>2\<^sup>6\<^sup>4\<close>: no step of the hash loses state.\<close>

lemma fnv_prime_inverse: "fnv_prime * 0xce965057aff6957b = 1"
  by (simp add: fnv_prime_def)

lemma fnv1a_step_inj: "fnv1a_step b h = fnv1a_step b h' \<Longrightarrow> h = h'"
proof -
  assume "fnv1a_step b h = fnv1a_step b h'"
  then have "(h XOR ucast b) * (fnv_prime * 0xce965057aff6957b) =
      (h' XOR ucast b) * (fnv_prime * 0xce965057aff6957b)"
    unfolding fnv1a_step_def by (simp only: mult.assoc [symmetric])
  then have "h XOR ucast b = h' XOR ucast b" by (simp add: fnv_prime_inverse)
  then have "(h XOR ucast b) XOR ucast b = (h' XOR ucast b) XOR ucast b" by simp
  then show ?thesis by (simp add: xor.assoc)
qed

section \<open>Floats against integers\<close>

text \<open>
  A float is decoded from its bit pattern. \<open>float_decompose\<close> is the source's own decoder;
  \<open>f64_value\<close> is the rational the pattern stands for by IEEE 754, stated on the pattern's three
  fields and independently of the decoder.
\<close>

definition f64_sign :: "f64 \<Rightarrow> u64" where
  "f64_sign f = drop_bit 63 f"

definition f64_exp :: "f64 \<Rightarrow> u64" where
  "f64_exp f = (drop_bit 52 f) AND 0x7ff"

definition f64_mant :: "f64 \<Rightarrow> u64" where
  "f64_mant f = f AND 0x000FFFFFFFFFFFFF"

definition f64_is_finite :: "f64 \<Rightarrow> bool" where
  "f64_is_finite f \<longleftrightarrow> f64_exp f \<noteq> 0x7ff"

definition f64_is_nan :: "f64 \<Rightarrow> bool" where
  "f64_is_nan f \<longleftrightarrow> f64_exp f = 0x7ff \<and> f64_mant f \<noteq> 0"

definition f64_is_zero :: "f64 \<Rightarrow> bool" where
  "f64_is_zero f \<longleftrightarrow> f64_exp f = 0 \<and> f64_mant f = 0"

definition f64_value :: "f64 \<Rightarrow> rat" where
  "f64_value f =
     (- 1) ^ unat (f64_sign f) *
     (if f64_exp f = 0 then of_int (uint (f64_mant f)) / 2 ^ 52 * 2 powi (- 1022)
      else (1 + of_int (uint (f64_mant f)) / 2 ^ 52) * 2 powi (uint (f64_exp f) - 1023))"

definition float_decompose :: "f64 \<Rightarrow> (int \<times> u64 \<times> int) option" where
  "float_decompose f =
     (if \<not> f64_is_finite f then None
      else if f64_is_zero f then Some (0, 0, 0)
      else let sign = (if (drop_bit 63 f) AND 1 = 1 then - 1 else 1);
             raw_exp = uint (f64_exp f); raw_mant = f64_mant f
        in if raw_exp = 0 then Some (sign, raw_mant, - 1074)
           else Some (sign, raw_mant OR push_bit 52 1, raw_exp - 1023 - 52))"


lemma sign_bit_cases: "drop_bit 63 (f :: u64) = 0 \<or> drop_bit 63 f = 1"
proof -
  have "unat f < 2 * 2 ^ 63" using unsigned_less [of f, where ?'a = nat] by simp
  then have "unat (drop_bit 63 f) < 2"
    unfolding unat_drop_bit_eq unfolding drop_bit_eq_div by (rule less_mult_imp_div_less)
  then have "unat (drop_bit 63 f) = 0 \<or> unat (drop_bit 63 f) = 1" by linarith
  then show ?thesis by (simp add: word_unat_eq_iff)
qed

lemma f64_mant_take_bit: "f64_mant f = take_bit 52 f"
  by (simp add: f64_mant_def take_bit_eq_mask mask_eq_exp_minus_1)

lemma uint_f64_mant: "uint (f64_mant f) < 2 ^ 52"
  unfolding f64_mant_take_bit unsigned_take_bit_eq by (rule take_bit_int_less_exp)

lemma take_bit_disjoint: "take_bit n (x :: u64) AND push_bit n y = 0"
  by (rule bit_word_eqI) (auto simp: bit_simps)

lemma implicit_one: "uint (f64_mant f OR push_bit 52 1) = uint (f64_mant f) + 2 ^ 52"
proof -
  have "f64_mant f OR push_bit 52 1 = f64_mant f + push_bit 52 1"
    unfolding f64_mant_take_bit by (rule disjunctive_add_eq_or [OF take_bit_disjoint, symmetric])
  then have "f64_mant f OR push_bit 52 1 = word_of_int (uint (f64_mant f) + 2 ^ 52)"
    by simp
  then show ?thesis
    using uint_f64_mant [of f] by (simp only: uint_word_of_int) simp
qed

lemma float_decompose_value:
  assumes "float_decompose f = Some (s, m, e)"
  shows "of_int s * of_int (uint m) * 2 powi e = f64_value f"
proof -
  have sg: "(- 1 :: rat) ^ unat (f64_sign f) =
      of_int (if (drop_bit 63 f) AND 1 = 1 then - 1 else 1)"
    using sign_bit_cases [of f] by (auto simp: f64_sign_def)
  have den: "(of_int n / 2 ^ 52 * 2 powi - 1022 :: rat) = of_int n * 2 powi - 1074" for n
    by (simp add: power_int_def field_simps flip: power_add)
  have nrm: "((1 + of_int n / 2 ^ 52) * 2 powi (k - 1023) :: rat) =
      of_int (n + 2 ^ 52) * 2 powi (k - 1023 - 52)" for n k
  proof -
    have "(2 :: rat) powi ((k - 1023 - 52) + 52) = 2 powi (k - 1023 - 52) * 2 powi 52"
      by (rule power_int_add) simp
    then have "(2 :: rat) powi (k - 1023) = 2 powi (k - 1023 - 52) * 2 ^ 52" by simp
    then show ?thesis by (simp add: field_simps)
  qed
  show ?thesis
  proof (cases "f64_is_zero f")
    case True
    with assms show ?thesis
      by (auto simp: float_decompose_def f64_value_def f64_is_zero_def split: if_splits)
  next
    case False
    show ?thesis
    proof (cases "f64_exp f = 0")
      case True
      with assms False have "s = (if (drop_bit 63 f) AND 1 = 1 then - 1 else 1)"
          "m = f64_mant f" "e = - 1074"
        by (auto simp: float_decompose_def Let_def split: if_splits)
      then show ?thesis using True sg by (simp add: f64_value_def den)
    next
      case exp: False
      then have "uint (f64_exp f) \<noteq> 0" by (simp add: uint_0_iff)
      with assms False have "s = (if (drop_bit 63 f) AND 1 = 1 then - 1 else 1)"
          "m = f64_mant f OR push_bit 52 1" "e = uint (f64_exp f) - 1023 - 52"
        by (auto simp: float_decompose_def Let_def split: if_splits)
      then show ?thesis using exp sg by (simp only: f64_value_def nrm implicit_one) simp
    qed
  qed
qed

lemma float_decompose_None: "float_decompose f = None \<longleftrightarrow> \<not> f64_is_finite f"
  by (simp add: float_decompose_def Let_def)

text \<open>
  Comparing an \<open>i64\<close> with a float. \<open>trunc\<close>, the cast of a truncated value inside the \<open>i64\<close> range
  and the subtraction of a float's own integer part are exact IEEE operations and are stated on
  the float's value; the two bounds are the floats \<open>i64::MIN as f64\<close> and \<open>i64::MAX as f64\<close>.
\<close>

definition rat_trunc :: "rat \<Rightarrow> int" where
  "rat_trunc x = (if 0 \<le> x then \<lfloor>x\<rfloor> else \<lceil>x\<rceil>)"

definition int_cmp_float_lossless :: "i64 \<Rightarrow> f64 \<Rightarrow> ordering option" where
  "int_cmp_float_lossless i f =
     (if f64_is_nan f then None
      else if \<not> f64_is_finite f \<and> f64_sign f = 0 then Some Less
      else if \<not> f64_is_finite f then Some Greater
      else let trunc = rat_trunc (f64_value f) in
        if trunc < - (2 ^ 63) then Some Greater
        else if trunc \<ge> 2 ^ 63 then Some Less
        else let f_int = word_of_int trunc :: i64; c = cmp (sint i) (sint f_int) in
          if c \<noteq> Equal then Some c
          else let frac = f64_value f - of_int trunc in
            if frac = 0 then Some Equal
            else if 0 < frac then Some Less else Some Greater)"

lemma int_cmp_float_exact:
  assumes "f64_is_finite f"
  shows "int_cmp_float_lossless i f = Some (cmp (of_int (sint i)) (f64_value f))"
proof -
  define x t where "x = f64_value f" and "t = rat_trunc x"
  have nan: "\<not> f64_is_nan f" using assms by (simp add: f64_is_finite_def f64_is_nan_def)
  have lo: "- (2 ^ 63) \<le> sint i" and hi: "sint i < 2 ^ 63"
    using sint_fits_i64 [of i] by (simp_all add: fits_i64_iff)
  have tr: "(0 \<le> x \<and> of_int t \<le> x \<and> x < of_int t + 1) \<or> (x < 0 \<and> x \<le> of_int t \<and> of_int t - 1 < x)"
    unfolding t_def rat_trunc_def by (auto simp: floor_le_iff) linarith+
  have lt: "(of_int m :: rat) + 1 \<le> of_int n" if "m < n" for m n
  proof -
    have "m + 1 \<le> n" using that by simp
    then have "(of_int (m + 1) :: rat) \<le> of_int n" by (simp only: of_int_le_iff)
    then show ?thesis by simp
  qed
  have less: "(of_int (sint i) :: rat) < x" if "sint i < t"
    using lt [OF that] tr by linarith
  have greater: "x < (of_int (sint i) :: rat)" if "t < sint i"
    using lt [OF that] tr by linarith
  show ?thesis
  proof (cases "fits_i64 t")
    case True
    then have s: "sint (word_of_int t :: i64) = t" and b: "\<not> t < - (2 ^ 63)" "\<not> 2 ^ 63 \<le> t"
      by (simp_all add: fits_i64_iff)
    have "int_cmp_float_lossless i f =
        (if cmp (sint i) t \<noteq> Equal then Some (cmp (sint i) t)
         else if x - of_int t = 0 then Some Equal
         else if 0 < x - of_int t then Some Less else Some Greater)"
      using nan assms b
      by (simp only: int_cmp_float_lossless_def Let_def x_def [symmetric] t_def [symmetric] s
          if_False if_True simp_thms)
    then show ?thesis
      using less greater by (auto simp: cmp_def x_def [symmetric] split: if_splits)
  next
    case False
    then consider "t < - (2 ^ 63)" | "2 ^ 63 \<le> t" unfolding fits_i64_iff by force
    then show ?thesis
    proof cases
      case 1
      then have "t < sint i" using lo by linarith
      then have "cmp (of_int (sint i)) x = Greater" using greater by (auto simp: cmp_def)
      then show ?thesis using 1 nan assms
        by (simp only: int_cmp_float_lossless_def Let_def x_def [symmetric] t_def [symmetric]
            if_True if_False simp_thms)
    next
      case 2
      then have "sint i < t" using hi by linarith
      then have c: "cmp (of_int (sint i)) x = Less" using less by (auto simp: cmp_def)
      have "\<not> t < - (2 ^ 63)" using 2 by simp
      with 2 c show ?thesis using nan assms
        by (simp only: int_cmp_float_lossless_def Let_def x_def [symmetric] t_def [symmetric]
            if_True if_False simp_thms)
    qed
  qed
qed

lemma int_cmp_float_nonfinite:
  "\<not> f64_is_finite f \<Longrightarrow> int_cmp_float_lossless i f =
     (if f64_is_nan f then None else if f64_sign f = 0 then Some Less else Some Greater)"
  by (simp add: int_cmp_float_lossless_def)

section \<open>Properties\<close>

text \<open>C23. The small-integer fast path of every arithmetic operator agrees with arithmetic on
  unbounded integers, division and modulus rounding towards minus infinity: the word result is
  the exact integer whenever that fits an i64, and the fast path declines (so that the operation
  is redone on big integers) exactly when it does not. Division and modulus by zero are excluded:
  the interpreter raises ZeroDivisionError before it calls the fast path.\<close>

theorem apply_int_exact:
  assumes "is_arith k" and "b \<noteq> 0 \<or> k \<notin> {Div, Mod}"
  shows "apply_int k a b =
    (if fits_i64 (int_arith k (sint a) (sint b))
     then Some (VInt (word_of_int (int_arith k (sint a) (sint b)))) else None)"
  using assms by (intro apply_int_arith) auto

theorem apply_int_exact_witness:
  "apply_int Div (- 7) 2 = Some (VInt (- 4)) \<and> apply_int Div (word_of_int i64_min) (- 1) = None"
  using apply_int_exact [of Div 2 "- 7"] apply_int_exact [of Div "- 1" "word_of_int i64_min"]
  by (simp add: is_arith_def fits_i64_iff i64_min_def)

text \<open>lcm_i64 returns the least common multiple of the two integers whenever it fits an i64 and
  declines exactly when it does not: neither the early exit on i64::MIN, nor the saturating gcd,
  nor the wrapping absolute value of a product that wraps to i64::MIN ever gives a wrong number.\<close>

theorem lcm_exact: "lcm_i64 a b = checked_i64 (lcm (sint a) (sint b))"
  by (rule lcm_i64_eq)

text \<open>C24. Integer#round with a negative precision gives a multiple of the power of ten within half a
  unit of the receiver, and on a tie the one the mode asks for (away from zero, towards zero, or
  the even multiple); the result is an Int when it fits an i64 and is handed back as a wide
  integer, exact, only when it does not.\<close>

theorem int_round_correct:
  assumes "sint n < 0"
  shows "rounded_to mode (10 ^ nat \<bar>sint n\<bar>) (sint a) (round_value (int_round_with_half a n mode)) \<and>
    (case int_round_with_half a n mode of Inl m \<Rightarrow> \<not> fits_i64 m | Inr v \<Rightarrow> \<exists>r. v = VInt r)"
  using int_round_negative [OF assms] int_round_fits by blast

theorem int_round_correct_witness:
  "rounded_to HalfEven 10 25 (round_value (int_round_with_half 25 (- 1) HalfEven)) \<and>
   int_round_with_half 25 (- 1) HalfEven = Inr (VInt 20)"
  using int_round_correct [of "- 1" HalfEven 25]
  by (simp add: int_round_with_half_def Let_def round_bump_def fits_i64_iff signed_divide_int_def
      signed_modulo_int_def)

text \<open>C25. Comparing an integer with a float compares the integer with the exact rational value of the
  float's bit pattern, with no rounding of the integer to 53 bits; a NaN compares with nothing and
  an infinity lies beyond every integer.\<close>

theorem int_cmp_float_correct:
  "int_cmp_float_lossless i f =
     (if f64_is_finite f then Some (cmp (of_int (sint i)) (f64_value f))
      else if f64_is_nan f then None
      else if f64_sign f = 0 then Some Less else Some Greater)"
  by (simp add: int_cmp_float_exact int_cmp_float_nonfinite)

text \<open>float_decompose returns a sign, a significand and an exponent whose product is exactly the
  IEEE value of the bit pattern, subnormals and zeros included, and nothing exactly for infinities
  and NaNs.\<close>

theorem float_decompose_correct:
  "case float_decompose f of
     None \<Rightarrow> \<not> f64_is_finite f
   | Some (s, m, e) \<Rightarrow> f64_is_finite f \<and> of_int s * of_int (uint m) * 2 powi e = f64_value f"
  using float_decompose_None [of f] float_decompose_value [of f]
  by (cases "float_decompose f") auto

end
