(* ===== verification/Interner.thy ===== *)
theory Interner
  imports Prelude
begin

text \<open>
  The symbol table (\<open>intern.rs\<close>): the integer hasher of the internal tables, the contract of an
  intern table as a locale, and the interner itself with the rollback that \<open>Runtime::reset\<close> uses.
  The same contract is met again by the instance-variable shapes of a class.
\<close>

section \<open>The integer hasher\<close>

definition fx_k :: u64 where
  "fx_k = 0x517cc1b727220a95"

definition fx_add :: "u64 \<Rightarrow> u64 \<Rightarrow> u64" where
  "fx_add hash i = (word_rotl 5 hash XOR i) * fx_k"

definition fx_write :: "bytes \<Rightarrow> u64 \<Rightarrow> u64" where
  "fx_write bs hash = fold (\<lambda>b h. fx_add h (ucast b)) bs hash"

definition fx_write_u32 :: "u32 \<Rightarrow> u64 \<Rightarrow> u64" where
  "fx_write_u32 i hash = fx_add hash (ucast i)"

definition fx_finish :: "u64 \<Rightarrow> u64" where
  "fx_finish hash = hash"

lemma fx_k_inverse: "fx_k * 0x2040003d780970bd = 1"
  by (simp add: fx_k_def)

lemma fx_add_inj: "fx_add h i = fx_add h j \<Longrightarrow> i = j"
proof -
  assume "fx_add h i = fx_add h j"
  then have "(word_rotl 5 h XOR i) * (fx_k * 0x2040003d780970bd) = (word_rotl 5 h XOR j) * (fx_k * 0x2040003d780970bd)"
    unfolding fx_add_def by (simp only: mult.assoc [symmetric])
  then have "word_rotl 5 h XOR i = word_rotl 5 h XOR j" by (simp add: fx_k_inverse)
  then have "word_rotl 5 h XOR (word_rotl 5 h XOR i) = word_rotl 5 h XOR (word_rotl 5 h XOR j)"
    by simp
  then show ?thesis by (simp only: xor_cancel)
qed

section \<open>The contract of an intern table\<close>

text \<open>
  \<open>try_intern\<close> is nothing when the identifier space is exhausted and the code panics. An
  identifier, once given out, keeps its name in every later state.
\<close>

locale intern_table =
  fixes inv :: "'t \<Rightarrow> bool"
    and lookup :: "'t \<Rightarrow> 'k \<Rightarrow> nat option"
    and try_intern :: "'k \<Rightarrow> 't \<Rightarrow> ('t \<times> nat) option"
    and name_at :: "'t \<Rightarrow> nat \<Rightarrow> 'k option"
    and entries :: "'t \<Rightarrow> nat"
    and cap :: nat
  assumes lookup_iff: "inv t \<Longrightarrow> lookup t k = Some i \<longleftrightarrow> name_at t i = Some k"
    and name_at_dom: "inv t \<Longrightarrow> name_at t i \<noteq> None \<longleftrightarrow> i < entries t"
    and intern_total: "inv t \<Longrightarrow> entries t < cap \<Longrightarrow> try_intern k t \<noteq> None"
    and intern_step: "inv t \<Longrightarrow> entries t < cap \<Longrightarrow> try_intern k t = Some (t', i) \<Longrightarrow>
      inv t' \<and> name_at t' i = Some k \<and> (\<forall>j n. name_at t j = Some n \<longrightarrow> name_at t' j = Some n)
      \<and> entries t' = entries t + (if lookup t k = None then 1 else 0)"
begin

definition intern_seq :: "'k list \<Rightarrow> 't \<Rightarrow> 't option" where
  "intern_seq ks t = fold (\<lambda>k acc. case acc of None \<Rightarrow> None | Some t \<Rightarrow> map_option fst (try_intern k t)) ks (Some t)"

lemma intern_seq_Nil [simp]: "intern_seq [] t = Some t"
  by (simp add: intern_seq_def)

lemma fold_None: "fold (\<lambda>k acc. case acc of None \<Rightarrow> None | Some t \<Rightarrow> map_option fst (try_intern k t)) ks None = None"
  by (induction ks) simp_all

lemma intern_seq_Cons:
  "intern_seq (k # ks) t = (case try_intern k t of None \<Rightarrow> None | Some (t', _) \<Rightarrow> intern_seq ks t')"
  by (auto simp: intern_seq_def fold_None split: option.splits)

lemma intern_seq_ok:
  "inv t \<Longrightarrow> entries t + length ks \<le> cap \<Longrightarrow>
   \<exists>t'. intern_seq ks t = Some t' \<and> inv t' \<and> entries t' \<le> entries t + length ks
        \<and> (\<forall>j n. name_at t j = Some n \<longrightarrow> name_at t' j = Some n)"
proof (induction ks arbitrary: t)
  case Nil
  then show ?case by simp
next
  case (Cons k ks)
  then have c: "entries t < cap" by simp
  then obtain t' i where ti: "try_intern k t = Some (t', i)"
    using intern_total [OF Cons.prems(1), of k] by auto
  note st = intern_step [OF Cons.prems(1) c ti]
  then have e: "entries t' \<le> Suc (entries t)" by simp
  have "inv t'" "entries t' + length ks \<le> cap" using st e Cons.prems(2) by simp_all
  from Cons.IH [OF this] obtain t'' where t'': "intern_seq ks t' = Some t''" "inv t''"
      "entries t'' \<le> entries t' + length ks"
      "\<forall>j n. name_at t' j = Some n \<longrightarrow> name_at t'' j = Some n" by blast
  with st e show ?case by (simp add: intern_seq_Cons ti)
qed

lemma names_injective: "inv t \<Longrightarrow> name_at t i = Some n \<Longrightarrow> name_at t j = Some n \<Longrightarrow> i = j"
  using lookup_iff by (metis option.inject)

lemma intern_known: "inv t \<Longrightarrow> entries t < cap \<Longrightarrow> try_intern k t = Some (t', i) \<Longrightarrow>
    name_at t j = Some k \<Longrightarrow> i = j"
  using intern_step names_injective by blast

text \<open>Two identifiers handed out at any two times are equal exactly when the names are.\<close>

lemma identity_is_name_equality:
  assumes t: "inv t" "entries t + length ks + 2 \<le> cap"
    and a: "try_intern k t = Some (t1, i)"
    and s: "intern_seq ks t1 = Some t2"
    and b: "try_intern k' t2 = Some (t3, j)"
  shows "i = j \<longleftrightarrow> k = k'"
proof -
  have c: "entries t < cap" using t(2) by simp
  note st1 = intern_step [OF t(1) c a]
  then have "inv t1" "entries t1 + length ks \<le> cap" and e1: "entries t1 \<le> Suc (entries t)"
    using t(2) by (auto split: if_splits)
  from intern_seq_ok [OF this(1,2)] s have st2: "inv t2" "entries t2 \<le> entries t1 + length ks"
      "\<forall>j n. name_at t1 j = Some n \<longrightarrow> name_at t2 j = Some n" by auto
  have c2: "entries t2 < cap" using st2(2) e1 t(2) by simp
  note st3 = intern_step [OF st2(1) c2 b]
  have k: "name_at t3 i = Some k" using st1 st2(3) st3 by blast
  have k': "name_at t3 j = Some k'" using st3 by blast
  show ?thesis using k k' names_injective st3 by (metis option.inject)
qed

end

section \<open>The interner\<close>

type_synonym sym_name = string

record interner =
  imap :: "sym_name \<Rightarrow> nat option"
  ivec :: "sym_name list"

definition interner_new :: interner where
  "interner_new = \<lparr>imap = (\<lambda>_. None), ivec = []\<rparr>"

definition intern :: "sym_name \<Rightarrow> interner \<Rightarrow> interner \<times> nat" where
  "intern s t =
     (case imap t s of
        Some i \<Rightarrow> (t, i)
      | None \<Rightarrow> let i = length (ivec t) mod 2 ^ 32
          in (\<lparr>imap = (imap t)(s \<mapsto> i), ivec = ivec t @ [s]\<rparr>, i))"

definition resolve :: "interner \<Rightarrow> nat \<Rightarrow> sym_name option" where
  "resolve t i = (if i < length (ivec t) then Some (ivec t ! i) else None)"

definition get_id :: "interner \<Rightarrow> sym_name \<Rightarrow> nat option" where
  "get_id t s = imap t s"

definition interner_len :: "interner \<Rightarrow> nat" where
  "interner_len t = length (ivec t)"

definition interner_contains :: "interner \<Rightarrow> sym_name \<Rightarrow> bool" where
  "interner_contains t s \<longleftrightarrow> imap t s \<noteq> None"

definition truncate_to :: "nat \<Rightarrow> interner \<Rightarrow> interner" where
  "truncate_to keep_len t =
     (if length (ivec t) \<le> keep_len then t
      else \<lparr>imap = fold (\<lambda>stale m. m(stale := None)) (drop keep_len (ivec t)) (imap t),
             ivec = take keep_len (ivec t)\<rparr>)"

definition interner_wf :: "interner \<Rightarrow> bool" where
  "interner_wf t \<longleftrightarrow>
     distinct (ivec t) \<and> length (ivec t) \<le> 2 ^ 32 \<and>
     (\<forall>s i. imap t s = Some i \<longleftrightarrow> i < length (ivec t) \<and> ivec t ! i = s)"

lemma interner_new_wf: "interner_wf interner_new"
  by (simp add: interner_wf_def interner_new_def)

lemma interner_map_None: "interner_wf t \<Longrightarrow> imap t s = None \<longleftrightarrow> s \<notin> set (ivec t)"
  by (auto simp: interner_wf_def in_set_conv_nth) (metis not_None_eq)+

lemma intern_wf:
  assumes wf: "interner_wf t" and len: "imap t s = None \<Longrightarrow> length (ivec t) < 2 ^ 32"
  shows "interner_wf (fst (intern s t))"
proof (cases "imap t s")
  case None
  then have new: "s \<notin> set (ivec t)" using interner_map_None [OF wf] by simp
  have l: "length (ivec t) < 2 ^ 32" using len None by simp
  then have m: "length (ivec t) mod 2 ^ 32 = length (ivec t)" by simp
  have eq: "fst (intern s t) = \<lparr>imap = (imap t)(s \<mapsto> length (ivec t)), ivec = ivec t @ [s]\<rparr>"
    using None by (simp only: intern_def m Let_def option.case fst_conv)
  show ?thesis
    using wf new l unfolding eq interner_wf_def
    by (auto simp: nth_append less_Suc_eq)
qed (simp add: intern_def wf)

lemma interner_map_len: "interner_wf t \<Longrightarrow> imap t s = Some i \<Longrightarrow> i < length (ivec t) \<and> ivec t ! i = s"
  by (simp add: interner_wf_def)

interpretation sym_table: intern_table interner_wf get_id "\<lambda>s t. Some (intern s t)" resolve
    interner_len "2 ^ 32"
proof
  fix t :: interner and k :: sym_name and i :: nat
  assume wf: "interner_wf t"
  show "get_id t k = Some i \<longleftrightarrow> resolve t i = Some k"
    using wf by (auto simp: get_id_def resolve_def interner_wf_def)
  show "resolve t i \<noteq> None \<longleftrightarrow> i < interner_len t"
    by (simp add: resolve_def interner_len_def)
  show "Some (intern k t) \<noteq> None" by simp
next
  fix t t' :: interner and k :: sym_name and i :: nat
  assume wf: "interner_wf t" and len: "interner_len t < 2 ^ 32" and r: "Some (intern k t) = Some (t', i)"
  have wf': "interner_wf t'" using intern_wf [OF wf, of k] len r by (simp add: interner_len_def)
  have keep: "imap t k \<noteq> None \<or> t' = \<lparr>imap = (imap t)(k \<mapsto> length (ivec t)), ivec = ivec t @ [k]\<rparr> \<and> i = length (ivec t)"
    using r len by (auto simp: intern_def interner_len_def Let_def)
  have old: "imap t k = Some j \<Longrightarrow> t' = t \<and> i = j" for j using r by (simp add: intern_def)
  show "interner_wf t' \<and> resolve t' i = Some k \<and>
      (\<forall>j n. resolve t j = Some n \<longrightarrow> resolve t' j = Some n) \<and>
      interner_len t' = interner_len t + (if get_id t k = None then 1 else 0)"
  proof (cases "imap t k")
    case None
    with keep wf' show ?thesis
      by (auto simp: resolve_def interner_len_def get_id_def nth_append split: if_splits)
  next
    case (Some j)
    with old [OF Some] wf' interner_map_len [OF wf Some] show ?thesis
      by (auto simp: resolve_def interner_len_def get_id_def)
  qed
qed

section \<open>Rollback\<close>

definition intern_all :: "sym_name list \<Rightarrow> interner \<Rightarrow> interner" where
  "intern_all ss t = fold (\<lambda>s t. fst (intern s t)) ss t"

lemma fold_remove: "fold (\<lambda>stale m. m(stale := None)) xs m = (\<lambda>s. if s \<in> set xs then None else m s)"
  by (induction xs arbitrary: m) (auto simp: fun_eq_iff)

text \<open>\<open>t'\<close> extends \<open>t\<close>: the table of \<open>t\<close> is what is left of \<open>t'\<close> below \<open>len t\<close>.\<close>

definition extends :: "interner \<Rightarrow> interner \<Rightarrow> bool" where
  "extends t t' \<longleftrightarrow> (\<exists>zs. ivec t' = ivec t @ zs)"

lemma extends_intern: "extends t t' \<Longrightarrow> extends t (fst (intern s t'))"
  by (auto simp: extends_def intern_def Let_def split: option.splits)

lemma truncate_extends:
  assumes "interner_wf t" and "interner_wf t'" and "extends t t'"
  shows "truncate_to (interner_len t) t' = t"
proof -
  obtain zs where zs: "ivec t' = ivec t @ zs" using assms(3) by (auto simp: extends_def)
  have old: "imap t s = (if s \<in> set zs then None else imap t' s)" for s
  proof -
    have d: "set (ivec t) \<inter> set zs = {}" using assms(2) zs by (simp add: interner_wf_def)
    have "imap t s = Some i \<longleftrightarrow> s \<notin> set zs \<and> imap t' s = Some i" for i
    proof -
      have t: "imap t s = Some i \<longleftrightarrow> i < length (ivec t) \<and> ivec t ! i = s"
        using assms(1) by (simp add: interner_wf_def)
      have t': "imap t' s = Some i \<longleftrightarrow> i < length (ivec t @ zs) \<and> (ivec t @ zs) ! i = s"
        using assms(2) zs by (simp add: interner_wf_def)
      have z: "zs ! (i - length (ivec t)) \<in> set zs" if "\<not> i < length (ivec t)" "i < length (ivec t @ zs)"
        using that by simp
      show ?thesis
        unfolding t t' using z d by (auto simp: nth_append disjoint_iff split: if_splits)
    qed
    then have "imap t s = Some i \<longleftrightarrow> (if s \<in> set zs then None else imap t' s) = Some i" for i
      by simp
    then show ?thesis by (rule option_eq_by_Some)
  qed
  show ?thesis
  proof (cases "zs = []")
    case True
    then have "imap t = imap t'" using old by (simp add: fun_eq_iff)
    then show ?thesis using zs True by (simp add: truncate_to_def interner_len_def)
  next
    case False
    then have "truncate_to (interner_len t) t' = \<lparr>imap = imap t, ivec = ivec t\<rparr>"
      using zs old by (simp add: truncate_to_def interner_len_def fold_remove fun_eq_iff)
    then show ?thesis by simp
  qed
qed

lemma intern_all_wf_extends:
  "interner_wf t \<Longrightarrow> length (ivec t) + length ss \<le> 2 ^ 32 \<Longrightarrow>
   interner_wf (intern_all ss t) \<and> extends t (intern_all ss t)"
proof (induction ss rule: rev_induct)
  case Nil
  then show ?case by (simp add: intern_all_def extends_def)
next
  case (snoc s ss)
  have len: "length (ivec (intern_all ss' t)) \<le> length (ivec t) + length ss'" for ss'
    by (induction ss' rule: rev_induct)
      (auto simp: intern_all_def intern_def Let_def split: option.splits)
  have "length (ivec (intern_all ss t)) < 2 ^ 32" using len [of ss] snoc.prems(2) by simp
  then show ?case
    using snoc intern_wf [of "intern_all ss t" s] extends_intern
    by (simp add: intern_all_def)
qed

lemma intern_seq_all: "sym_table.intern_seq ss t = Some (intern_all ss t)"
  by (induction ss arbitrary: t) (simp_all add: sym_table.intern_seq_Cons intern_all_def split_beta)

lemma ucast_up_inj: "(ucast (i :: u32) :: u64) = ucast j \<longleftrightarrow> i = j"
proof
  assume e: "(ucast i :: u64) = ucast j"
  show "i = j"
  proof (rule bit_word_eqI)
    fix n assume "n < LENGTH(32)"
    then show "bit i n = bit j n"
      using arg_cong [OF e, of "\<lambda>w. bit w n"] by (simp add: bit_simps)
  qed
qed simp

text \<open>The hasher never merges two symbol identifiers.\<close>

lemma fx_write_u32_inj: "fx_write_u32 i h = fx_write_u32 j h \<longleftrightarrow> i = j"
proof
  assume "fx_write_u32 i h = fx_write_u32 j h"
  then have "(ucast i :: u64) = ucast j" unfolding fx_write_u32_def by (rule fx_add_inj)
  then show "i = j" by (simp add: ucast_up_inj)
qed simp

section \<open>Properties\<close>

text \<open>C26. Symbol equality is string equality: intern a name, intern any other names after it,
  intern a second name; the two identifiers are equal exactly when the two names are, as long as
  the table has not reached its 2^32 identifiers.\<close>

theorem symbol_identity:
  assumes "interner_wf t" and "interner_len t + length ks + 2 \<le> 2 ^ 32"
  shows "snd (intern k t) = snd (intern k' (intern_all ks (fst (intern k t)))) \<longleftrightarrow> k = k'"
  using sym_table.identity_is_name_equality [of t ks k "fst (intern k t)" "snd (intern k t)"
      "intern_all ks (fst (intern k t))" k'] assms
  by (metis intern_seq_all prod.collapse)

theorem symbol_identity_witness:
  "snd (intern ''puts'' interner_new) =
     snd (intern ''puts'' (intern_all [''each'', ''map''] (fst (intern ''puts'' interner_new))))"
  using symbol_identity [OF interner_new_wf, of "[''each'', ''map'']" "''puts''" "''puts''"]
  by (simp add: interner_len_def interner_new_def)

text \<open>C27. Rolling the interner back to an earlier length, as Runtime::reset does, undoes exactly
  the interning done since: both the forward map and the name vector are those of the earlier
  state, so every earlier symbol keeps its identifier and no later name is found.\<close>

theorem reset_rolls_back:
  assumes "interner_wf t" and "interner_len t + length ss \<le> 2 ^ 32"
  shows "truncate_to (interner_len t) (intern_all ss t) = t"
  using intern_all_wf_extends [of t ss] assms truncate_extends [of t "intern_all ss t"]
  by (simp add: interner_len_def)

theorem reset_rolls_back_witness:
  "truncate_to 0 (intern_all [''a'', ''b'', ''a''] interner_new) = interner_new"
  using reset_rolls_back [OF interner_new_wf, of "[''a'', ''b'', ''a'']"]
  by (simp add: interner_len_def interner_new_def)

end
