(* ===== verification/Ivar_Table.thy ===== *)
theory Ivar_Table
  imports Value_Model Interner "HOL-Library.AList"
begin

text \<open>
  Instance variables (\<open>value.rs\<close>: \<open>IvarShape\<close>, \<open>IvarTable\<close>, the accessors of \<open>Class\<close> and
  \<open>Instance\<close>; \<open>vm/lookup.rs\<close>: \<open>ivar_slot_cached\<close>). A class owns a shape, which numbers the
  names ever assigned on its instances; an object stores a flat slot array, the order of
  assignment and a bit set. The table refines an association list in assignment order, and the
  per-site slot cache is transparent.
\<close>

section \<open>The shape of a class\<close>

record ivar_shape =
  shape_names :: "symid list"
  shape_map :: "symid \<Rightarrow> nat option"

definition shape_linear_max :: nat where
  "shape_linear_max = 8"

fun position :: "'a \<Rightarrow> 'a list \<Rightarrow> nat option" where
  "position x [] = None"
| "position x (y # ys) = (if y = x then Some 0 else map_option Suc (position x ys))"

definition shape_lookup :: "ivar_shape \<Rightarrow> symid \<Rightarrow> nat option" where
  "shape_lookup sh nm =
     (if length (shape_names sh) \<le> shape_linear_max then position nm (shape_names sh)
      else shape_map sh nm)"

text \<open>\<open>None\<close> is the panic at more than \<open>u32::MAX\<close> names.\<close>

definition shape_intern :: "symid \<Rightarrow> ivar_shape \<Rightarrow> (ivar_shape \<times> nat) option" where
  "shape_intern nm sh =
     (case shape_lookup sh nm of
        Some s \<Rightarrow> Some (sh, s)
      | None \<Rightarrow>
          let slot = length (shape_names sh)
          in if 2 ^ 32 \<le> slot then None
             else Some (\<lparr>shape_names = shape_names sh @ [nm],
                         shape_map = (shape_map sh)(nm \<mapsto> slot)\<rparr>, slot))"

definition shape_name_at :: "ivar_shape \<Rightarrow> nat \<Rightarrow> symid option" where
  "shape_name_at sh slot =
     (if slot < length (shape_names sh) then Some (shape_names sh ! slot) else None)"

definition name_of :: "ivar_shape \<Rightarrow> nat \<Rightarrow> symid" where
  "name_of sh slot = shape_names sh ! slot"

definition shape_wf :: "ivar_shape \<Rightarrow> bool" where
  "shape_wf sh \<longleftrightarrow>
     distinct (shape_names sh) \<and>
     (\<forall>s i. shape_map sh s = Some i \<longleftrightarrow> i < length (shape_names sh) \<and> shape_names sh ! i = s)"

definition shape_empty :: ivar_shape where
  "shape_empty = \<lparr>shape_names = [], shape_map = (\<lambda>_. None)\<rparr>"

lemma shape_empty_wf: "shape_wf shape_empty"
  by (simp add: shape_wf_def shape_empty_def)

lemma position_iff:
  "distinct xs \<Longrightarrow> position x xs = Some i \<longleftrightarrow> i < length xs \<and> xs ! i = x"
proof (induction xs arbitrary: i)
  case (Cons y ys)
  then show ?case by (cases i) (auto simp: nth_eq_iff_index_eq in_set_conv_nth)
qed simp

lemma shape_lookup_iff:
  "shape_wf sh \<Longrightarrow> shape_lookup sh s = Some i \<longleftrightarrow> shape_name_at sh i = Some s"
  by (auto simp: shape_wf_def shape_lookup_def shape_name_at_def position_iff)

lemma shape_lookup_None: "shape_wf sh \<Longrightarrow> shape_lookup sh s = None \<longleftrightarrow> s \<notin> set (shape_names sh)"
proof
  assume wf: "shape_wf sh" and "shape_lookup sh s = None"
  then have "\<forall>i. shape_name_at sh i \<noteq> Some s" using shape_lookup_iff [OF wf, of s] by simp
  moreover have "\<exists>i. shape_name_at sh i = Some s" if "s \<in> set (shape_names sh)"
    using that by (auto simp: in_set_conv_nth shape_name_at_def intro: exI)
  ultimately show "s \<notin> set (shape_names sh)" by blast
next
  assume wf: "shape_wf sh" and "s \<notin> set (shape_names sh)"
  then have "shape_name_at sh i \<noteq> Some s" for i by (auto simp: shape_name_at_def)
  then show "shape_lookup sh s = None"
    using shape_lookup_iff [OF wf, of s] by (cases "shape_lookup sh s") auto
qed

lemma shape_intern_wf:
  assumes wf: "shape_wf sh" and i: "shape_intern s sh = Some (sh', slot)"
  shows "shape_wf sh'"
proof (cases "shape_lookup sh s")
  case None
  then have "s \<notin> set (shape_names sh)" using shape_lookup_None [OF wf] by simp
  with None i wf show ?thesis
    by (auto simp: shape_intern_def Let_def shape_wf_def nth_append less_Suc_eq split: if_splits)
qed (use i wf in \<open>simp add: shape_intern_def\<close>)

lemma shape_intern_name:
  "shape_wf sh \<Longrightarrow> shape_intern s sh = Some (sh', slot) \<Longrightarrow> shape_name_at sh' slot = Some s"
  by (auto simp: shape_intern_def Let_def shape_lookup_iff shape_name_at_def
      split: option.splits if_splits)

lemma shape_intern_keeps:
  "shape_intern s sh = Some (sh', slot) \<Longrightarrow> shape_name_at sh j = Some n \<Longrightarrow> shape_name_at sh' j = Some n"
  by (auto simp: shape_intern_def Let_def shape_name_at_def nth_append split: option.splits if_splits)

text \<open>A name the shape already has is interned without a change to the shape.\<close>

lemma shape_intern_known:
  "shape_wf sh \<Longrightarrow> shape_name_at sh j = Some s \<Longrightarrow> shape_intern s sh = Some (sh, j)"
  using shape_lookup_iff [of sh s j] by (simp add: shape_intern_def)

interpretation shape_table: intern_table shape_wf shape_lookup shape_intern shape_name_at
    "\<lambda>sh. length (shape_names sh)" "2 ^ 32"
proof
  fix sh sh' :: ivar_shape and k :: symid and i :: nat
  assume wf: "shape_wf sh"
  show "shape_lookup sh k = Some i \<longleftrightarrow> shape_name_at sh i = Some k"
    by (rule shape_lookup_iff [OF wf])
  show "shape_name_at sh i \<noteq> None \<longleftrightarrow> i < length (shape_names sh)"
    by (simp add: shape_name_at_def)
  assume len: "length (shape_names sh) < 2 ^ 32"
  show "shape_intern k sh \<noteq> None"
    using len by (auto simp: shape_intern_def Let_def split: option.splits)
  assume r: "shape_intern k sh = Some (sh', i)"
  have "length (shape_names sh') = length (shape_names sh) + (if shape_lookup sh k = None then 1 else 0)"
    using r by (auto simp: shape_intern_def Let_def split: option.splits if_splits)
  with r wf shape_intern_wf shape_intern_name shape_intern_keeps
  show "shape_wf sh' \<and> shape_name_at sh' i = Some k \<and>
      (\<forall>j n. shape_name_at sh j = Some n \<longrightarrow> shape_name_at sh' j = Some n) \<and>
      length (shape_names sh') = length (shape_names sh) + (if shape_lookup sh k = None then 1 else 0)"
    by blast
qed

section \<open>The table of an object\<close>

record ivar_table =
  slots :: "rvalue list"
  order :: "nat list"
  bits :: u64

definition ivar_table_default :: ivar_table where
  "ivar_table_default = \<lparr>slots = [], order = [], bits = 0\<rparr>"

text \<open>\<open>1u64 << slot\<close>, for slots below 64.\<close>

definition slot_bit :: "nat \<Rightarrow> u64" where
  "slot_bit slot = push_bit slot 1"

definition defined :: "ivar_table \<Rightarrow> nat \<Rightarrow> bool" where
  "defined t slot =
     (if slot < 64 then bits t AND slot_bit slot \<noteq> 0 else slot \<in> set (order t))"

definition read_slot :: "ivar_table \<Rightarrow> nat \<Rightarrow> rvalue option" where
  "read_slot t slot =
     (if slot < length (slots t) \<and> defined t slot then Some (slots t ! slot) else None)"

definition read_slot_raw :: "ivar_table \<Rightarrow> nat \<Rightarrow> rvalue" where
  "read_slot_raw t slot = (if slot < length (slots t) then slots t ! slot else VNil)"

definition write_slot :: "nat \<Rightarrow> rvalue \<Rightarrow> ivar_table \<Rightarrow> ivar_table \<times> rvalue option" where
  "write_slot slot v t =
     (let grown = (if length (slots t) \<le> slot
                   then slots t @ replicate (Suc slot - length (slots t)) VNil else slots t)
      in if defined t slot
         then (t\<lparr>slots := grown[slot := v]\<rparr>, Some (grown ! slot))
         else (\<lparr>slots = grown[slot := v], order = order t @ [slot],
                bits = (if slot < 64 then bits t OR slot_bit slot else bits t)\<rparr>, None))"

definition clear_slot :: "nat \<Rightarrow> ivar_table \<Rightarrow> ivar_table" where
  "clear_slot slot t =
     \<lparr>slots = (slots t)[slot := VNil], order = remove1 slot (order t),
      bits = (if slot < 64 then bits t AND NOT (slot_bit slot) else bits t)\<rparr>"

definition ivar_get :: "ivar_shape \<Rightarrow> ivar_table \<Rightarrow> symid \<Rightarrow> rvalue option" where
  "ivar_get sh t k = (case shape_lookup sh k of None \<Rightarrow> None | Some slot \<Rightarrow> read_slot t slot)"

definition ivar_insert ::
  "symid \<Rightarrow> rvalue \<Rightarrow> ivar_shape \<Rightarrow> ivar_table \<Rightarrow> (ivar_shape \<times> ivar_table \<times> rvalue option) option" where
  "ivar_insert k v sh t =
     (case shape_intern k sh of
        None \<Rightarrow> None
      | Some (sh', slot) \<Rightarrow> (case write_slot slot v t of (t', old) \<Rightarrow> Some (sh', t', old)))"

definition ivar_remove :: "symid \<Rightarrow> ivar_shape \<Rightarrow> ivar_table \<Rightarrow> ivar_table \<times> rvalue option" where
  "ivar_remove k sh t =
     (case shape_lookup sh k of
        None \<Rightarrow> (t, None)
      | Some slot \<Rightarrow>
          if length (slots t) \<le> slot \<or> \<not> defined t slot then (t, None)
          else (clear_slot slot t, Some (slots t ! slot)))"

definition ivar_contains_key :: "ivar_shape \<Rightarrow> ivar_table \<Rightarrow> symid \<Rightarrow> bool" where
  "ivar_contains_key sh t k \<longleftrightarrow>
     (case shape_lookup sh k of None \<Rightarrow> False | Some s \<Rightarrow> s < length (slots t) \<and> defined t s)"

definition ivar_len :: "ivar_table \<Rightarrow> nat" where
  "ivar_len t = length (order t)"

definition ivar_is_empty :: "ivar_table \<Rightarrow> bool" where
  "ivar_is_empty t \<longleftrightarrow> order t = []"

definition ivar_values :: "ivar_table \<Rightarrow> rvalue list" where
  "ivar_values t = map (\<lambda>s. slots t ! s) (order t)"

definition ivar_values_raw :: "ivar_table \<Rightarrow> rvalue list" where
  "ivar_values_raw t = slots t"

definition ivar_keys :: "ivar_shape \<Rightarrow> ivar_table \<Rightarrow> symid list" where
  "ivar_keys sh t = map (name_of sh) (order t)"

definition ivar_iter :: "ivar_shape \<Rightarrow> ivar_table \<Rightarrow> (symid \<times> rvalue) list" where
  "ivar_iter sh t = map (\<lambda>s. (name_of sh s, slots t ! s)) (order t)"

section \<open>Invariant\<close>

text \<open>
  The invariants the source states: the bit set mirrors the order list below 64, and a slot that
  is not defined holds nil. Every defined slot has a name in the class's shape.
\<close>

definition ivar_wf :: "ivar_shape \<Rightarrow> ivar_table \<Rightarrow> bool" where
  "ivar_wf sh t \<longleftrightarrow>
     shape_wf sh \<and> distinct (order t) \<and>
     (\<forall>s \<in> set (order t). s < length (slots t) \<and> s < length (shape_names sh)) \<and>
     (\<forall>s < 64. bit (bits t) s \<longleftrightarrow> s \<in> set (order t)) \<and>
     (\<forall>s < length (slots t). s \<notin> set (order t) \<longrightarrow> slots t ! s = VNil)"

lemma bit_slot_bit: "n < 64 \<Longrightarrow> bit (slot_bit n) m \<longleftrightarrow> m = n"
  unfolding slot_bit_def by (auto simp: bit_push_bit_iff bit_1_iff simp del: push_bit_of_1)

lemma and_slot_bit: "(w :: u64) AND slot_bit n \<noteq> 0 \<longleftrightarrow> bit w n" if "n < 64"
proof
  assume "w AND slot_bit n \<noteq> 0"
  then obtain m where "bit (w AND slot_bit n) m" by (metis bit_eq_iff bit_0_eq bot_apply bot_bool_def)
  then show "bit w n" using bit_slot_bit [OF that] by (auto simp: bit_and_iff)
next
  assume "bit w n"
  then have "bit (w AND slot_bit n) n" using bit_slot_bit [OF that] by (simp add: bit_and_iff)
  then show "w AND slot_bit n \<noteq> 0" by auto
qed

lemma defined_iff: "ivar_wf sh t \<Longrightarrow> defined t s \<longleftrightarrow> s \<in> set (order t)"
  using and_slot_bit [of s "bits t"] by (auto simp: defined_def ivar_wf_def)

lemma ivar_default_wf: "shape_wf sh \<Longrightarrow> ivar_wf sh ivar_table_default"
  by (simp add: ivar_wf_def ivar_table_default_def)

lemma ivar_wf_mono:
  "ivar_wf sh t \<Longrightarrow> shape_intern k sh = Some (sh', slot) \<Longrightarrow> ivar_wf sh' t"
proof -
  assume wf: "ivar_wf sh t" and i: "shape_intern k sh = Some (sh', slot)"
  have "length (shape_names sh) \<le> length (shape_names sh')"
    using i by (auto simp: shape_intern_def Let_def split: option.splits if_splits)
  then show "ivar_wf sh' t"
    using wf i shape_intern_wf [of sh k sh' slot] by (auto simp: ivar_wf_def)
qed

lemma bit_set: "n < 64 \<Longrightarrow> bit ((w :: u64) OR slot_bit n) m \<longleftrightarrow> bit w m \<or> m = n"
  by (simp add: bit_or_iff bit_slot_bit)

lemma bit_clear: "n < 64 \<Longrightarrow> m < 64 \<Longrightarrow> bit ((w :: u64) AND NOT (slot_bit n)) m \<longleftrightarrow> bit w m \<and> m \<noteq> n"
  by (simp add: bit_and_iff bit_not_iff bit_slot_bit)

definition grow :: "nat \<Rightarrow> rvalue list \<Rightarrow> rvalue list" where
  "grow slot vs = (if length vs \<le> slot then vs @ replicate (Suc slot - length vs) VNil else vs)"

lemma length_grow: "length (grow slot vs) = max (length vs) (Suc slot)"
  by (simp add: grow_def)

lemma nth_grow: "s < length (grow slot vs) \<Longrightarrow> grow slot vs ! s = (if s < length vs then vs ! s else VNil)"
  by (auto simp: grow_def nth_append)

lemma write_slot_grow:
  "write_slot slot v t =
     (if defined t slot then (t\<lparr>slots := (grow slot (slots t))[slot := v]\<rparr>, Some (grow slot (slots t) ! slot))
      else (\<lparr>slots = (grow slot (slots t))[slot := v], order = order t @ [slot],
             bits = (if slot < 64 then bits t OR slot_bit slot else bits t)\<rparr>, None))"
  by (simp add: write_slot_def grow_def Let_def)

lemma write_slot_wf:
  assumes wf: "ivar_wf sh t" and slot: "slot < length (shape_names sh)"
  shows "ivar_wf sh (fst (write_slot slot v t))"
proof (cases "defined t slot")
  case True
  then have "slot \<in> set (order t)" using defined_iff [OF wf] by simp
  with True wf show ?thesis
    unfolding write_slot_grow ivar_wf_def
    by (auto simp: length_grow nth_grow nth_list_update)
next
  case False
  then have "slot \<notin> set (order t)" using defined_iff [OF wf] by simp
  with False wf slot show ?thesis
    unfolding write_slot_grow ivar_wf_def
    by (auto simp: length_grow nth_grow nth_list_update bit_set)
qed

lemma clear_slot_wf:
  assumes wf: "ivar_wf sh t"
  shows "ivar_wf sh (clear_slot slot t)"
  using wf unfolding ivar_wf_def clear_slot_def
  by (cases "slot < length (slots t)") (auto simp: bit_clear nth_list_update)

section \<open>Refinement of an assignment-ordered association list\<close>

text \<open>
  The abstract object: its \<open>instance_variables\<close> with their values, in assignment order, which is
  what \<open>ivar_iter\<close> returns. Writing is \<open>AList.update\<close> (in place, or at the end), removing is
  \<open>AList.delete\<close>, reading is \<open>map_of\<close>.
\<close>

lemma update_map_in:
  "distinct xs \<Longrightarrow> inj_on f (set xs) \<Longrightarrow> s \<in> set xs \<Longrightarrow>
   AList.update (f s) v (map (\<lambda>x. (f x, g x)) xs) = map (\<lambda>x. (f x, if x = s then v else g x)) xs"
proof (induction xs)
  case (Cons x xs)
  show ?case
  proof (cases "x = s")
    case True
    with Cons.prems show ?thesis by auto
  next
    case False
    with Cons.prems have "f x \<noteq> f s" "s \<in> set xs" by (auto dest: inj_onD)
    with Cons False show ?thesis by simp
  qed
qed simp

lemma update_map_notin:
  "f s \<notin> f ` set xs \<Longrightarrow>
   AList.update (f s) v (map (\<lambda>x. (f x, g x)) xs) = map (\<lambda>x. (f x, g x)) xs @ [(f s, v)]"
  by (induction xs) auto

lemma delete_map:
  "distinct xs \<Longrightarrow> inj_on f (set xs) \<Longrightarrow> s \<in> set xs \<Longrightarrow>
   AList.delete (f s) (map (\<lambda>x. (f x, g x)) xs) = map (\<lambda>x. (f x, g x)) (remove1 s xs)"
proof (induction xs)
  case (Cons x xs)
  show ?case
  proof (cases "x = s")
    case True
    with Cons.prems have "f s \<notin> f ` set xs" by auto
    then have "AList.delete (f s) (map (\<lambda>x. (f x, g x)) xs) = map (\<lambda>x. (f x, g x)) xs"
      by (induction xs) auto
    with True show ?thesis by simp
  next
    case False
    with Cons.prems have "f x \<noteq> f s" "s \<in> set xs" by (auto dest: inj_onD)
    with Cons False show ?thesis by simp
  qed
qed simp

lemma map_of_map_inj:
  "inj_on f (insert s (set xs)) \<Longrightarrow>
   map_of (map (\<lambda>x. (f x, g x)) xs) (f s) = (if s \<in> set xs then Some (g s) else None)"
  by (induction xs) (auto dest: inj_onD simp: inj_on_def)

lemma name_of_inj: "shape_wf sh \<Longrightarrow> inj_on (name_of sh) {s. s < length (shape_names sh)}"
  by (auto simp: shape_wf_def name_of_def inj_on_def nth_eq_iff_index_eq)

lemma name_of_at: "shape_name_at sh s = Some n \<longleftrightarrow> s < length (shape_names sh) \<and> name_of sh s = n"
  by (auto simp: shape_name_at_def name_of_def)

lemma ivar_wf_inj:
  "ivar_wf sh t \<Longrightarrow> s < length (shape_names sh) \<Longrightarrow> inj_on (name_of sh) (insert s (set (order t)))"
  using name_of_inj [of sh] by (rule inj_on_subset) (auto simp: ivar_wf_def)

lemma read_slot_lookup:
  assumes "ivar_wf sh t" and "s < length (shape_names sh)"
  shows "read_slot t s = map_of (ivar_iter sh t) (name_of sh s)"
  unfolding ivar_iter_def map_of_map_inj [OF ivar_wf_inj [OF assms]]
  using defined_iff [OF assms(1), of s] assms(1) by (auto simp: read_slot_def ivar_wf_def)

lemma ivar_get_refines:
  assumes wf: "ivar_wf sh t"
  shows "ivar_get sh t k = map_of (ivar_iter sh t) k"
proof (cases "shape_lookup sh k")
  case None
  then have "k \<notin> set (shape_names sh)" using wf shape_lookup_None by (simp add: ivar_wf_def)
  then have "k \<notin> fst ` set (ivar_iter sh t)"
    using wf by (auto simp: ivar_iter_def name_of_def ivar_wf_def)
  then have "map_of (ivar_iter sh t) k = None" by (simp add: map_of_eq_None_iff)
  with None show ?thesis by (simp add: ivar_get_def)
next
  case (Some s)
  then have "s < length (shape_names sh) \<and> name_of sh s = k"
    using wf shape_lookup_iff name_of_at by (simp add: ivar_wf_def)
  with Some read_slot_lookup [OF wf, of s] show ?thesis by (simp add: ivar_get_def)
qed

lemma ivar_iter_mono:
  assumes wf: "ivar_wf sh t" and i: "shape_intern k sh = Some (sh', slot)"
  shows "ivar_iter sh' t = ivar_iter sh t"
proof -
  have "name_of sh' s = name_of sh s" if "s \<in> set (order t)" for s
    using shape_intern_keeps [OF i, of s "name_of sh s"] that wf
    by (auto simp: name_of_at ivar_wf_def)
  then show ?thesis by (simp add: ivar_iter_def)
qed

lemma write_slot_refines:
  assumes wf: "ivar_wf sh t" and slot: "slot < length (shape_names sh)"
    and w: "write_slot slot v t = (t', old)"
  shows "ivar_iter sh t' = AList.update (name_of sh slot) v (ivar_iter sh t)
         \<and> old = map_of (ivar_iter sh t) (name_of sh slot)"
proof -
  note inj = ivar_wf_inj [OF wf slot]
  have d: "distinct (order t)" and lt: "\<forall>s \<in> set (order t). s < length (slots t)"
    using wf by (auto simp: ivar_wf_def)
  have upd: "((grow slot (slots t))[slot := v]) ! s = (if s = slot then v else slots t ! s)"
    if "s \<in> set (order t) \<or> s = slot" for s
    using that lt by (auto simp: nth_list_update length_grow nth_grow)
  show ?thesis
  proof (cases "slot \<in> set (order t)")
    case True
    then have "ivar_iter sh t' = map (\<lambda>s. (name_of sh s, if s = slot then v else slots t ! s)) (order t)"
      using w defined_iff [OF wf, of slot] upd by (auto simp: write_slot_grow ivar_iter_def)
    moreover have "old = Some (slots t ! slot)"
      using w True lt defined_iff [OF wf, of slot] by (auto simp: write_slot_grow grow_def)
    ultimately show ?thesis
      using update_map_in [OF d _ True, of "name_of sh" v "\<lambda>s. slots t ! s"]
        map_of_map_inj [OF inj, of "\<lambda>s. slots t ! s"] inj True
      by (simp add: ivar_iter_def [of sh t] inj_on_insert)
  next
    case False
    then have "ivar_iter sh t' = ivar_iter sh t @ [(name_of sh slot, v)]" "old = None"
      using w defined_iff [OF wf, of slot] upd by (auto simp: write_slot_grow ivar_iter_def)
    moreover have "name_of sh slot \<notin> name_of sh ` set (order t)"
      using inj False by auto
    then have "AList.update (name_of sh slot) v (ivar_iter sh t) = ivar_iter sh t @ [(name_of sh slot, v)]"
      unfolding ivar_iter_def by (rule update_map_notin)
    ultimately show ?thesis
      using map_of_map_inj [OF inj, of "\<lambda>s. slots t ! s"] False by (simp add: ivar_iter_def [of sh t])
  qed
qed

lemma ivar_insert_refines:
  assumes wf: "ivar_wf sh t" and ins: "ivar_insert k v sh t = Some (sh', t', old)"
  shows "ivar_wf sh' t' \<and> ivar_iter sh' t' = AList.update k v (ivar_iter sh t)
         \<and> old = map_of (ivar_iter sh t) k"
proof -
  from ins obtain slot where i: "shape_intern k sh = Some (sh', slot)"
    and w: "write_slot slot v t = (t', old)"
    by (auto simp: ivar_insert_def split: option.splits prod.splits)
  have wf': "ivar_wf sh' t" by (rule ivar_wf_mono [OF wf i])
  have sl: "slot < length (shape_names sh') \<and> name_of sh' slot = k"
    using shape_intern_name [OF _ i] wf by (simp add: ivar_wf_def name_of_at)
  show ?thesis
    using write_slot_refines [OF wf' conjunct1 [OF sl] w] write_slot_wf [OF wf' conjunct1 [OF sl], of v] sl w
      ivar_iter_mono [OF wf i] by simp
qed

lemma ivar_remove_refines:
  assumes wf: "ivar_wf sh t" and rm: "ivar_remove k sh t = (t', old)"
  shows "ivar_wf sh t' \<and> ivar_iter sh t' = AList.delete k (ivar_iter sh t)
         \<and> old = map_of (ivar_iter sh t) k"
proof (cases "old")
  case None
  have "map_of (ivar_iter sh t) k = None"
    using rm None ivar_get_refines [OF wf, of k]
    by (auto simp: ivar_remove_def ivar_get_def read_slot_def split: option.splits if_splits)
  moreover have "t' = t" using rm None by (auto simp: ivar_remove_def split: option.splits if_splits)
  ultimately show ?thesis
    using None wf by (simp add: map_of_eq_None_iff [THEN iffD1])
next
  case (Some x)
  then obtain slot where l: "shape_lookup sh k = Some slot" "slot < length (slots t)" "defined t slot"
    and t': "t' = clear_slot slot t" and x: "x = slots t ! slot"
    using rm by (auto simp: ivar_remove_def split: option.splits if_splits)
  have sl: "slot < length (shape_names sh)" "name_of sh slot = k"
    using l(1) wf shape_lookup_iff name_of_at by (simp_all add: ivar_wf_def)
  have mem: "slot \<in> set (order t)" using l(3) defined_iff [OF wf] by simp
  note inj = ivar_wf_inj [OF wf sl(1)]
  have d: "distinct (order t)" using wf by (simp add: ivar_wf_def)
  have "ivar_iter sh t' = map (\<lambda>s. (name_of sh s, slots t ! s)) (remove1 slot (order t))"
    using d by (auto simp: t' clear_slot_def ivar_iter_def)
  then have "ivar_iter sh t' = AList.delete k (ivar_iter sh t)"
    using delete_map [OF d _ mem, of "name_of sh" "\<lambda>s. slots t ! s"] inj sl
    by (simp add: ivar_iter_def [of sh t] inj_on_insert)
  moreover have "old = map_of (ivar_iter sh t) k"
    using read_slot_lookup [OF wf sl(1)] sl l Some x by (simp add: read_slot_def)
  ultimately show ?thesis using clear_slot_wf [OF wf] t' by simp
qed

text \<open>The raw read of the hot path needs no definedness test.\<close>

lemma read_slot_raw_eq:
  "ivar_wf sh t \<Longrightarrow> read_slot_raw t s = (case read_slot t s of Some v \<Rightarrow> v | None \<Rightarrow> VNil)"
  using defined_iff [of sh t s] by (auto simp: read_slot_raw_def read_slot_def ivar_wf_def)

section \<open>The per-site slot cache\<close>

text \<open>
  \<open>shapes\<close> gives every class its shape; a class pointer is a non-zero number, \<open>0\<close> marks an
  unfilled entry. \<open>cid = u32::MAX\<close> is a site with no cache. \<open>None\<close> is the panic of the shape.
\<close>

record ivar_site_cache =
  class_ptr :: nat
  cached_slot :: nat

definition ivar_site_default :: ivar_site_cache where
  "ivar_site_default = \<lparr>class_ptr = 0, cached_slot = 0\<rparr>"

definition uncached_cid :: nat where
  "uncached_cid = 2 ^ 32 - 1"

definition ivar_slot_intern ::
  "symid \<Rightarrow> nat \<Rightarrow> (nat \<Rightarrow> ivar_shape) \<Rightarrow> ((nat \<Rightarrow> ivar_shape) \<times> nat) option" where
  "ivar_slot_intern nm cls shapes =
     (case shape_intern nm (shapes cls) of
        None \<Rightarrow> None
      | Some (sh', slot) \<Rightarrow> Some (shapes(cls := sh'), slot))"

definition fill_cache :: "nat \<Rightarrow> ivar_site_cache \<Rightarrow> ivar_site_cache list \<Rightarrow> ivar_site_cache list" where
  "fill_cache idx e caches =
     (if length caches \<le> idx then caches @ replicate (Suc idx - length caches) ivar_site_default
      else caches)[idx := e]"

definition ivar_slot_cached ::
  "ivar_site_cache list \<Rightarrow> (nat \<Rightarrow> ivar_shape) \<Rightarrow> nat \<Rightarrow> symid \<Rightarrow> nat \<Rightarrow>
   (ivar_site_cache list \<times> (nat \<Rightarrow> ivar_shape) \<times> nat) option" where
  "ivar_slot_cached caches shapes cls_ptr name_id cid =
     (let hit = cid \<noteq> uncached_cid \<and> cid < length caches \<and> class_ptr (caches ! cid) \<noteq> 0;
          e = caches ! cid;
          miss = (case ivar_slot_intern name_id cls_ptr shapes of
                    None \<Rightarrow> None
                  | Some (shapes', slot) \<Rightarrow>
                      Some (if cid \<noteq> uncached_cid
                            then fill_cache cid \<lparr>class_ptr = cls_ptr, cached_slot = slot\<rparr> caches
                            else caches, shapes', slot))
      in if hit then
           (if class_ptr e = cls_ptr then Some (caches, shapes, cached_slot e)
            else if shape_name_at (shapes cls_ptr) (cached_slot e) = Some name_id
            then Some (caches[cid := e\<lparr>class_ptr := cls_ptr\<rparr>], shapes, cached_slot e)
            else miss)
         else miss)"

text \<open>
  What the cache vector relies on: each site reads one name (\<open>site_name\<close>), and a filled entry's
  slot carries that name in the entry's class.
\<close>

definition site_caches_ok :: "(nat \<Rightarrow> symid) \<Rightarrow> (nat \<Rightarrow> ivar_shape) \<Rightarrow> ivar_site_cache list \<Rightarrow> bool" where
  "site_caches_ok site_name shapes caches \<longleftrightarrow>
     (\<forall>i < length caches. class_ptr (caches ! i) \<noteq> 0 \<longrightarrow>
        shape_name_at (shapes (class_ptr (caches ! i))) (cached_slot (caches ! i)) = Some (site_name i))"

lemma ivar_slot_intern_known:
  "shape_wf (shapes cls) \<Longrightarrow> shape_name_at (shapes cls) j = Some nm \<Longrightarrow>
   ivar_slot_intern nm cls shapes = Some (shapes, j)"
  by (simp add: ivar_slot_intern_def shape_intern_known)

lemma ivar_slot_intern_keeps:
  "ivar_slot_intern nm cls shapes = Some (shapes', slot) \<Longrightarrow>
   shape_name_at (shapes c) j = Some n \<Longrightarrow> shape_name_at (shapes' c) j = Some n"
  using shape_intern_keeps by (fastforce simp: ivar_slot_intern_def split: option.splits)

lemma ivar_slot_intern_wf:
  "ivar_slot_intern nm cls shapes = Some (shapes', slot) \<Longrightarrow> \<forall>c. shape_wf (shapes c) \<Longrightarrow> shape_wf (shapes' c)"
  using shape_intern_wf [of "shapes cls" nm _ slot]
  by (auto simp: ivar_slot_intern_def split: option.splits)

lemma ivar_slot_intern_name:
  "ivar_slot_intern nm cls shapes = Some (shapes', slot) \<Longrightarrow> shape_wf (shapes cls) \<Longrightarrow>
   shape_name_at (shapes' cls) slot = Some nm"
  using shape_intern_name by (auto simp: ivar_slot_intern_def split: option.splits)

text \<open>No invalidation: interning anything, anywhere, keeps every filled entry right.\<close>

lemma site_caches_ok_mono:
  "site_caches_ok sn shapes caches \<Longrightarrow> ivar_slot_intern nm cls shapes = Some (shapes', slot) \<Longrightarrow>
   site_caches_ok sn shapes' caches"
  by (auto simp: site_caches_ok_def dest: ivar_slot_intern_keeps)

lemma fill_cache_ok:
  assumes "site_caches_ok sn shapes caches"
    and "shape_name_at (shapes (class_ptr e)) (cached_slot e) = Some (sn idx)"
  shows "site_caches_ok sn shapes (fill_cache idx e caches)"
  using assms
  by (auto simp: site_caches_ok_def fill_cache_def nth_list_update nth_append ivar_site_default_def)

lemma ivar_slot_cached_cases:
  assumes wf: "\<forall>c. shape_wf (shapes c)" and ok: "site_caches_ok sn shapes caches"
    and nm: "cid \<noteq> uncached_cid \<Longrightarrow> sn cid = nm"
  shows "case ivar_slot_cached caches shapes cls nm cid of
      None \<Rightarrow> ivar_slot_intern nm cls shapes = None
    | Some (caches', shapes', slot) \<Rightarrow>
        ivar_slot_intern nm cls shapes = Some (shapes', slot) \<and> site_caches_ok sn shapes' caches'"
proof -
  have miss: "case (case ivar_slot_intern nm cls shapes of
                    None \<Rightarrow> None
                  | Some (shapes', slot) \<Rightarrow>
                      Some (if cid \<noteq> uncached_cid
                            then fill_cache cid \<lparr>class_ptr = cls, cached_slot = slot\<rparr> caches
                            else caches, shapes', slot)) of
      None \<Rightarrow> ivar_slot_intern nm cls shapes = None
    | Some (caches', shapes', slot) \<Rightarrow>
        ivar_slot_intern nm cls shapes = Some (shapes', slot) \<and> site_caches_ok sn shapes' caches'"
  proof (cases "ivar_slot_intern nm cls shapes")
    case (Some r)
    then obtain shapes' slot where r: "ivar_slot_intern nm cls shapes = Some (shapes', slot)"
      by (cases r) auto
    have "site_caches_ok sn shapes' caches" by (rule site_caches_ok_mono [OF ok r])
    moreover have "shape_name_at (shapes' cls) slot = Some nm"
      using ivar_slot_intern_name [OF r] wf by simp
    ultimately show ?thesis using r nm by (simp add: fill_cache_ok)
  qed simp
  define e where "e = caches ! cid"
  show ?thesis
  proof (cases "cid \<noteq> uncached_cid \<and> cid < length caches \<and> class_ptr e \<noteq> 0")
    case hit: True
    then have at: "shape_name_at (shapes (class_ptr e)) (cached_slot e) = Some nm"
      using ok nm by (auto simp: site_caches_ok_def e_def)
    have known: "shape_name_at (shapes cls) (cached_slot e) = Some nm \<Longrightarrow>
        ivar_slot_intern nm cls shapes = Some (shapes, cached_slot e)"
      using wf by (simp add: ivar_slot_intern_known)
    consider (tier1) "class_ptr e = cls"
      | (tier2) "class_ptr e \<noteq> cls" "shape_name_at (shapes cls) (cached_slot e) = Some nm"
      | (cold) "class_ptr e \<noteq> cls" "shape_name_at (shapes cls) (cached_slot e) \<noteq> Some nm" by blast
    then show ?thesis
    proof cases
      case tier1
      then show ?thesis using hit at known ok
        by (simp add: ivar_slot_cached_def e_def [symmetric])
    next
      case tier2
      have "site_caches_ok sn shapes (caches[cid := e\<lparr>class_ptr := cls\<rparr>])"
        using ok tier2 hit nm by (auto simp: site_caches_ok_def nth_list_update)
      then show ?thesis using hit known tier2
        by (simp add: ivar_slot_cached_def e_def [symmetric])
    next
      case cold
      then show ?thesis using hit miss
        by (simp add: ivar_slot_cached_def e_def [symmetric] split del: if_split)
    qed
  next
    case False
    then show ?thesis using miss
      unfolding ivar_slot_cached_def Let_def e_def [symmetric] by (simp only: if_False)
  qed
qed

section \<open>Properties\<close>

text \<open>C28. The flat slot table of an object is a correct implementation of an association list in
  assignment order: an assignment updates the name in place or appends it and returns the previous
  value, a removal deletes the name and returns its value, a read looks the name up; and the
  stated invariants (bit set mirrors order, holes are nil, names known to the class) survive.\<close>

theorem ivar_table_refines:
  assumes "ivar_wf sh t"
  shows "ivar_get sh t k = map_of (ivar_iter sh t) k \<and>
    (ivar_insert k v sh t = Some (sh', t', old) \<longrightarrow>
      ivar_wf sh' t' \<and> ivar_iter sh' t' = AList.update k v (ivar_iter sh t) \<and> old = ivar_get sh t k) \<and>
    (ivar_remove k sh t = (t2, old2) \<longrightarrow>
      ivar_wf sh t2 \<and> ivar_iter sh t2 = AList.delete k (ivar_iter sh t) \<and> old2 = ivar_get sh t k)"
  using ivar_get_refines [OF assms] ivar_insert_refines [OF assms] ivar_remove_refines [OF assms]
  by auto

theorem ivar_table_refines_witness:
  "\<exists>sh t. ivar_insert 7 (VInt 1) shape_empty ivar_table_default = Some (sh, t, None) \<and>
     ivar_wf sh t \<and> ivar_iter sh t = [(7, VInt 1)]"
proof -
  let ?sh = "\<lparr>shape_names = [7], shape_map = [7 \<mapsto> 0]\<rparr>"
  let ?t = "\<lparr>slots = [VInt 1], order = [0], bits = slot_bit 0\<rparr>"
  have i: "ivar_insert 7 (VInt 1) shape_empty ivar_table_default = Some (?sh, ?t, None)"
    by (simp add: ivar_insert_def shape_intern_def shape_lookup_def shape_empty_def
        shape_linear_max_def write_slot_def ivar_table_default_def defined_def)
  have "ivar_wf ?sh ?t \<and> ivar_iter ?sh ?t = AList.update 7 (VInt 1) (ivar_iter shape_empty ivar_table_default)"
    using ivar_table_refines [OF ivar_default_wf [OF shape_empty_wf], of 7 "VInt 1" ?sh ?t None] i
    by blast
  then show ?thesis using i by (auto simp: ivar_iter_def ivar_table_default_def)
qed

text \<open>C29. The inline cache of an instance-variable site is transparent: with a cache vector that is
  right for its sites, the cached resolution returns the same slot and the same shapes as interning
  the name in the receiver's class, on the monomorphic hit, the polymorphic re-verification and the
  miss alike, and leaves a right cache vector; and no interning in any class ever makes it wrong,
  which is why it needs no invalidation.\<close>

theorem ivar_site_cache_transparent:
  assumes "\<forall>c. shape_wf (shapes c)" and "site_caches_ok sn shapes caches"
    and "cid \<noteq> uncached_cid \<longrightarrow> sn cid = nm"
  shows "map_option snd (ivar_slot_cached caches shapes cls nm cid) = ivar_slot_intern nm cls shapes \<and>
    (ivar_slot_cached caches shapes cls nm cid = Some (caches', shapes', slot) \<longrightarrow>
      site_caches_ok sn shapes' caches' \<and> (\<forall>c. shape_wf (shapes' c))) \<and>
    (ivar_slot_intern nm' cls' shapes = Some (shapes2, slot2) \<longrightarrow> site_caches_ok sn shapes2 caches)"
  using ivar_slot_cached_cases [OF assms(1,2), of cid nm cls] assms
    ivar_slot_intern_wf [of nm cls shapes shapes' slot] site_caches_ok_mono [OF assms(2), of nm' cls']
  by (auto split: option.splits)

theorem ivar_site_cache_transparent_witness:
  "map_option snd (ivar_slot_cached [\<lparr>class_ptr = 3, cached_slot = 0\<rparr>]
      ((\<lambda>_. shape_empty)(3 := \<lparr>shape_names = [9], shape_map = [9 \<mapsto> 0]\<rparr>)) 3 9 0) =
   ivar_slot_intern 9 3 ((\<lambda>_. shape_empty)(3 := \<lparr>shape_names = [9], shape_map = [9 \<mapsto> 0]\<rparr>))"
  by (rule ivar_site_cache_transparent [where sn = "\<lambda>_. 9", THEN conjunct1])
    (auto simp: shape_wf_def shape_empty_def site_caches_ok_def shape_name_at_def)

end
