(* ===== verification/Sort_Engine.thy ===== *)
theory Sort_Engine
  imports Prelude "HOL-Library.Multiset"
begin

text \<open>
  The sort engine (\<open>vm/sort.rs\<close>): a bottom-up merge sort whose comparator may run Ruby code, so
  it is fallible and stateful. \<open>'s\<close> is the state the comparator threads, \<open>'e\<close> its error; the
  buffers \<open>src\<close> and \<open>dst\<close> are lists, and the slices the indices \<open>start\<close>, \<open>mid\<close>, \<open>end\<close> delimit
  are sublists.
\<close>

section \<open>The algorithm\<close>

type_synonym ('a, 'e, 's) comparator_fn = "'a \<Rightarrow> 'a \<Rightarrow> 's \<Rightarrow> ('e + ordering) \<times> 's"

text \<open>The pre-pass: the scan stops at the first descent.\<close>

fun presorted :: "('a, 'e, 's) comparator_fn \<Rightarrow> 'a list \<Rightarrow> 's \<Rightarrow> ('e + bool) \<times> 's" where
  "presorted c (x # y # zs) s =
     (case c x y s of
        (Inl e, s') \<Rightarrow> (Inl e, s')
      | (Inr ord, s') \<Rightarrow> if ord = Greater then (Inr False, s') else presorted c (y # zs) s')"
| "presorted c _ s = (Inr True, s)"

text \<open>One merge of two adjacent runs: the left element unless it is strictly greater.\<close>

function merge_runs :: "('a, 'e, 's) comparator_fn \<Rightarrow> 'a list \<Rightarrow> 'a list \<Rightarrow> 's \<Rightarrow> ('e + 'a list) \<times> 's" where
  "merge_runs c (x # xs) (y # ys) s =
     (case c x y s of
        (Inl e, s') \<Rightarrow> (Inl e, s')
      | (Inr ord, s') \<Rightarrow>
          if ord = Greater
          then (case merge_runs c (x # xs) ys s' of (r, s'') \<Rightarrow> (map_sum id (Cons y) r, s''))
          else (case merge_runs c xs (y # ys) s' of (r, s'') \<Rightarrow> (map_sum id (Cons x) r, s'')))"
| "merge_runs c [] ys s = (Inr ys, s)"
| "merge_runs c (x # xs) [] s = (Inr (x # xs), s)"
  by pat_completeness auto
termination
  by (relation "measure (\<lambda>(c, xs, ys, s). length xs + length ys)") auto

text \<open>One pass over the buffer: every pair of runs of the current width.\<close>

function merge_pass :: "('a, 'e, 's) comparator_fn \<Rightarrow> nat \<Rightarrow> 'a list \<Rightarrow> 's \<Rightarrow> ('e + 'a list) \<times> 's" where
  "merge_pass c width src s =
     (if src = [] \<or> width = 0 then (Inr [], s)
      else case merge_runs c (take width src) (take width (drop width src)) s of
        (Inl e, s') \<Rightarrow> (Inl e, s')
      | (Inr run, s') \<Rightarrow>
          (case merge_pass c width (drop (2 * width) src) s' of
             (r, s'') \<Rightarrow> (map_sum id ((@) run) r, s'')))"
  by pat_completeness auto
termination
  by (relation "measure (\<lambda>(c, width, src, s). length src)") auto

declare merge_pass.simps [simp del]

lemma map_sum_Inr: "map_sum f g r = Inr z \<longleftrightarrow> (\<exists>q. r = Inr q \<and> z = g q)"
  by (cases r) auto

lemma map_sum_Inl: "map_sum f g r = Inl z \<longleftrightarrow> (\<exists>q. r = Inl q \<and> z = f q)"
  by (cases r) auto

lemmas map_sum_cases = map_sum_Inr map_sum_Inl

text \<open>Under any comparator a merge and a pass only rearrange: no element is lost or invented.\<close>

lemma merge_runs_mset:
  "merge_runs c xs ys s = (Inr r, s') \<Longrightarrow> mset r = mset xs + mset ys"
proof (induction c xs ys s arbitrary: r s' rule: merge_runs.induct)
  case (1 c x xs y ys s)
  then show ?case
    by (auto split: sum.splits prod.splits if_splits simp: map_sum_cases)
qed auto

lemma merge_pass_step:
  "src \<noteq> [] \<Longrightarrow> 0 < width \<Longrightarrow> merge_pass c width src s =
     (case merge_runs c (take width src) (take width (drop width src)) s of
        (Inl e, s') \<Rightarrow> (Inl e, s')
      | (Inr run, s') \<Rightarrow>
          (case merge_pass c width (drop (2 * width) src) s' of
             (r, s'') \<Rightarrow> (map_sum id ((@) run) r, s'')))"
  by (subst merge_pass.simps) simp

lemma merge_pass_Nil [simp]: "merge_pass c width [] s = (Inr [], s)"
  by (simp add: merge_pass.simps)

lemma take_take_drop: "mset xs = mset (take w xs) + mset (take w (drop w xs)) + mset (drop (2 * w) xs)"
proof -
  have "xs = take w xs @ take w (drop w xs) @ drop w (drop w xs)"
    by (metis append_take_drop_id)
  then have "mset xs = mset (take w xs @ take w (drop w xs) @ drop w (drop w xs))" by simp
  then show ?thesis by (simp add: mult_2 add.commute)
qed

lemma merge_pass_mset:
  "0 < width \<Longrightarrow> merge_pass c width src s = (Inr dst, s') \<Longrightarrow> mset dst = mset src"
proof (induction c width src s arbitrary: dst s' rule: merge_pass.induct)
  case (1 c width src s)
  show ?case
  proof (cases "src = []")
    case False
    with 1(2,3) obtain run s1 rest where run: "merge_runs c (take width src) (take width (drop width src)) s = (Inr run, s1)"
      and rest: "merge_pass c width (drop (2 * width) src) s1 = (Inr rest, s')" and d: "dst = run @ rest"
      by (auto simp: merge_pass_step map_sum_cases split: prod.splits sum.splits)
    from 1(1) [OF _ run [symmetric] refl 1(2) rest] False 1(2)
    have "mset rest = mset (drop (2 * width) src)" by simp
    then show ?thesis using merge_runs_mset [OF run] d take_take_drop [of src width] by simp
  qed (use 1 in simp)
qed

text \<open>The outer loop: passes of doubling width.\<close>

function merge_loop :: "('a, 'e, 's) comparator_fn \<Rightarrow> nat \<Rightarrow> 'a list \<Rightarrow> 's \<Rightarrow> ('e + 'a list) \<times> 's" where
  "merge_loop c width src s =
     (if length src \<le> width \<or> width = 0 then (Inr src, s)
      else case merge_pass c width src s of
        (Inl e, s') \<Rightarrow> (Inl e, s')
      | (Inr dst, s') \<Rightarrow> merge_loop c (width * 2) dst s')"
  by pat_completeness auto
termination
proof (relation "measure (\<lambda>(c, width, src, s). length src - width)", goal_cases)
  case (2 c width src s r s' dst)
  then have "merge_pass c width src s = (Inr dst, s')" by simp
  with 2 have "mset dst = mset src" by (intro merge_pass_mset [of width c src s _ s']) auto
  then have "length dst = length src" by (metis size_mset)
  with 2 show ?case by auto
qed simp

declare merge_loop.simps [simp del]

text \<open>The result is the vector as the caller sees it afterwards, and the outcome.\<close>

definition merge_sort_by ::
  "('a, 'e, 's) comparator_fn \<Rightarrow> 'a list \<Rightarrow> 's \<Rightarrow> 'a list \<times> ('e + unit) \<times> 's" where
  "merge_sort_by c items s =
     (if length items < 2 then (items, Inr (), s)
      else case presorted c items s of
        (Inl e, s') \<Rightarrow> (items, Inl e, s')
      | (Inr True, s') \<Rightarrow> (items, Inr (), s')
      | (Inr False, s') \<Rightarrow>
          (case merge_loop c 1 items s' of
             (Inl e, s'') \<Rightarrow> (items, Inl e, s'')
           | (Inr sorted_items, s'') \<Rightarrow> (sorted_items, Inr (), s'')))"

section \<open>Any comparator\<close>

lemma merge_loop_mset:
  "0 < width \<Longrightarrow> merge_loop c width src s = (Inr r, s') \<Longrightarrow> mset r = mset src"
proof (induction c width src s arbitrary: r s' rule: merge_loop.induct)
  case (1 c width src s)
  show ?case
  proof (cases "length src \<le> width")
    case True
    with 1(3) show ?thesis by (simp add: merge_loop.simps [of c width src])
  next
    case False
    with 1(2,3) obtain dst s1 where d: "merge_pass c width src s = (Inr dst, s1)"
      and l: "merge_loop c (width * 2) dst s1 = (Inr r, s')"
      by (auto simp: merge_loop.simps [of c width src] split: prod.splits sum.splits)
    from 1(1) [OF _ d [symmetric] refl _ l] False 1(2) have "mset r = mset dst" by simp
    with merge_pass_mset [OF 1(2) d] show ?thesis by simp
  qed
qed

lemma merge_sort_by_any:
  "case merge_sort_by c items s of
     (out, Inl e, s') \<Rightarrow> out = items
   | (out, Inr _, s') \<Rightarrow> mset out = mset items"
proof -
  obtain p s1 where p: "presorted c items s = (p, s1)" by force
  obtain r s2 where r: "merge_loop c 1 items s1 = (r, s2)" by force
  have "case r of Inl _ \<Rightarrow> True | Inr q \<Rightarrow> mset q = mset items"
    using merge_loop_mset [of 1 c items s1 _ s2] r by (cases r) auto
  then show ?thesis
    unfolding merge_sort_by_def p r
    by (cases "length items < 2"; cases p; cases r) (simp_all add: r [simplified] split: bool.split)
qed

section \<open>A consistent comparator: the result is the stable sort\<close>

text \<open>
  The contract of \<open><=>\<close> on the elements of a vector: a total preorder whose answers do not depend
  on the state. \<open>le\<close> is "not strictly greater".
\<close>

definition pure_cmp :: "('a \<Rightarrow> 'a \<Rightarrow> ordering) \<Rightarrow> ('a, unit, nat) comparator_fn" where
  "pure_cmp c x y n = (Inr (c x y), Suc n)"

lemma pure_cmp_apply: "pure_cmp c x y n = (Inr (c x y), Suc n)"
  by (fact pure_cmp_def)

fun pmerge :: "('a \<Rightarrow> 'a \<Rightarrow> ordering) \<Rightarrow> 'a list \<Rightarrow> 'a list \<Rightarrow> 'a list" where
  "pmerge c (x # xs) (y # ys) =
     (if c x y = Greater then y # pmerge c (x # xs) ys else x # pmerge c xs (y # ys))"
| "pmerge c [] ys = ys"
| "pmerge c xs [] = xs"

lemma merge_runs_pure:
  "\<exists>m. merge_runs (pure_cmp c) xs ys n = (Inr (pmerge c xs ys), m) \<and> m \<le> n + length xs + length ys"
proof (induction c xs ys arbitrary: n rule: pmerge.induct)
  case (1 c x xs y ys)
  then show ?case
    using 1(1) [of "Suc n"] 1(2) [of "Suc n"]
    by (cases "c x y = Greater") (auto simp: pure_cmp_def)
qed auto

locale sort_order =
  fixes c :: "'a \<Rightarrow> 'a \<Rightarrow> ordering"
  assumes equal_sym: "c x y = Equal \<longleftrightarrow> c y x = Equal"
    and less_greater: "c x y = Less \<longleftrightarrow> c y x = Greater"
    and le_trans: "c x y \<noteq> Greater \<Longrightarrow> c y z \<noteq> Greater \<Longrightarrow> c x z \<noteq> Greater"
begin

abbreviation le :: "'a \<Rightarrow> 'a \<Rightarrow> bool" where
  "le x y \<equiv> c x y \<noteq> Greater"

abbreviation ordered :: "'a list \<Rightarrow> bool" where
  "ordered xs \<equiv> sorted_wrt le xs"

lemma cmp_refl: "c x x = Equal"
  using less_greater [of x x] by (cases "c x x") auto

lemma greater_le: "c x y = Greater \<Longrightarrow> le y x"
  using less_greater [of y x] by simp

lemma set_pmerge: "set (pmerge c xs ys) = set xs \<union> set ys"
  by (induction c xs ys rule: pmerge.induct) auto

lemma ordered_pmerge_aux: "d = c \<Longrightarrow> ordered xs \<Longrightarrow> ordered ys \<Longrightarrow> ordered (pmerge d xs ys)"
proof (induction d xs ys rule: pmerge.induct)
  case (1 d x xs y ys)
  show ?case
  proof (cases "c x y = Greater")
    case True
    have yx: "le y x" by (rule greater_le [OF True])
    have "le y z" if "z \<in> set xs" for z
    proof -
      have "le x z" using that 1(4) by simp
      then show ?thesis by (rule le_trans [OF yx])
    qed
    then show ?thesis using True yx 1(1) [OF _ 1(3,4)] 1(3,5) by (simp add: set_pmerge ball_Un)
  next
    case False
    have "le x z" if "z \<in> set ys" for z
    proof -
      have "le y z" using that 1(5) by simp
      then show ?thesis by (rule le_trans [OF False])
    qed
    then show ?thesis using False 1(2) [OF _ 1(3) _ 1(5)] 1(3,4) by (simp add: set_pmerge ball_Un)
  qed
qed auto

lemmas ordered_pmerge = ordered_pmerge_aux [OF refl]

text \<open>Stability: the elements equal to any given one keep their order.\<close>

abbreviation same :: "'a \<Rightarrow> 'a list \<Rightarrow> 'a list" where
  "same k xs \<equiv> filter (\<lambda>x. c k x = Equal) xs"

lemma equal_le: "c x y = Equal \<Longrightarrow> le x y \<and> le y x"
  using equal_sym [of x y] by auto

lemma stable_pmerge_aux:
  "d = c \<Longrightarrow> ordered xs \<Longrightarrow> ordered ys \<Longrightarrow> same k (pmerge d xs ys) = same k xs @ same k ys"
proof (induction d xs ys rule: pmerge.induct)
  case (1 d x xs y ys)
  show ?case
  proof (cases "c x y = Greater")
    case True
    have none: "same k (x # xs) = []" if eq: "c k y = Equal"
    proof -
      have "c k z \<noteq> Equal" if z: "z \<in> set (x # xs)" for z
      proof
        assume "c k z = Equal"
        then have "le z y" using eq equal_le le_trans by blast
        moreover have "le x z" using z 1(4) cmp_refl by auto
        ultimately show False using True le_trans by blast
      qed
      then show ?thesis by (simp add: filter_empty_conv)
    qed
    show ?thesis
    proof (cases "c k y = Equal")
      case eq: True
      with True 1 none [OF eq] show ?thesis by simp
    next
      case False
      with True 1 show ?thesis by simp
    qed
  next
    case False
    with 1 show ?thesis by simp
  qed
qed auto

lemmas stable_pmerge = stable_pmerge_aux [OF refl]

abbreviation runs :: "nat \<Rightarrow> 'a list \<Rightarrow> bool" where
  "runs w xs \<equiv> (\<forall>ch \<in> set (chunks w xs). ordered ch)"

lemma runs_take: "0 < w \<Longrightarrow> runs w xs \<Longrightarrow> ordered (take w xs)"
  by (cases "xs = []") (simp_all add: chunks_step)

lemma runs_drop: "0 < w \<Longrightarrow> runs w xs \<Longrightarrow> runs w (drop w xs)"
  by (cases "xs = []") (simp_all add: chunks_step)

lemma runs_whole: "length xs \<le> w \<Longrightarrow> 0 < w \<Longrightarrow> runs w xs \<longleftrightarrow> ordered xs"
  by (cases "xs = []") (simp_all add: chunks_step)

lemma runs_append:
  "length run = w \<or> rest = [] \<and> length run \<le> w \<Longrightarrow> 0 < w \<Longrightarrow> ordered run \<Longrightarrow> runs w rest \<Longrightarrow>
   runs w (run @ rest)"
  by (cases "run = []") (auto simp: chunks_step)

lemma merge_pass_pure:
  "0 < w \<Longrightarrow> runs w src \<Longrightarrow>
   \<exists>dst m. merge_pass (pure_cmp c) w src n = (Inr dst, m) \<and> m \<le> n + length src \<and>
     runs (2 * w) dst \<and> (\<forall>k. same k dst = same k src)"
proof (induction "length src" arbitrary: src n rule: less_induct)
  case less
  show ?case
  proof (cases "src = []")
    case False
    let ?a = "take w src" and ?b = "take w (drop w src)" and ?rest = "drop (2 * w) src"
    have d2: "drop w (drop w src) = ?rest" by (simp add: mult_2)
    note r1 = runs_drop [OF less.prems(1,2)]
    have ord: "ordered ?a" "ordered ?b"
      by (rule runs_take [OF less.prems(1,2)], rule runs_take [OF less.prems(1) r1])
    have rest: "runs w ?rest"
      using runs_drop [OF less.prems(1) r1] unfolding d2 .
    obtain m1 where m1: "merge_runs (pure_cmp c) ?a ?b n = (Inr (pmerge c ?a ?b), m1)"
      "m1 \<le> n + length ?a + length ?b" using merge_runs_pure [of c ?a ?b n] by auto
    obtain dst m where ih: "merge_pass (pure_cmp c) w ?rest m1 = (Inr dst, m)"
      "m \<le> m1 + length ?rest" "runs (2 * w) dst" "\<forall>k. same k dst = same k ?rest"
      using less.hyps [OF _ less.prems(1) rest, of m1] False less.prems(1) by auto
    have split: "src = ?a @ ?b @ ?rest" by (metis append_take_drop_id d2)
    then have len: "length src = length ?a + length ?b + length ?rest" by (metis add.assoc length_append)
    have "mset (pmerge c ?a ?b) = mset ?a + mset ?b" by (rule merge_runs_mset [OF m1(1)])
    then have lrun: "length (pmerge c ?a ?b) = length ?a + length ?b" by (metis size_mset size_union)
    have "mset dst = mset ?rest" by (rule merge_pass_mset [OF less.prems(1) ih(1)])
    then have ldst: "length dst = length ?rest" by (metis size_mset)
    have fit: "length (pmerge c ?a ?b) = 2 * w \<or> dst = [] \<and> length (pmerge c ?a ?b) \<le> 2 * w"
      using lrun ldst by (cases "2 * w \<le> length src") auto
    have "runs (2 * w) (pmerge c ?a ?b @ dst)"
      using runs_append [OF fit _ ordered_pmerge [OF ord] ih(3)] less.prems(1) by simp
    moreover have "same k (pmerge c ?a ?b @ dst) = same k src" for k
      using stable_pmerge [OF ord, of k] ih(4) arg_cong [OF split, of "same k"] by simp
    moreover have "merge_pass (pure_cmp c) w src n = (Inr (pmerge c ?a ?b @ dst), m)"
      using False less.prems(1) m1(1) ih(1) by (simp add: merge_pass_step)
    moreover have "m \<le> n + length src" using m1(2) ih(2) len by linarith
    ultimately show ?thesis by blast
  qed simp
qed

lemma merge_loop_pure:
  "0 < w \<Longrightarrow> runs w src \<Longrightarrow> length src \<le> w * 2 ^ p \<Longrightarrow>
   \<exists>r m. merge_loop (pure_cmp c) w src n = (Inr r, m) \<and> m \<le> n + p * length src \<and>
     ordered r \<and> (\<forall>k. same k r = same k src)"
proof (induction p arbitrary: w src n)
  case 0
  then show ?case using runs_whole [of src w] by (simp add: merge_loop.simps [of _ w src])
next
  case (Suc p)
  show ?case
  proof (cases "length src \<le> w")
    case True
    then show ?thesis using Suc.prems runs_whole [of src w] by (simp add: merge_loop.simps [of _ w src])
  next
    case False
    obtain dst m where d: "merge_pass (pure_cmp c) w src n = (Inr dst, m)" "m \<le> n + length src"
      "runs (2 * w) dst" "\<forall>k. same k dst = same k src"
      using merge_pass_pure [OF Suc.prems(1,2), of n] by blast
    have "mset dst = mset src" by (rule merge_pass_mset [OF Suc.prems(1) d(1)])
    then have l: "length dst = length src" by (metis size_mset)
    obtain r m' where r: "merge_loop (pure_cmp c) (w * 2) dst m = (Inr r, m')"
      "m' \<le> m + p * length dst" "ordered r" "\<forall>k. same k r = same k dst"
      using Suc.IH [of "w * 2" dst m] Suc.prems d(3) l by (auto simp: mult.commute mult.left_commute)
    have "merge_loop (pure_cmp c) w src n = (Inr r, m')"
      using False Suc.prems(1) d(1) r(1) by (simp add: merge_loop.simps [of _ w src])
    then show ?thesis using r d l by simp
  qed
qed

lemma presorted_pure:
  "\<exists>b m. presorted (pure_cmp c) xs n = (Inr b, m) \<and> m \<le> n + (length xs - 1) \<and> (b \<longleftrightarrow> ordered xs)
     \<and> (b \<longrightarrow> m = n + (length xs - 1))"
proof (induction xs arbitrary: n rule: induct_list012)
  case (3 x y zs)
  show ?case
  proof (cases "c x y = Greater")
    case True
    then show ?thesis by (intro exI [of _ False]) (simp add: pure_cmp_def)
  next
    case False
    have step: "presorted (pure_cmp c) (x # y # zs) n = presorted (pure_cmp c) (y # zs) (Suc n)"
      using False by (simp only: presorted.simps pure_cmp_apply [of c x y n] prod.case sum.case if_False)
    obtain b m where b: "presorted (pure_cmp c) (y # zs) (Suc n) = (Inr b, m)"
      "m \<le> Suc n + (length (y # zs) - 1)" "b \<longleftrightarrow> ordered (y # zs)"
      "b \<longrightarrow> m = Suc n + (length (y # zs) - 1)"
      using 3(2) [of "Suc n"] by blast
    have "ordered (y # zs) \<longleftrightarrow> ordered (x # y # zs)"
      using False le_trans [OF False] by auto
    then show ?thesis unfolding step using b by (intro exI [of _ b] exI [of _ m]) simp
  qed
qed (auto intro: exI [of _ True])

lemma merge_sort_pure:
  assumes p: "length items \<le> 2 ^ p"
  shows "\<exists>out m. merge_sort_by (pure_cmp c) items 0 = (out, Inr (), m) \<and>
    ordered out \<and> mset out = mset items \<and> (\<forall>k. same k out = same k items) \<and>
    m \<le> length items + p * length items \<and>
    (ordered items \<longrightarrow> out = items \<and> m = length items - 1)"
proof (cases "length items < 2")
  case True
  then have "length items = 0 \<or> length items = 1" by linarith
  then have "ordered items" by (cases items) auto
  with True show ?thesis by (auto simp: merge_sort_by_def)
next
  case False
  obtain b m where b: "presorted (pure_cmp c) items 0 = (Inr b, m)" "m \<le> length items - 1"
      "b \<longleftrightarrow> ordered items" "b \<longrightarrow> m = length items - 1"
    using presorted_pure [of items 0] by auto
  show ?thesis
  proof (cases b)
    case True
    then show ?thesis using False b by (auto simp: merge_sort_by_def)
  next
    case nb: False
    have "ordered ch" if "ch \<in> set (chunks 1 items)" for ch
      using chunks_length [OF that] by (cases ch) auto
    then obtain r m' where r: "merge_loop (pure_cmp c) 1 items m = (Inr r, m')"
        "m' \<le> m + p * length items" "ordered r" "\<forall>k. same k r = same k items"
      using merge_loop_pure [of 1 items p m] p by auto
    have "mset r = mset items" using merge_loop_mset [OF _ r(1)] by simp
    moreover have "merge_sort_by (pure_cmp c) items 0 = (r, Inr (), m')"
      using False nb b(1) r(1) by (simp add: merge_sort_by_def)
    ultimately show ?thesis using r b nb by auto
  qed
qed

end

text \<open>The contract holds for the comparison of integers that \<open>sort\<close> without a block uses.\<close>

interpretation int_order: sort_order "cmp :: 'a::linorder \<Rightarrow> 'a \<Rightarrow> ordering"
  by unfold_locales (auto simp: cmp_def split: if_splits)

text \<open>A comparator that sorts by a key is also one: this is \<open>sort_by\<close>.\<close>

definition key_cmp :: "('a \<Rightarrow> 'b::linorder) \<Rightarrow> 'a \<Rightarrow> 'a \<Rightarrow> ordering" where
  "key_cmp f x y = cmp (f x) (f y)"

interpretation key_order: sort_order "key_cmp f"
  by unfold_locales (auto simp: key_cmp_def cmp_def split: if_splits)

section \<open>Properties\<close>

text \<open>C30. Whatever the comparator answers, consistent or not, and whenever it stops with an error: a
  sort that fails leaves the receiver untouched, and a sort that returns gives a permutation of
  it. No element is lost, duplicated or invented.\<close>

theorem sort_permutation_or_untouched:
  "case merge_sort_by c items s of
     (out, Inl e, s') \<Rightarrow> out = items
   | (out, Inr _, s') \<Rightarrow> mset out = mset items"
  by (rule merge_sort_by_any)

text \<open>C31. With a comparator that orders the elements by a key, the sort returns them in key order,
  keeps elements with equal keys in their original order, and makes at most n + n * p
  comparisons for n at most 2 to the p; an already sorted vector costs n - 1 comparisons.\<close>

theorem sort_by_key_stable:
  assumes "length items \<le> 2 ^ p"
  shows "\<exists>out m. merge_sort_by (pure_cmp (key_cmp f)) items 0 = (out, Inr (), m) \<and>
    sorted (map f out) \<and> mset out = mset items \<and>
    (\<forall>k. filter (\<lambda>x. f x = k) out = filter (\<lambda>x. f x = k) items) \<and>
    m \<le> length items + p * length items \<and>
    (sorted (map f items) \<longrightarrow> out = items \<and> m = length items - 1)"
proof -
  have ord: "sorted_wrt (\<lambda>x y. key_cmp f x y \<noteq> Greater) xs \<longleftrightarrow> sorted (map f xs)" for xs
  proof -
    have "(\<lambda>x y. key_cmp f x y \<noteq> Greater) = (\<lambda>x y. f x \<le> f y)"
      by (auto simp: fun_eq_iff key_cmp_def cmp_def)
    then show ?thesis by (simp only: sorted_map)
  qed
  obtain out m where o: "merge_sort_by (pure_cmp (key_cmp f)) items 0 = (out, Inr (), m)"
      "sorted (map f out)" "mset out = mset items"
      "\<forall>k. filter (\<lambda>x. key_cmp f k x = Equal) out = filter (\<lambda>x. key_cmp f k x = Equal) items"
      "m \<le> length items + p * length items"
      "sorted (map f items) \<longrightarrow> out = items \<and> m = length items - 1"
    using key_order.merge_sort_pure [OF assms, of f] unfolding ord by blast
  have eq: "key_cmp f x y = Equal \<longleftrightarrow> f y = f x" for x y by (auto simp: key_cmp_def cmp_def)
  have "filter (\<lambda>x. f x = k) out = filter (\<lambda>x. f x = k) items" for k
  proof (cases "\<exists>x \<in> set items. f x = k")
    case True
    then obtain x where "f x = k" by blast
    with o(4) eq show ?thesis by auto
  next
    case False
    moreover have "set out = set items" using o(3) by (rule mset_eq_setD)
    ultimately show ?thesis by (simp add: filter_empty_conv)
  qed
  with o show ?thesis by blast
qed

theorem sort_by_key_stable_witness:
  "\<exists>out m. merge_sort_by (pure_cmp (key_cmp fst)) [(3 :: int, ''a''), (1, ''b''), (3, ''c''), (2, ''d'')] 0
     = (out, Inr (), m) \<and> sorted (map fst out) \<and> m \<le> 12"
proof -
  have "length [(3 :: int, ''a''), (1, ''b''), (3, ''c''), (2, ''d'')] \<le> 2 ^ 2" by simp
  from sort_by_key_stable [OF this, of fst] show ?thesis by (elim exE conjE) (intro exI conjI, assumption+, simp)
qed

end
