(* ===== verification/Str2int.thy ===== *)
theory Str2int
  imports Prelude
begin

text \<open>
  The string-to-integer scanner behind \<open>String#to_i\<close>, \<open>Integer()\<close> and \<open>sprintf\<close>
  (\<open>vm/str2int.rs\<close>, with the \<open>bignum\<close> feature): a checked \<open>u64\<close> accumulator that spills into a
  chunked big integer, base resolution, and the strict and lenient digit scans. A position in the
  byte slice is the suffix from that position on; the byte before it is passed along.
\<close>

section \<open>Bytes\<close>

definition digit_val :: "u8 \<Rightarrow> nat" where
  "digit_val b =
     (if 48 \<le> b \<and> b \<le> 57 then unat (b - 48)
      else if 97 \<le> b \<and> b \<le> 122 then unat (b - 97) + 10
      else if 65 \<le> b \<and> b \<le> 90 then unat (b - 65) + 10
      else 99)"

definition is_ruby_space :: "u8 \<Rightarrow> bool" where
  "is_ruby_space b \<longleftrightarrow> b \<in> {32, 9, 10, 11, 12, 13}"

definition underscore :: u8 where
  "underscore = 95"

section \<open>The accumulator\<close>

datatype parsed_int = Small i64 | Big int

datatype acc = AccSmall u64 | AccBig nat u64 u64

definition acc_new :: acc where
  "acc_new = AccSmall 0"

fun acc_push :: "u64 \<Rightarrow> u64 \<Rightarrow> acc \<Rightarrow> acc" where
  "acc_push radix d (AccSmall m) =
     (case Option.bind (checked_mul_u64 m radix) (\<lambda>x. checked_add_u64 x d) of
        Some nm \<Rightarrow> AccSmall nm
      | None \<Rightarrow> AccBig (unat m) d radix)"
| "acc_push radix d (AccBig mag chunk scale) =
     (case checked_mul_u64 scale radix of
        Some ns \<Rightarrow> AccBig mag (chunk * radix + d) ns
      | None \<Rightarrow> AccBig (mag * unat scale + unat chunk) d radix)"

definition small_to_parsed :: "u64 \<Rightarrow> bool \<Rightarrow> parsed_int" where
  "small_to_parsed m neg =
     (let i64_max_u = 2 ^ 63 - 1 in
      if neg then
        (if m \<le> i64_max_u then Small (- m)
         else if m = i64_max_u + 1 then Small (word_of_int i64_min)
         else Big (- uint m))
      else if m \<le> i64_max_u then Small m
      else Big (uint m))"

fun acc_finish :: "bool \<Rightarrow> acc \<Rightarrow> parsed_int" where
  "acc_finish neg (AccSmall m) = small_to_parsed m neg"
| "acc_finish neg (AccBig mag chunk scale) =
     (let b = int (mag * unat scale + unat chunk) in Big (if neg then - b else b))"

text \<open>The number an accumulator stands for, and its invariant.\<close>

fun acc_value :: "acc \<Rightarrow> nat" where
  "acc_value (AccSmall m) = unat m"
| "acc_value (AccBig mag chunk scale) = mag * unat scale + unat chunk"

fun acc_ok :: "acc \<Rightarrow> bool" where
  "acc_ok (AccSmall m) = True"
| "acc_ok (AccBig mag chunk scale) \<longleftrightarrow> chunk < scale \<and> 2 ^ 64 \<le> mag * unat scale + unat chunk"

fun parsed_value :: "parsed_int \<Rightarrow> int" where
  "parsed_value (Small a) = sint a"
| "parsed_value (Big n) = n"

text \<open>The canonical result: small exactly when the number fits an \<open>i64\<close>.\<close>

definition canonical :: "int \<Rightarrow> parsed_int" where
  "canonical n = (if fits_i64 n then Small (word_of_int n) else Big n)"

lemma checked_mul_None: "checked_mul_u64 a b = None \<Longrightarrow> 2 ^ 64 \<le> unat a * unat b"
  by (simp add: checked_mul_u64_def split: if_splits)

lemma checked_add_None: "checked_add_u64 a b = None \<Longrightarrow> 2 ^ 64 \<le> unat a + unat b"
  by (simp add: checked_add_u64_def split: if_splits)

lemma chunk_fold:
  assumes "chunk < scale" and "d < radix" and "unat scale * unat radix < 2 ^ 64"
  shows "unat (chunk * radix + d :: u64) = unat chunk * unat radix + unat d"
    and "unat chunk * unat radix + unat d < unat scale * unat radix"
proof -
  have "unat chunk + 1 \<le> unat scale" using assms(1) by (simp add: word_less_nat_alt)
  then have "(unat chunk + 1) * unat radix \<le> unat scale * unat radix" by (rule mult_le_mono1)
  then show lt: "unat chunk * unat radix + unat d < unat scale * unat radix"
    using assms(2) by (simp add: word_less_nat_alt)
  then show "unat (chunk * radix + d) = unat chunk * unat radix + unat d"
    using assms(3) by (simp add: unat_word_ariths)
qed

lemma acc_push_ok:
  assumes ok: "acc_ok a" and d: "d < radix"
  shows "acc_ok (acc_push radix d a) \<and> acc_value (acc_push radix d a) = acc_value a * unat radix + unat d"
proof (cases a)
  case (AccSmall m)
  show ?thesis
  proof (cases "checked_mul_u64 m radix")
    case None
    with checked_mul_None [OF None] d AccSmall show ?thesis by simp
  next
    case (Some x)
    show ?thesis
    proof (cases "checked_add_u64 x d")
      case None
      with checked_add_None [OF None] checked_mul_u64_Some [OF Some] Some d AccSmall show ?thesis by simp
    next
      case (Some y)
      with checked_add_u64_Some [OF Some] checked_mul_u64_Some [OF \<open>checked_mul_u64 m radix = Some x\<close>]
        \<open>checked_mul_u64 m radix = Some x\<close> AccSmall show ?thesis by simp
    qed
  qed
next
  case (AccBig mag chunk scale)
  have big: "2 ^ 64 \<le> (mag * unat scale + unat chunk) * unat radix + unat d"
  proof -
    define k where "k = mag * unat scale + unat chunk"
    have "1 \<le> unat radix" using d by (simp add: word_less_nat_alt)
    then have "k * 1 \<le> k * unat radix" by (rule mult_le_mono2)
    moreover have "2 ^ 64 \<le> k" using ok AccBig by (simp add: k_def)
    ultimately show ?thesis unfolding k_def [symmetric] by linarith
  qed
  show ?thesis
  proof (cases "checked_mul_u64 scale radix")
    case None
    with AccBig big d show ?thesis by simp
  next
    case (Some ns)
    have lt: "unat scale * unat radix < 2 ^ 64"
      using Some by (simp add: checked_mul_u64_def split: if_splits)
    have ns: "unat ns = unat scale * unat radix" by (rule checked_mul_u64_Some [OF Some])
    have c: "chunk < scale" using ok AccBig by simp
    note f = chunk_fold [OF c d lt]
    have v: "mag * unat ns + unat (chunk * radix + d) = (mag * unat scale + unat chunk) * unat radix + unat d"
      by (simp only: ns f(1) add_mult_distrib mult.assoc add.assoc)
    have "chunk * radix + d < ns" using f ns by (simp add: word_less_nat_alt)
    then show ?thesis using AccBig Some big v by simp
  qed
qed

lemma small_to_parsed_canonical:
  "small_to_parsed m neg = canonical (if neg then - uint m else uint m)"
proof -
  have mx: "uint (2 ^ 63 - 1 :: u64) = 2 ^ 63 - 1" by simp
  have le: "m \<le> 2 ^ 63 - 1 \<longleftrightarrow> uint m \<le> 2 ^ 63 - 1" by (simp only: word_le_def mx)
  have eq: "m = 2 ^ 63 - 1 + 1 \<longleftrightarrow> uint m = 2 ^ 63" by (simp add: word_uint_eq_iff)
  have "0 \<le> uint m" by simp
  then consider "0 \<le> uint m" "uint m \<le> 2 ^ 63 - 1" | "uint m = 2 ^ 63" | "2 ^ 63 < uint m" by linarith
  then show ?thesis
  proof cases
    case 1
    define v where "v = uint m"
    have v: "0 \<le> v" "v < 9223372036854775808" using 1 by (simp_all add: v_def)
    have "fits_i64 (uint m)" "fits_i64 (- uint m)"
      unfolding v_def [symmetric] fits_i64_iff using v by simp_all
    moreover have "m \<le> 2 ^ 63 - 1" unfolding le using 1 by simp
    ultimately show ?thesis by (simp only: small_to_parsed_def Let_def canonical_def if_True if_False)
        (simp add: canonical_def)
  next
    case 2
    then have "\<not> fits_i64 (uint m)" "fits_i64 (- uint m)" "- uint m = i64_min"
      unfolding fits_i64_iff i64_min_def by simp_all
    moreover have "\<not> m \<le> 2 ^ 63 - 1" "m = 2 ^ 63 - 1 + 1" unfolding le eq using 2 by simp_all
    ultimately show ?thesis by (simp only: small_to_parsed_def Let_def canonical_def if_True if_False)
        (simp add: canonical_def)
  next
    case 3
    then have "\<not> fits_i64 (uint m)" "\<not> fits_i64 (- uint m)" unfolding fits_i64_iff by simp_all
    moreover have "\<not> m \<le> 2 ^ 63 - 1" "m \<noteq> 2 ^ 63 - 1 + 1" unfolding le eq using 3 by simp_all
    ultimately show ?thesis by (simp only: small_to_parsed_def Let_def canonical_def if_True if_False)
        (simp add: canonical_def)
  qed
qed

lemma acc_finish_canonical:
  assumes "acc_ok a"
  shows "acc_finish neg a = canonical (if neg then - int (acc_value a) else int (acc_value a))"
proof (cases a)
  case (AccSmall m)
  then show ?thesis by (simp add: small_to_parsed_canonical)
next
  case (AccBig mag chunk scale)
  then have "2 ^ 64 \<le> acc_value a" using assms by simp
  then have "int (2 ^ 64) \<le> int (acc_value a)" by (rule of_nat_mono)
  then have "\<not> fits_i64 (- int (acc_value a))" "\<not> fits_i64 (int (acc_value a))"
    by (simp_all add: fits_i64_iff)
  then show ?thesis using AccBig by (simp add: canonical_def Let_def)
qed

section \<open>The scanner\<close>

text \<open>\<open>Err\<close>: the resolved base is out of range; the message shows it.\<close>

datatype radix_error = InvalidRadix i64

fun scan_digits ::
  "u64 \<Rightarrow> bool \<Rightarrow> u8 option \<Rightarrow> bytes \<Rightarrow> acc \<Rightarrow> bool \<Rightarrow> (acc \<times> bool \<times> bytes) option" where
  "scan_digits radix strict prev [] a saw = Some (a, saw, [])"
| "scan_digits radix strict prev (b # bs) a saw =
     (if b = underscore then
        (let prev_digit = (case prev of None \<Rightarrow> False | Some p \<Rightarrow> digit_val p < unat radix);
             next_digit = (case bs of [] \<Rightarrow> False | c # _ \<Rightarrow> digit_val c < unat radix)
         in if prev_digit \<and> next_digit then scan_digits radix strict (Some b) bs a saw
            else if strict then None
            else Some (a, saw, b # bs))
      else if digit_val b < unat radix
      then scan_digits radix strict (Some b) bs (acc_push radix (of_nat (digit_val b)) a) True
      else Some (a, saw, b # bs))"

definition prefix_radix :: "u8 \<Rightarrow> i64" where
  "prefix_radix b =
     (if b = 120 \<or> b = 88 then 16 else if b = 98 \<or> b = 66 then 2
      else if b = 111 \<or> b = 79 then 8 else if b = 100 \<or> b = 68 then 10 else 0)"

text \<open>Base resolution: the radix and what is left to scan.\<close>

fun resolve_base :: "i64 \<Rightarrow> bytes \<Rightarrow> i64 \<times> bytes" where
  "resolve_base base bs =
     (let auto_base = sint base \<le> 0;
          resolved = (if base = 0 \<or> base = - 1 then 10 else if sint base < 0 then - base else base)
      in case bs of
           z # p # rest \<Rightarrow>
             (if z = 48 then
                (let prefix_r = prefix_radix p in
                 if auto_base then (if prefix_r \<noteq> 0 then (prefix_r, rest) else (8, bs))
                 else if prefix_r \<noteq> 0 \<and> prefix_r = resolved then (resolved, rest)
                 else (resolved, bs))
              else (resolved, bs))
         | _ \<Rightarrow> (resolved, bs))"

declare resolve_base.simps [simp del]

definition take_sign :: "bytes \<Rightarrow> bool \<times> bytes" where
  "take_sign bs = (case bs of b # rest \<Rightarrow> if b = 43 \<or> b = 45 then (b = 45, rest) else (False, bs)
                            | [] \<Rightarrow> (False, []))"

definition bad_int :: "bool \<Rightarrow> parsed_int option" where
  "bad_int strict = (if strict then None else Some (Small 0))"

definition parse_int_radix :: "bytes \<Rightarrow> i64 \<Rightarrow> bool \<Rightarrow> radix_error + parsed_int option" where
  "parse_int_radix bytes base strict =
     (case take_sign (dropWhile is_ruby_space bytes) of (neg, bs) \<Rightarrow>
        if bytes \<noteq> [] \<and> bs = [] then Inr (bad_int strict)
        else (case resolve_base base bs of (resolved, rest) \<Rightarrow>
          if \<not> (2 \<le> sint resolved \<and> sint resolved \<le> 36) then Inl (InvalidRadix resolved)
          else if rest = [] then Inr (bad_int strict)
          else (case scan_digits resolved strict None rest acc_new False of
                  None \<Rightarrow> Inr None
                | Some (a, saw, tail) \<Rightarrow>
                    if \<not> saw then Inr (bad_int strict)
                    else if strict \<and> dropWhile is_ruby_space tail \<noteq> [] then Inr None
                    else Inr (Some (acc_finish neg a)))))"

definition lenient_int :: "bytes \<Rightarrow> i64 \<Rightarrow> radix_error + parsed_int" where
  "lenient_int bytes base =
     (case parse_int_radix bytes base False of
        Inl e \<Rightarrow> Inl e | Inr None \<Rightarrow> Inr (Small 0) | Inr (Some p) \<Rightarrow> Inr p)"

definition strict_int :: "bytes \<Rightarrow> i64 \<Rightarrow> radix_error + parsed_int option" where
  "strict_int bytes base = parse_int_radix bytes base True"

section \<open>The value of a scan\<close>

definition is_digit :: "u64 \<Rightarrow> u8 \<Rightarrow> bool" where
  "is_digit radix b \<longleftrightarrow> digit_val b < unat radix"

text \<open>Horner's rule on the digits of a text, separators dropped.\<close>

definition horner :: "u64 \<Rightarrow> nat \<Rightarrow> bytes \<Rightarrow> nat" where
  "horner radix n bs = foldl (\<lambda>m b. m * unat radix + digit_val b) n (filter (is_digit radix) bs)"

lemma horner_Nil [simp]: "horner radix n [] = n"
  by (simp add: horner_def)

lemma horner_Cons: "horner radix n (b # bs) =
    horner radix (if is_digit radix b then n * unat radix + digit_val b else n) bs"
  by (simp add: horner_def)

lemma digit_val_le: "digit_val b \<le> 99"
proof -
  have u: "unat (a - c) = unat a - unat c" if "c \<le> a" for a c :: u8
    using that by (simp add: unat_sub)
  show ?thesis
    by (auto simp: digit_val_def u word_le_nat_alt)
qed

lemma acc_push_digit:
  assumes "acc_ok a" and "is_digit radix b"
  shows "acc_ok (acc_push radix (of_nat (digit_val b)) a) \<and>
    acc_value (acc_push radix (of_nat (digit_val b)) a) = acc_value a * unat radix + digit_val b"
proof -
  have u: "unat (of_nat (digit_val b) :: u64) = digit_val b"
    using digit_val_le [of b] by (simp add: unat_of_nat)
  then have "(of_nat (digit_val b) :: u64) < radix"
    using assms(2) by (simp add: word_less_nat_alt is_digit_def)
  from acc_push_ok [OF assms(1) this] show ?thesis unfolding u .
qed

lemma underscore_no_digit: "unat radix \<le> 36 \<Longrightarrow> \<not> is_digit radix underscore"
  by (simp add: is_digit_def digit_val_def underscore_def)

lemma scan_digits_value:
  "unat radix \<le> 36 \<Longrightarrow> acc_ok a \<Longrightarrow> scan_digits radix strict prev bs a saw = Some (a', saw', tail) \<Longrightarrow>
   \<exists>body. bs = body @ tail \<and> (\<forall>b \<in> set body. b = underscore \<or> is_digit radix b) \<and>
     acc_ok a' \<and> acc_value a' = horner radix (acc_value a) body \<and>
     (saw' \<longleftrightarrow> saw \<or> (\<exists>b \<in> set body. is_digit radix b)) \<and>
     (tail = [] \<or> \<not> is_digit radix (hd tail))"
proof (induction radix strict prev bs a saw arbitrary: a' saw' tail rule: scan_digits.induct)
  case (2 radix strict prev b bs a saw)
  consider (sep) "b = underscore" | (digit) "b \<noteq> underscore" "is_digit radix b"
    | (stop) "b \<noteq> underscore" "\<not> is_digit radix b" by blast
  then show ?case
  proof cases
    case sep
    show ?thesis
    proof (cases "(case prev of None \<Rightarrow> False | Some p \<Rightarrow> digit_val p < unat radix) \<and>
        (case bs of [] \<Rightarrow> False | c # _ \<Rightarrow> digit_val c < unat radix)")
      case True
      with 2(5) sep have s: "scan_digits radix strict (Some b) bs a saw = Some (a', saw', tail)" by simp
      from 2(1) [OF sep refl refl True 2(3,4) s] obtain body where "bs = body @ tail"
        "\<forall>b \<in> set body. b = underscore \<or> is_digit radix b" "acc_ok a'"
        "acc_value a' = horner radix (acc_value a) body"
        "saw' \<longleftrightarrow> saw \<or> (\<exists>b \<in> set body. is_digit radix b)"
        "tail = [] \<or> \<not> is_digit radix (hd tail)" by blast
      then show ?thesis using sep underscore_no_digit [OF 2(3)]
        by (intro exI [of _ "b # body"]) (simp add: horner_Cons)
    next
      case False
      with 2(5) sep have "a' = a \<and> saw' = saw \<and> tail = b # bs"
        by (auto simp: Let_def split: if_splits)
      then show ?thesis using 2(4) sep underscore_no_digit [OF 2(3)] by (intro exI [of _ "[]"]) simp
    qed
  next
    case digit
    note p = acc_push_digit [OF 2(4) digit(2)]
    from digit 2(5) have s: "scan_digits radix strict (Some b) bs (acc_push radix (of_nat (digit_val b)) a) True
        = Some (a', saw', tail)" by (simp add: is_digit_def)
    from 2(2) [OF digit(1) _ 2(3) conjunct1 [OF p] s] digit(2) obtain body where "bs = body @ tail"
        "\<forall>b \<in> set body. b = underscore \<or> is_digit radix b" "acc_ok a'"
        "acc_value a' = horner radix (acc_value a * unat radix + digit_val b) body" "saw'"
        "tail = [] \<or> \<not> is_digit radix (hd tail)"
      using p by (auto simp: is_digit_def)
    then show ?thesis using digit by (intro exI [of _ "b # body"]) (simp add: horner_Cons)
  next
    case stop
    with 2(5) have "a' = a \<and> saw' = saw \<and> tail = b # bs" by (simp add: is_digit_def)
    then show ?thesis using 2(4) stop by (intro exI [of _ "[]"]) simp
  qed
qed simp

lemma scan_strict_lenient:
  "scan_digits radix True prev bs a saw = Some r \<Longrightarrow> scan_digits radix False prev bs a saw = Some r"
proof (induction radix True prev bs a saw rule: scan_digits.induct)
  case (2 radix prev b bs a saw)
  then show ?case by (simp add: Let_def split: if_splits)
qed simp

lemma uint_of_small_sint: "0 \<le> sint (x :: i64) \<Longrightarrow> uint x = sint x"
proof -
  assume "0 \<le> sint x"
  moreover have "sint x < 2 ^ 63" using sint_fits_i64 [of x] by (simp add: fits_i64_iff)
  ultimately have "uint (word_of_int (sint x) :: i64) = sint x"
    by (simp only: uint_word_of_int) simp
  then show ?thesis by simp
qed

lemma canonical_0: "canonical 0 = Small 0"
  by (simp add: canonical_def fits_i64_iff)

lemma acc_new_ok [simp]: "acc_ok acc_new" "acc_value acc_new = 0"
  by (simp_all add: acc_new_def)

text \<open>What a successful parse has read: \<open>body\<close> is the maximal run of digits and separators.\<close>

definition reads :: "bool \<Rightarrow> u64 \<Rightarrow> bool \<Rightarrow> bytes \<Rightarrow> parsed_int \<Rightarrow> bool" where
  "reads strict radix neg rest p \<longleftrightarrow>
     (\<exists>body tail. rest = body @ tail \<and>
        (\<forall>b \<in> set body. b = underscore \<or> is_digit radix b) \<and>
        (tail = [] \<or> \<not> is_digit radix (hd tail)) \<and>
        (strict \<longrightarrow> (\<exists>b \<in> set body. is_digit radix b) \<and> (\<forall>b \<in> set tail. is_ruby_space b)) \<and>
        p = canonical (if neg then - int (horner radix 0 body) else int (horner radix 0 body)))"

lemma reads_nothing:
  "rest = [] \<or> \<not> is_digit radix (hd rest) \<Longrightarrow> reads False radix neg rest (Small 0)"
  unfolding reads_def by (rule exI [of _ "[]"]) (auto simp: canonical_0)

lemma resolve_base_Nil: "snd (resolve_base base []) = []"
  by (simp add: Let_def resolve_base.simps)

lemma scan_no_digit:
  assumes "unat radix \<le> 36" and "scan_digits radix strict None bs a False = Some (a', False, tail)"
    and "acc_ok a"
  shows "bs = [] \<or> \<not> is_digit radix (hd bs)"
  using scan_digits_value [OF assms(1,3,2)] by (cases bs) (fastforce simp: hd_append)+

lemma parse_int_radix_reads:
  assumes "parse_int_radix bytes base strict = Inr (Some p)"
    and "take_sign (dropWhile is_ruby_space bytes) = (neg, bs)"
    and "resolve_base base bs = (radix, rest)"
  shows "reads strict radix neg rest p"
proof -
  have bad: "reads strict radix neg rest p" if "bad_int strict = Some p"
      "rest = [] \<or> \<not> is_digit radix (hd rest)"
    using that reads_nothing [of rest radix neg] by (auto simp: bad_int_def split: if_splits)
  show ?thesis
  proof (cases "(bytes \<noteq> [] \<and> bs = []) \<or> rest = []")
    case True
    then have "rest = []" using assms(3) resolve_base_Nil [of base] by auto
    moreover have "bad_int strict = Some p"
      using True assms by (auto simp: parse_int_radix_def split: if_splits)
    ultimately show ?thesis using bad by simp
  next
    case False
    with assms obtain a saw tail where s: "scan_digits radix strict None rest acc_new False = Some (a, saw, tail)"
      and r: "2 \<le> sint radix" "sint radix \<le> 36"
      and res: "if \<not> saw then bad_int strict = Some p
                else (strict \<longrightarrow> dropWhile is_ruby_space tail = []) \<and> p = acc_finish neg a"
      by (auto simp: parse_int_radix_def split: if_splits option.splits)
    have "uint radix = sint radix" using r by (intro uint_of_small_sint) simp
    then have r36: "unat radix \<le> 36" using r by (simp add: unat_eq_nat_uint)
    from scan_digits_value [OF r36 acc_new_ok(1) s] obtain body where b: "rest = body @ tail"
      "\<forall>b \<in> set body. b = underscore \<or> is_digit radix b" "acc_ok a" "acc_value a = horner radix 0 body"
      "saw \<longleftrightarrow> (\<exists>b \<in> set body. is_digit radix b)" "tail = [] \<or> \<not> is_digit radix (hd tail)" by auto
    show ?thesis
    proof (cases saw)
      case True
      then have "p = canonical (if neg then - int (horner radix 0 body) else int (horner radix 0 body))"
        using res acc_finish_canonical [OF b(3), of neg] b(4) by simp
      then show ?thesis using b res True unfolding reads_def
        by (intro exI [of _ body] exI [of _ tail]) (auto simp: dropWhile_eq_Nil_conv)
    next
      case False
      then have s': "scan_digits radix strict None rest acc_new False = Some (a, False, tail)"
        using s by simp
      have "rest = [] \<or> \<not> is_digit radix (hd rest)"
        by (rule scan_no_digit [OF r36 s' acc_new_ok(1)])
      then show ?thesis using bad res False by auto
    qed
  qed
qed

section \<open>Parsing what is printed\<close>

text \<open>The canonical text of an integer in a base: \<open>Integer#to_s(base)\<close>.\<close>

definition digit_byte :: "nat \<Rightarrow> u8" where
  "digit_byte d = (if d < 10 then of_nat (48 + d) else of_nat (87 + d))"

function render_nat :: "nat \<Rightarrow> nat \<Rightarrow> bytes" where
  "render_nat r n = (if n < r \<or> r < 2 then [digit_byte n] else render_nat r (n div r) @ [digit_byte (n mod r)])"
  by pat_completeness auto
termination
  by (relation "measure (\<lambda>(r, n). n)") auto

declare render_nat.simps [simp del]

definition render_int :: "nat \<Rightarrow> int \<Rightarrow> bytes" where
  "render_int r n = (if n < 0 then 45 # render_nat r (nat (- n)) else render_nat r (nat n))"

lemma digit_byte_facts:
  assumes "d < 36"
  shows "digit_val (digit_byte d) = d" and "digit_byte d \<noteq> underscore"
    and "\<not> is_ruby_space (digit_byte d)" and "digit_byte d \<noteq> 43" and "digit_byte d \<noteq> 45"
    and "digit_byte d = 48 \<longleftrightarrow> d = 0"
proof -
  have "\<forall>d < 36. digit_val (digit_byte d) = d \<and> digit_byte d \<noteq> underscore \<and>
      \<not> is_ruby_space (digit_byte d) \<and> digit_byte d \<noteq> 43 \<and> digit_byte d \<noteq> 45 \<and>
      (digit_byte d = 48 \<longleftrightarrow> d = 0)"
    by code_simp
  with assms show "digit_val (digit_byte d) = d" and "digit_byte d \<noteq> underscore"
    and "\<not> is_ruby_space (digit_byte d)" and "digit_byte d \<noteq> 43" and "digit_byte d \<noteq> 45"
    and "digit_byte d = 48 \<longleftrightarrow> d = 0" by blast+
qed

lemma render_nat_bytes:
  "2 \<le> r \<Longrightarrow> b \<in> set (render_nat r n) \<Longrightarrow> \<exists>d < r. b = digit_byte d"
proof (induction r n rule: render_nat.induct)
  case (1 r n)
  show ?case
  proof (cases "n < r")
    case True
    with 1(2,3) show ?thesis by (auto simp: render_nat.simps [of r n])
  next
    case False
    with 1(2,3) have "b \<in> set (render_nat r (n div r)) \<or> b = digit_byte (n mod r)"
      by (auto simp: render_nat.simps [of r n])
    then show ?thesis
    proof
      assume "b \<in> set (render_nat r (n div r))"
      with 1(1) 1(2) False show ?thesis by auto
    next
      assume "b = digit_byte (n mod r)"
      moreover have "n mod r < r" using 1(2) by simp
      ultimately show ?thesis by blast
    qed
  qed
qed

lemma render_nat_not_Nil [simp]: "render_nat r n \<noteq> []"
  by (simp add: render_nat.simps [of r n])

lemma render_nat_hd: "2 \<le> r \<Longrightarrow> r \<le> 36 \<Longrightarrow> n \<noteq> 0 \<Longrightarrow> hd (render_nat r n) \<noteq> 48"
proof (induction r n rule: render_nat.induct)
  case (1 r n)
  show ?case
  proof (cases "n < r")
    case True
    with 1(2-4) digit_byte_facts(6) [of n] show ?thesis by (simp add: render_nat.simps [of r n])
  next
    case False
    then have "n div r \<noteq> 0" using 1(2) by (simp add: div_eq_0_iff)
    with 1 False show ?thesis by (simp add: render_nat.simps [of r n])
  qed
qed

lemma render_nat_short: "2 \<le> r \<Longrightarrow> 2 \<le> length (render_nat r n) \<Longrightarrow> n \<noteq> 0"
  by (rule ccontr) (simp add: render_nat.simps [of r 0])

lemma horner_snoc: "is_digit radix b \<Longrightarrow> horner radix n (bs @ [b]) = horner radix n bs * unat radix + digit_val b"
  by (simp add: horner_def)

lemma horner_render:
  "2 \<le> r \<Longrightarrow> r \<le> 36 \<Longrightarrow> unat radix = r \<Longrightarrow> horner radix 0 (render_nat r n) = n"
proof (induction r n rule: render_nat.induct)
  case (1 r n)
  have dig: "d < r \<Longrightarrow> is_digit radix (digit_byte d) \<and> digit_val (digit_byte d) = d" for d
    using digit_byte_facts(1) [of d] 1(3,4) by (simp add: is_digit_def)
  show ?case
  proof (cases "n < r")
    case True
    with dig [OF True] 1(2) show ?thesis by (simp add: render_nat.simps [of r n] horner_def)
  next
    case False
    have "n mod r < r" using 1(2) by simp
    from dig [OF this] False 1 show ?thesis
      by (simp add: render_nat.simps [of r n] horner_snoc)
  qed
qed

lemma scan_all_digits:
  "\<forall>b \<in> set ds. is_digit radix b \<and> b \<noteq> underscore \<Longrightarrow>
   \<exists>a'. scan_digits radix strict prev ds a saw = Some (a', saw \<or> ds \<noteq> [], [])"
  by (induction radix strict prev ds a saw rule: scan_digits.induct) (auto simp: is_digit_def)

lemma parse_digits:
  assumes r: "2 \<le> r" "r \<le> 36" and base: "base = word_of_int (int r)"
    and bytes: "bytes = (if neg then 45 # render_nat r n else render_nat r n)"
  shows "parse_int_radix bytes base strict = Inr (Some (canonical (if neg then - int n else int n)))"
proof -
  let ?ds = "render_nat r n"
  have sb: "sint base = int r" unfolding base using r by (intro sint_of_int_i64) (simp add: fits_i64_iff)
  have ub: "unat base = r"
    using uint_of_small_sint [of base] sb by (simp add: unat_eq_nat_uint)
  have dg: "is_digit base b \<and> b \<noteq> underscore \<and> \<not> is_ruby_space b \<and> b \<noteq> 43 \<and> b \<noteq> 45" if b: "b \<in> set ?ds" for b
  proof -
    obtain d where "d < r" "b = digit_byte d" using render_nat_bytes [OF r(1) b] by blast
    then show ?thesis using digit_byte_facts [of d] r ub by (simp add: is_digit_def)
  qed
  obtain h ts where ds: "?ds = h # ts" by (cases ?ds) auto
  have h: "\<not> is_ruby_space h" "h \<noteq> 43" "h \<noteq> 45" using dg [of h] ds by simp_all
  have sp45: "\<not> is_ruby_space 45" by (simp add: is_ruby_space_def)
  have sign: "take_sign (dropWhile is_ruby_space bytes) = (neg, ?ds)"
    using h ds sp45 by (simp add: bytes take_sign_def)
  have nz: "h \<noteq> 48" if "ts \<noteq> []"
    using render_nat_hd [OF r, of n] render_nat_short [OF r(1), of n] ds that by (cases ts) auto
  have base_ne: "base \<noteq> 0" "base \<noteq> - 1" using sb r by auto
  have rb: "resolve_base base ?ds = (base, ?ds)"
    using nz sb r base_ne unfolding ds by (cases ts) (auto simp: Let_def resolve_base.simps)
  obtain a' where scan: "scan_digits base strict None ?ds acc_new False = Some (a', True, [])"
    using scan_all_digits [of ?ds base strict None acc_new False] dg by auto
  have u36: "unat base \<le> 36" using ub r by simp
  have "parse_int_radix bytes base strict = Inr (Some (acc_finish neg a'))"
    using sign rb scan sb r ds by (simp add: parse_int_radix_def)
  moreover have "acc_ok a'" "acc_value a' = n"
    using scan_digits_value [OF u36 acc_new_ok(1) scan] horner_render [OF r ub, of n] by auto
  ultimately show ?thesis using acc_finish_canonical [of a' neg] by simp
qed

lemma parse_render:
  assumes "2 \<le> r" "r \<le> 36"
  shows "parse_int_radix (render_int r n) (word_of_int (int r)) strict = Inr (Some (canonical n))"
proof (cases "n < 0")
  case True
  then show ?thesis
    using parse_digits [OF assms refl, of "render_int r n" True "nat (- n)" strict] by (simp add: render_int_def)
next
  case False
  then show ?thesis
    using parse_digits [OF assms refl, of "render_int r n" False "nat n" strict] by (simp add: render_int_def)
qed

section \<open>Properties\<close>



text \<open>C33. Printing and parsing: the canonical text of any integer, of any size and sign, in any base
  from 2 to 36, parses back to that integer in canonical form, through Integer() and through
  to_i.\<close>

theorem parse_printed:
  assumes "2 \<le> r" "r \<le> 36"
  shows "strict_int (render_int r n) (word_of_int (int r)) = Inr (Some (canonical n)) \<and>
         lenient_int (render_int r n) (word_of_int (int r)) = Inr (canonical n)"
  using parse_render [OF assms] by (simp add: strict_int_def lenient_int_def)

theorem parse_printed_witness:
  "strict_int (render_int 10 (- (2 ^ 63))) 10 = Inr (Some (Small (- (2 ^ 63)))) \<and>
   lenient_int (render_int 10 (2 ^ 63)) 10 = Inr (Big (2 ^ 63))"
  using parse_printed [of 10 "- (2 ^ 63)"] parse_printed [of 10 "2 ^ 63"]
  by (simp add: canonical_def fits_i64_iff)

text \<open>The lenient parse extends the strict one: when Integer(text, base) accepts a text, to_i with
  the same base gives the same integer; and an invalid radix is an error of both or of neither.\<close>

theorem strict_then_lenient:
  "case strict_int bytes base of
     Inl e \<Rightarrow> lenient_int bytes base = Inl e
   | Inr (Some p) \<Rightarrow> lenient_int bytes base = Inr p
   | Inr None \<Rightarrow> (\<exists>p. lenient_int bytes base = Inr p)"
proof -
  obtain neg bs where s: "take_sign (dropWhile is_ruby_space bytes) = (neg, bs)" by force
  obtain radix rest where r: "resolve_base base bs = (radix, rest)" by force
  define scan where "scan st = scan_digits radix st None rest acc_new False" for st
  have eq: "parse_int_radix bytes base st =
      (if bytes \<noteq> [] \<and> bs = [] then Inr (bad_int st)
       else if \<not> (2 \<le> sint radix \<and> sint radix \<le> 36) then Inl (InvalidRadix radix)
       else if rest = [] then Inr (bad_int st)
       else case scan st of
              None \<Rightarrow> Inr None
            | Some (a, saw, tail) \<Rightarrow>
                if \<not> saw then Inr (bad_int st)
                else if st \<and> dropWhile is_ruby_space tail \<noteq> [] then Inr None
                else Inr (Some (acc_finish neg a)))" for st
    unfolding parse_int_radix_def s r prod.case scan_def by (rule refl)
  have mono: "scan True = Some q \<Longrightarrow> scan False = Some q" for q
    unfolding scan_def by (rule scan_strict_lenient)
  show ?thesis
  proof (cases "scan True")
    case None
    then show ?thesis
      unfolding strict_int_def lenient_int_def eq by (auto simp: bad_int_def split: option.split)
  next
    case (Some q)
    with mono have "scan False = Some q" by simp
    with Some show ?thesis
      unfolding strict_int_def lenient_int_def eq by (cases q) (simp add: bad_int_def)
  qed
qed

end
