(* ===== verification/Class_Graph.thy ===== *)
theory Class_Graph
  imports Value_Model
begin

text \<open>
  The class hierarchy and the walks over it (\<open>vm/lookup.rs\<close>): method lookup, the lookup of
  \<open>super\<close>, \<open>is_a?\<close>, the ancestor set and the ancestor list. A class is its index in the
  list of all classes; an index outside it has no edges. The recursive walkers thread a visited set
  and take a depth budget that is one more than the number of classes: every nested call has
  visited a new class, so the budget never runs out (\<open>flatten_module_fuel\<close>).
\<close>

section \<open>Classes\<close>

type_synonym methid = nat

record class_info =
  superclass :: "classid option"
  prepended :: "classid list"
  included :: "classid list"
  methods :: "(symid \<times> methid) list"
  undefed :: "symid list"
  is_module :: bool
  singleton_methods :: "(symid \<times> methid) list"
  singleton_prepended :: "classid list"
  singleton_included :: "classid list"
  singleton_target :: "classid option"

definition empty_class :: class_info where
  "empty_class = \<lparr>superclass = None, prepended = [], included = [], methods = [], undefed = [],
     is_module = False, singleton_methods = [], singleton_prepended = [], singleton_included = [], singleton_target = None\<rparr>"

type_synonym class_graph = "class_info list"

definition cinfo :: "class_graph \<Rightarrow> classid \<Rightarrow> class_info" where
  "cinfo g c = (if c < length g then g ! c else empty_class)"

definition own_method :: "class_graph \<Rightarrow> symid \<Rightarrow> classid \<Rightarrow> methid option" where
  "own_method g nm c = map_of (methods (cinfo g c)) nm"

abbreviation mixins :: "class_graph \<Rightarrow> classid \<Rightarrow> classid list" where
  "mixins g c \<equiv> prepended (cinfo g c) @ included (cinfo g c)"

definition walk_fuel :: "class_graph \<Rightarrow> nat" where
  "walk_fuel g = Suc (length g)"

section \<open>The recursive walkers\<close>

text \<open>\<open>flatten_module\<close>: prepended modules, the module, included modules.\<close>

fun flatten_module :: "nat \<Rightarrow> class_graph \<Rightarrow> classid \<Rightarrow> classid set \<Rightarrow> classid list \<times> classid set"
and flatten_modules :: "nat \<Rightarrow> class_graph \<Rightarrow> classid list \<Rightarrow> classid set \<Rightarrow> classid list \<times> classid set" where
  "flatten_module 0 g m vis = ([], vis)"
| "flatten_module (Suc n) g m vis =
     (if m \<in> vis then ([], vis)
      else case flatten_modules n g (prepended (cinfo g m)) (insert m vis) of (pre, vis1) \<Rightarrow>
           case flatten_modules n g (included (cinfo g m)) vis1 of (inc, vis2) \<Rightarrow>
             (pre @ [m] @ inc, vis2))"
| "flatten_modules n g [] vis = ([], vis)"
| "flatten_modules n g (m # ms) vis =
     (case flatten_module n g m vis of (out, vis1) \<Rightarrow>
      case flatten_modules n g ms vis1 of (outs, vis2) \<Rightarrow> (out @ outs, vis2))"

text \<open>\<open>walks_through\<close>: is the target reachable through mixins? It returns at the first hit.\<close>

fun walks_through :: "nat \<Rightarrow> class_graph \<Rightarrow> classid \<Rightarrow> classid \<Rightarrow> classid set \<Rightarrow> bool \<times> classid set"
and walks_any :: "nat \<Rightarrow> class_graph \<Rightarrow> classid \<Rightarrow> classid list \<Rightarrow> classid set \<Rightarrow> bool \<times> classid set" where
  "walks_through 0 g target node vis = (False, vis)"
| "walks_through (Suc n) g target node vis =
     (if node = target then (True, vis)
      else if node \<in> vis then (False, vis)
      else case walks_any n g target (prepended (cinfo g node)) (insert node vis) of
             (True, vis1) \<Rightarrow> (True, vis1)
           | (False, vis1) \<Rightarrow> walks_any n g target (included (cinfo g node)) vis1)"
| "walks_any n g target [] vis = (False, vis)"
| "walks_any n g target (m # ms) vis =
     (case walks_through n g target m vis of
        (True, vis1) \<Rightarrow> (True, vis1)
      | (False, vis1) \<Rightarrow> walks_any n g target ms vis1)"

text \<open>\<open>collect\<close> of \<open>build_ancestor_set\<close>.\<close>

fun collect :: "nat \<Rightarrow> class_graph \<Rightarrow> classid \<Rightarrow> classid set \<Rightarrow> classid set"
and collect_all :: "nat \<Rightarrow> class_graph \<Rightarrow> classid list \<Rightarrow> classid set \<Rightarrow> classid set" where
  "collect 0 g node out = out"
| "collect (Suc n) g node out =
     (if node \<in> out then out
      else collect_all n g (included (cinfo g node))
             (collect_all n g (prepended (cinfo g node)) (insert node out)))"
| "collect_all n g [] out = out"
| "collect_all n g (m # ms) out = collect_all n g ms (collect n g m out)"

text \<open>\<open>walk_module\<close> of the method lookup: the first definition met.\<close>

fun walk_module ::
  "nat \<Rightarrow> class_graph \<Rightarrow> symid \<Rightarrow> classid \<Rightarrow> classid set \<Rightarrow> methid option \<times> classid set"
and walk_modules ::
  "nat \<Rightarrow> class_graph \<Rightarrow> symid \<Rightarrow> classid list \<Rightarrow> classid set \<Rightarrow> methid option \<times> classid set" where
  "walk_module 0 g nm m vis = (None, vis)"
| "walk_module (Suc n) g nm m vis =
     (if m \<in> vis then (None, vis)
      else case walk_modules n g nm (prepended (cinfo g m)) (insert m vis) of
             (Some found, vis1) \<Rightarrow> (Some found, vis1)
           | (None, vis1) \<Rightarrow>
               (case own_method g nm m of
                  Some found \<Rightarrow> (Some found, vis1)
                | None \<Rightarrow> walk_modules n g nm (included (cinfo g m)) vis1))"
| "walk_modules n g nm [] vis = (None, vis)"
| "walk_modules n g nm (m # ms) vis =
     (case walk_module n g nm m vis of
        (Some found, vis1) \<Rightarrow> (Some found, vis1)
      | (None, vis1) \<Rightarrow> walk_modules n g nm ms vis1)"

text \<open>\<open>walk_module\<close> of the \<open>super\<close> lookup: the anchor arms the search.\<close>

fun super_module ::
  "nat \<Rightarrow> class_graph \<Rightarrow> symid \<Rightarrow> classid \<Rightarrow> classid \<Rightarrow> bool \<Rightarrow> classid set \<Rightarrow>
   (classid \<times> methid) option \<times> bool \<times> classid set"
and super_modules ::
  "nat \<Rightarrow> class_graph \<Rightarrow> symid \<Rightarrow> classid \<Rightarrow> classid list \<Rightarrow> bool \<Rightarrow> classid set \<Rightarrow>
   (classid \<times> methid) option \<times> bool \<times> classid set" where
  "super_module 0 g nm anchor m past vis = (None, past, vis)"
| "super_module (Suc n) g nm anchor m past vis =
     (if m \<in> vis then (None, past, vis)
      else case super_modules n g nm anchor (prepended (cinfo g m)) past (insert m vis) of
             (Some r, past1, vis1) \<Rightarrow> (Some r, past1, vis1)
           | (None, past1, vis1) \<Rightarrow>
               (if m = anchor then super_modules n g nm anchor (included (cinfo g m)) True vis1
                else case (if past1 then own_method g nm m else None) of
                       Some found \<Rightarrow> (Some (m, found), past1, vis1)
                     | None \<Rightarrow> super_modules n g nm anchor (included (cinfo g m)) past1 vis1))"
| "super_modules n g nm anchor [] past vis = (None, past, vis)"
| "super_modules n g nm anchor (m # ms) past vis =
     (case super_module n g nm anchor m past vis of
        (Some r, past1, vis1) \<Rightarrow> (Some r, past1, vis1)
      | (None, past1, vis1) \<Rightarrow> super_modules n g nm anchor ms past1 vis1)"

section \<open>The walkers follow the flattened order\<close>

text \<open>The result of the first class of a list that defines the name.\<close>

fun first_def :: "('a \<Rightarrow> 'b option) \<Rightarrow> 'a list \<Rightarrow> 'b option" where
  "first_def f [] = None"
| "first_def f (x # xs) = (case f x of Some v \<Rightarrow> Some v | None \<Rightarrow> first_def f xs)"

lemma first_def_append: "first_def f (xs @ ys) = (case first_def f xs of Some v \<Rightarrow> Some v | None \<Rightarrow> first_def f ys)"
  by (induction xs) (auto split: option.splits)

lemma first_def_None: "first_def f xs = None \<longleftrightarrow> (\<forall>x \<in> set xs. f x = None)"
  by (induction xs) (auto split: option.splits)

text \<open>The first definition strictly after the (last met) anchor.\<close>

fun after_anchor :: "('a \<Rightarrow> 'b option) \<Rightarrow> 'a \<Rightarrow> bool \<Rightarrow> 'a list \<Rightarrow> ('a \<times> 'b) option \<times> bool" where
  "after_anchor f a past [] = (None, past)"
| "after_anchor f a past (x # xs) =
     (if x = a then after_anchor f a True xs
      else case (if past then f x else None) of
             Some v \<Rightarrow> (Some (x, v), past)
           | None \<Rightarrow> after_anchor f a past xs)"

lemma after_anchor_append:
  "after_anchor f a past (xs @ ys) =
     (case after_anchor f a past xs of (Some r, past1) \<Rightarrow> (Some r, past1)
                                     | (None, past1) \<Rightarrow> after_anchor f a past1 ys)"
  by (induction xs arbitrary: past) (auto split: option.splits)

lemma collect_flatten:
  "collect n g m vis = snd (flatten_module n g m vis)"
  "collect_all n g ms vis = snd (flatten_modules n g ms vis)"
  by (induction n g m vis and n g ms vis rule: flatten_module_flatten_modules.induct)
    (auto split: prod.splits)

lemma flatten_visited:
  "snd (flatten_module n g m vis) = vis \<union> set (fst (flatten_module n g m vis)) \<and>
   distinct (fst (flatten_module n g m vis)) \<and> set (fst (flatten_module n g m vis)) \<inter> vis = {}"
  "snd (flatten_modules n g ms vis) = vis \<union> set (fst (flatten_modules n g ms vis)) \<and>
   distinct (fst (flatten_modules n g ms vis)) \<and> set (fst (flatten_modules n g ms vis)) \<inter> vis = {}"
  by (induction n g m vis and n g ms vis rule: flatten_module_flatten_modules.induct)
    (auto split: prod.splits)

lemma walk_flatten:
  "fst (walk_module n g nm m vis) = first_def (own_method g nm) (fst (flatten_module n g m vis)) \<and>
   (fst (walk_module n g nm m vis) = None \<longrightarrow> snd (walk_module n g nm m vis) = snd (flatten_module n g m vis))"
  "fst (walk_modules n g nm ms vis) = first_def (own_method g nm) (fst (flatten_modules n g ms vis)) \<and>
   (fst (walk_modules n g nm ms vis) = None \<longrightarrow> snd (walk_modules n g nm ms vis) = snd (flatten_modules n g ms vis))"
  by (induction n g m vis and n g ms vis rule: flatten_module_flatten_modules.induct)
    (auto simp: first_def_append split: prod.splits option.splits)

lemma walks_flatten:
  "target \<notin> vis \<Longrightarrow>
   fst (walks_through n g target m vis) = (target \<in> set (fst (flatten_module n g m vis))) \<and>
   (\<not> fst (walks_through n g target m vis) \<longrightarrow> snd (walks_through n g target m vis) = snd (flatten_module n g m vis))"
  "target \<notin> vis \<Longrightarrow>
   fst (walks_any n g target ms vis) = (target \<in> set (fst (flatten_modules n g ms vis))) \<and>
   (\<not> fst (walks_any n g target ms vis) \<longrightarrow> snd (walks_any n g target ms vis) = snd (flatten_modules n g ms vis))"
proof (induction n g target m vis and n g target ms vis rule: walks_through_walks_any.induct)
  case (2 n g target m vis)
  show ?case
  proof (cases "m = target \<or> m \<in> vis")
    case True
    with 2(3) show ?thesis by (auto split: prod.splits)
  next
    case False
    obtain pre vis1 where f1: "flatten_modules n g (prepended (cinfo g m)) (insert m vis) = (pre, vis1)" by force
    obtain inc vis2 where f2: "flatten_modules n g (included (cinfo g m)) vis1 = (inc, vis2)" by force
    obtain b w1 where w1: "walks_any n g target (prepended (cinfo g m)) (insert m vis) = (b, w1)" by force
    have t: "target \<notin> insert m vis" using False 2(3) by auto
    from 2(1) t False f1 w1 have b: "b = (target \<in> set pre)" "\<not> b \<longrightarrow> w1 = vis1" by auto
    show ?thesis
    proof (cases b)
      case True
      with b w1 f1 f2 False show ?thesis by simp
    next
      case nb: False
      have "target \<notin> vis1"
        using flatten_visited(2) [of n g "prepended (cinfo g m)" "insert m vis"] f1 t b nb by simp
      moreover have "w1 = vis1" using b nb by simp
      ultimately show ?thesis
        using 2(2) [of b w1] False nb b w1 f1 f2 by auto
    qed
  qed
next
  case (4 n g target m ms vis)
  obtain out vis1 where f1: "flatten_module n g m vis = (out, vis1)" by force
  obtain outs vis2 where f2: "flatten_modules n g ms vis1 = (outs, vis2)" by force
  obtain b w1 where w1: "walks_through n g target m vis = (b, w1)" by force
  from 4(1,3) f1 w1 have b: "b = (target \<in> set out)" "\<not> b \<longrightarrow> w1 = vis1" by auto
  show ?case
  proof (cases b)
    case True
    with b w1 f1 f2 show ?thesis by simp
  next
    case nb: False
    have "target \<notin> vis1"
      using flatten_visited(1) [of n g m vis] f1 4(3) b nb by simp
    then show ?thesis using 4(2) [OF w1 [symmetric]] nb b w1 f1 f2 by auto
  qed
qed auto

lemma super_flatten:
  "(case super_module n g nm a m past vis of (r, past1, vis1) \<Rightarrow>
      (r, past1) = after_anchor (own_method g nm) a past (fst (flatten_module n g m vis)) \<and>
      (r = None \<longrightarrow> vis1 = snd (flatten_module n g m vis)))"
  "(case super_modules n g nm a ms past vis of (r, past1, vis1) \<Rightarrow>
      (r, past1) = after_anchor (own_method g nm) a past (fst (flatten_modules n g ms vis)) \<and>
      (r = None \<longrightarrow> vis1 = snd (flatten_modules n g ms vis)))"
proof (induction n g nm a m past vis and n g nm a ms past vis rule: super_module_super_modules.induct)
  case (2 n g nm a m past vis)
  show ?case
  proof (cases "m \<in> vis")
    case False
    obtain pre vis1 where f1: "flatten_modules n g (prepended (cinfo g m)) (insert m vis) = (pre, vis1)" by force
    obtain inc vis2 where f2: "flatten_modules n g (included (cinfo g m)) vis1 = (inc, vis2)" by force
    obtain r1 p1 w1 where s1: "super_modules n g nm a (prepended (cinfo g m)) past (insert m vis) = (r1, p1, w1)"
      by (metis prod_cases3)
    from 2(1) [OF False] f1 s1 have e1: "after_anchor (own_method g nm) a past pre = (r1, p1)"
      "r1 = None \<longrightarrow> w1 = vis1" by auto
    show ?thesis
    proof (cases r1)
      case (Some r)
      with e1 s1 f1 f2 False show ?thesis by (simp add: after_anchor_append)
    next
      case None
      define p where "p = (m = a \<or> p1)"
      obtain r2 p2 w2 where s2: "super_modules n g nm a (included (cinfo g m)) p vis1 = (r2, p2, w2)"
        by (metis prod_cases3)
      have w1: "w1 = vis1" using e1 None by simp
      show ?thesis
      proof (cases "m \<noteq> a \<and> p1 \<and> own_method g nm m \<noteq> None")
        case True
        then obtain f where "own_method g nm m = Some f" by auto
        with True show ?thesis using False s1 None e1 f1 f2 by (simp add: after_anchor_append)
      next
        case no: False
        have e2: "after_anchor (own_method g nm) a p inc = (r2, p2)" "r2 = None \<longrightarrow> w2 = vis2"
        proof -
          consider "m = a" | "m \<noteq> a" "(if p1 then own_method g nm m else None) = None" using no by (cases "m = a"; cases p1) auto
          then have "case super_modules n g nm a (included (cinfo g m)) p vis1 of (r, past1, vis1') \<Rightarrow>
              (r, past1) = after_anchor (own_method g nm) a p (fst (flatten_modules n g (included (cinfo g m)) vis1)) \<and>
              (r = None \<longrightarrow> vis1' = snd (flatten_modules n g (included (cinfo g m)) vis1))"
          proof cases
            case 1
            with 2(2) [OF False s1 [symmetric] None refl 1] w1 show ?thesis by (simp add: p_def)
          next
            case b2: 2
            with 2(3) [OF False s1 [symmetric] None refl b2] w1 show ?thesis by (simp add: p_def)
          qed
          then show "after_anchor (own_method g nm) a p inc = (r2, p2)" "r2 = None \<longrightarrow> w2 = vis2"
            using s2 f2 by simp_all
        qed
        have lhs: "super_module (Suc n) g nm a m past vis = (r2, p2, w2)"
          using no False s1 None s2 w1 by (auto simp: p_def)
        have "after_anchor (own_method g nm) a past (pre @ [m] @ inc) = (r2, p2)"
          using no e1 None e2 by (auto simp: after_anchor_append p_def)
        then show ?thesis unfolding lhs using e2 f1 f2 False by simp
      qed
    qed
  qed simp
next
  case (4 n g nm a m ms past vis)
  obtain out vis1 where f1: "flatten_module n g m vis = (out, vis1)" by force
  obtain outs vis2 where f2: "flatten_modules n g ms vis1 = (outs, vis2)" by force
  obtain r1 p1 w1 where s1: "super_module n g nm a m past vis = (r1, p1, w1)" by (metis prod_cases3)
  from 4(1) f1 s1 have e1: "after_anchor (own_method g nm) a past out = (r1, p1)"
    "r1 = None \<longrightarrow> w1 = vis1" by auto
  show ?case
  proof (cases r1)
    case (Some r)
    with e1 s1 f1 f2 show ?thesis by (simp add: after_anchor_append)
  next
    case None
    with 4(2) [OF s1 [symmetric] None refl] e1 s1 f1 f2 show ?thesis
      by (auto simp: after_anchor_append split: prod.splits)
  qed
qed auto

end
