(* ===== verification/Class_Lookup.thy ===== *)
theory Class_Lookup
  imports Class_Graph
begin

text \<open>
  The walks along the superclass chain built on the module walkers of \<open>Class_Graph\<close>
  (\<open>vm/lookup.rs\<close>): \<open>flatten_ancestors\<close>, \<open>walk_method\<close>, \<open>lookup_super_method_uncached\<close>,
  \<open>class_is_a\<close> and \<open>build_ancestor_set\<close>. They are related to one another: dispatch takes the first
  definer in the ancestor list, \<open>super\<close> the next one after the anchor, and \<open>is_a?\<close> is membership.
\<close>

section \<open>Reachability through mixins\<close>

definition mix :: "class_graph \<Rightarrow> (classid \<times> classid) set" where
  "mix g = {(x, y). y \<in> set (mixins g x)}"

definition mix_closed :: "class_graph \<Rightarrow> classid set \<Rightarrow> bool" where
  "mix_closed g V \<longleftrightarrow> (\<forall>x \<in> V. set (mixins g x) \<subseteq> V)"

abbreviation all_classes :: "class_graph \<Rightarrow> classid set" where
  "all_classes g \<equiv> {..<length g}"

lemma cinfo_outside: "c \<notin> all_classes g \<Longrightarrow> cinfo g c = empty_class"
  by (simp add: cinfo_def)

lemma mix_closed_rtrancl: "mix_closed g V \<Longrightarrow> x \<in> V \<Longrightarrow> (x, y) \<in> (mix g)\<^sup>* \<Longrightarrow> y \<in> V"
  by (erule rtrancl_induct) (auto simp: mix_closed_def mix_def)

lemma flatten_sound:
  "y \<in> set (fst (flatten_module n g m vis)) \<Longrightarrow> (m, y) \<in> (mix g)\<^sup>*"
  "y \<in> set (fst (flatten_modules n g ms vis)) \<Longrightarrow> \<exists>m \<in> set ms. (m, y) \<in> (mix g)\<^sup>*"
proof (induction n g m vis and n g ms vis rule: flatten_module_flatten_modules.induct)
  case (2 n g m vis)
  have step: "(m, x) \<in> mix g" if "x \<in> set (prepended (cinfo g m)) \<or> x \<in> set (included (cinfo g m))" for x
    using that by (simp add: mix_def)
  show ?case
    using 2 step by (auto split: prod.splits if_splits intro: converse_rtrancl_into_rtrancl)
next
  case (4 n g m ms vis)
  then show ?case by (auto split: prod.splits)
qed auto

text \<open>With a depth budget above the number of unvisited classes nothing reachable is missed.\<close>

lemma card_unvisited:
  "vis \<subseteq> vis' \<Longrightarrow> card (all_classes g - vis') \<le> card (all_classes g - vis)"
  by (rule card_mono) auto

lemma card_visit: "m \<in> all_classes g \<Longrightarrow> m \<notin> vis \<Longrightarrow>
    card (all_classes g - insert m vis) < card (all_classes g - vis)"
  by (rule psubset_card_mono) auto

lemma flatten_closed:
  "card (all_classes g - vis) < n \<Longrightarrow>
   m \<in> snd (flatten_module n g m vis) \<and>
   (\<forall>x \<in> set (fst (flatten_module n g m vis)). set (mixins g x) \<subseteq> snd (flatten_module n g m vis))"
  "card (all_classes g - vis) < n \<Longrightarrow>
   set ms \<subseteq> snd (flatten_modules n g ms vis) \<and>
   (\<forall>x \<in> set (fst (flatten_modules n g ms vis)). set (mixins g x) \<subseteq> snd (flatten_modules n g ms vis))"
proof (induction n g m vis and n g ms vis rule: flatten_module_flatten_modules.induct)
  case (2 n g m vis)
  show ?case
  proof (cases "m \<in> vis \<or> m \<notin> all_classes g")
    case True
    then show ?thesis by (auto simp: cinfo_outside empty_class_def)
  next
    case False
    obtain pre vis1 where f1: "flatten_modules n g (prepended (cinfo g m)) (insert m vis) = (pre, vis1)" by force
    obtain inc vis2 where f2: "flatten_modules n g (included (cinfo g m)) vis1 = (inc, vis2)" by force
    have v1: "vis1 = insert m vis \<union> set pre" and v2: "vis2 = vis1 \<union> set inc"
      using flatten_visited(2) [of n g "prepended (cinfo g m)" "insert m vis"]
        flatten_visited(2) [of n g "included (cinfo g m)" vis1] f1 f2 by simp_all
    have c1: "card (all_classes g - insert m vis) < n"
      using card_visit [of m g vis] False 2(3) by auto
    then have c2: "card (all_classes g - vis1) < n"
      using le_less_trans [OF card_unvisited [of "insert m vis" vis1 g]] v1 by auto
    have a: "set (prepended (cinfo g m)) \<subseteq> vis1" "\<forall>x \<in> set pre. set (mixins g x) \<subseteq> vis1"
      using 2(1) [OF _ c1] False f1 by auto
    have b: "set (included (cinfo g m)) \<subseteq> vis2" "\<forall>x \<in> set inc. set (mixins g x) \<subseteq> vis2"
      using 2(2) [OF _ f1 [symmetric] c2] False f2 by auto
    show ?thesis using False f1 f2 a b v1 v2 by auto
  qed
next
  case (4 n g m ms vis)
  obtain out vis1 where f1: "flatten_module n g m vis = (out, vis1)" by force
  obtain outs vis2 where f2: "flatten_modules n g ms vis1 = (outs, vis2)" by force
  have v1: "vis1 = vis \<union> set out" and v2: "vis2 = vis1 \<union> set outs"
    using flatten_visited(1) [of n g m vis] flatten_visited(2) [of n g ms vis1] f1 f2 by simp_all
  have c2: "card (all_classes g - vis1) < n"
    using le_less_trans [OF card_unvisited [of vis vis1 g] 4(3)] v1 by auto
  show ?case
    using 4(1) [OF 4(3)] 4(2) [OF f1 [symmetric] c2] f1 f2 v1 v2 by auto
qed auto

lemma walk_fuel_ok: "card (all_classes g - vis) < walk_fuel g"
proof -
  have "card (all_classes g - vis) \<le> card (all_classes g)" by (rule card_mono) auto
  then show ?thesis by (simp add: walk_fuel_def)
qed

text \<open>So a larger budget gives the same walk.\<close>

lemma flatten_module_fuel:
  "card (all_classes g - vis) < n \<Longrightarrow> flatten_module (Suc n) g m vis = flatten_module n g m vis"
  "card (all_classes g - vis) < n \<Longrightarrow> flatten_modules (Suc n) g ms vis = flatten_modules n g ms vis"
proof (induction n g m vis and n g ms vis rule: flatten_module_flatten_modules.induct)
  case (2 n g m vis)
  show ?case
  proof (cases "m \<in> vis \<or> m \<notin> all_classes g")
    case True
    then show ?thesis by (auto simp: cinfo_outside empty_class_def)
  next
    case False
    obtain pre vis1 where f1: "flatten_modules n g (prepended (cinfo g m)) (insert m vis) = (pre, vis1)" by force
    have "vis1 = insert m vis \<union> set pre"
      using flatten_visited(2) [of n g "prepended (cinfo g m)" "insert m vis"] f1 by simp
    moreover have c1: "card (all_classes g - insert m vis) < n"
      using card_visit [of m g vis] False 2(3) by auto
    ultimately have c2: "card (all_classes g - vis1) < n"
      using le_less_trans [OF card_unvisited [of "insert m vis" vis1 g]] by auto
    show ?thesis
      using 2(1) [OF _ c1] 2(2) [OF _ f1 [symmetric] c2] False f1 by simp
  qed
next
  case (4 n g m ms vis)
  obtain out vis1 where f1: "flatten_module n g m vis = (out, vis1)" by force
  have "vis1 = vis \<union> set out" using flatten_visited(1) [of n g m vis] f1 by simp
  then have c2: "card (all_classes g - vis1) < n"
    using le_less_trans [OF card_unvisited [of vis vis1 g] 4(3)] by auto
  show ?case using 4(1) [OF 4(3)] 4(2) [OF f1 [symmetric] c2] f1 by simp
qed auto

text \<open>Classes already visited, with everything reachable from them, are only left out.\<close>

lemma flatten_filter:
  "mix_closed g V \<Longrightarrow>
   flatten_module n g m (vis \<union> V) =
     (filter (\<lambda>x. x \<notin> V) (fst (flatten_module n g m vis)), snd (flatten_module n g m vis) \<union> V)"
  "mix_closed g V \<Longrightarrow>
   flatten_modules n g ms (vis \<union> V) =
     (filter (\<lambda>x. x \<notin> V) (fst (flatten_modules n g ms vis)), snd (flatten_modules n g ms vis) \<union> V)"
proof (induction n g m vis and n g ms vis rule: flatten_module_flatten_modules.induct)
  case (2 n g m vis)
  consider "m \<in> vis" | "m \<in> V" "m \<notin> vis" | "m \<notin> vis" "m \<notin> V" by blast
  then show ?case
  proof cases
    case 2
    let ?f = "flatten_module (Suc n) g m vis"
    have sub: "set (fst ?f) \<subseteq> V"
      using flatten_sound(1) [of _ "Suc n" g m vis] mix_closed_rtrancl [OF \<open>mix_closed g V\<close> 2(1)] by blast
    moreover have "snd ?f = vis \<union> set (fst ?f)" using flatten_visited(1) [of "Suc n" g m vis] by simp
    ultimately have "filter (\<lambda>x. x \<notin> V) (fst ?f) = []" "snd ?f \<union> V = vis \<union> V"
      by (auto simp: filter_empty_conv)
    then show ?thesis using 2 by simp
  next
    case 3
    obtain pre vis1 where f1: "flatten_modules n g (prepended (cinfo g m)) (insert m vis) = (pre, vis1)" by force
    obtain inc vis2 where f2: "flatten_modules n g (included (cinfo g m)) vis1 = (inc, vis2)" by force
    have "flatten_modules n g (prepended (cinfo g m)) (insert m vis \<union> V) =
        (filter (\<lambda>x. x \<notin> V) pre, vis1 \<union> V)"
      using 2(1) [OF 3(1) 2(3)] f1 by simp
    moreover have "flatten_modules n g (included (cinfo g m)) (vis1 \<union> V) =
        (filter (\<lambda>x. x \<notin> V) inc, vis2 \<union> V)"
      using 2(2) [OF 3(1) f1 [symmetric] 2(3)] f2 by simp
    ultimately show ?thesis using 3 f1 f2 by simp
  qed simp
next
  case (4 n g m ms vis)
  obtain out vis1 where f1: "flatten_module n g m vis = (out, vis1)" by force
  show ?case using 4(1) [OF 4(3)] 4(2) [OF f1 [symmetric] 4(3)] f1 by (simp split: prod.splits)
qed auto

section \<open>The walks along the superclass chain\<close>

text \<open>\<open>flatten_ancestors\<close>: one visited set for the whole chain.\<close>

definition visit_level :: "class_graph \<Rightarrow> classid \<Rightarrow> classid set \<Rightarrow> classid list \<times> classid set" where
  "visit_level g c vis =
     (case flatten_modules (walk_fuel g) g (prepended (cinfo g c)) (insert c vis) of (pre, vis1) \<Rightarrow>
      case flatten_modules (walk_fuel g) g (included (cinfo g c)) vis1 of (inc, vis2) \<Rightarrow>
      case (case singleton_target (cinfo g c) of
              None \<Rightarrow> ([], vis2)
            | Some t \<Rightarrow> flatten_modules (walk_fuel g) g (singleton_included (cinfo g t)) vis2) of
        (sing, vis3) \<Rightarrow> (pre @ [c] @ inc @ sing, vis3))"

lemma visit_level_grows: "insert c vis \<subseteq> snd (visit_level g c vis)"
  using flatten_visited(2) [of "walk_fuel g" g]
  by (auto simp: visit_level_def split: prod.splits option.splits) (metis Un_iff fst_conv snd_conv insertI1 insert_iff)+

function flatten_from :: "class_graph \<Rightarrow> classid \<Rightarrow> classid set \<Rightarrow> classid list" where
  "flatten_from g c vis =
     (if c \<in> vis then []
      else fst (visit_level g c vis) @
        (case superclass (cinfo g c) of
           None \<Rightarrow> []
         | Some p \<Rightarrow> flatten_from g p (snd (visit_level g c vis))))"
  by pat_completeness auto
termination
proof (relation "measure (\<lambda>(g, c, vis). card (all_classes g - vis))", goal_cases)
  case (2 g c vis p)
  then have "c \<in> all_classes g" by (auto simp: cinfo_def empty_class_def split: if_splits)
  with 2(1) have "card (all_classes g - insert c vis) < card (all_classes g - vis)"
    by (intro card_visit)
  moreover have "card (all_classes g - snd (visit_level g c vis)) \<le> card (all_classes g - insert c vis)"
    by (rule card_unvisited [OF visit_level_grows])
  ultimately show ?case by simp
qed simp

declare flatten_from.simps [simp del]

definition flatten_ancestors :: "class_graph \<Rightarrow> classid \<Rightarrow> classid list" where
  "flatten_ancestors g c = flatten_from g c {}"

text \<open>\<open>walk_method\<close>: a fresh visited set per superclass, the depth guard of 4096.\<close>

function walk_chain :: "class_graph \<Rightarrow> symid \<Rightarrow> nat \<Rightarrow> classid \<Rightarrow> methid option" where
  "walk_chain g nm depth c =
     (if 4096 < Suc depth then None
      else let has_modules = prepended (cinfo g c) \<noteq> [] \<or> included (cinfo g c) \<noteq> [];
               found = (if has_modules then fst (walk_module (walk_fuel g) g nm c {})
                        else own_method g nm c)
        in case found of
             Some m \<Rightarrow> Some m
           | None \<Rightarrow>
               if nm \<in> set (undefed (cinfo g c)) then None
               else case superclass (cinfo g c) of
                      None \<Rightarrow> None
                    | Some p \<Rightarrow> walk_chain g nm (Suc depth) p)"
  by pat_completeness auto
termination
  by (relation "measure (\<lambda>(g, nm, depth, c). 4096 - depth)") auto

declare walk_chain.simps [simp del]

definition walk_method :: "class_graph \<Rightarrow> classid \<Rightarrow> symid \<Rightarrow> methid option" where
  "walk_method g c nm = walk_chain g nm 0 c"

text \<open>\<open>walk_class_singleton_method\<close>: methods of a class object itself.\<close>

definition singleton_level :: "class_graph \<Rightarrow> symid \<Rightarrow> classid \<Rightarrow> methid option" where
  "singleton_level g nm c =
     (let own = map_of (singleton_methods (cinfo g c)) nm in
      if singleton_prepended (cinfo g c) \<noteq> [] \<or> singleton_included (cinfo g c) \<noteq> [] then
        (case walk_modules (walk_fuel g) g nm (singleton_prepended (cinfo g c)) {} of
           (Some found, vis) \<Rightarrow> Some found
         | (None, vis) \<Rightarrow>
             (case own of
                Some m \<Rightarrow> Some m
              | None \<Rightarrow> fst (walk_modules (walk_fuel g) g nm (singleton_included (cinfo g c)) vis)))
      else own)"

function singleton_chain :: "class_graph \<Rightarrow> symid \<Rightarrow> nat \<Rightarrow> classid \<Rightarrow> methid option" where
  "singleton_chain g nm depth c =
     (if 4096 < Suc depth then None
      else case singleton_level g nm c of
             Some m \<Rightarrow> Some m
           | None \<Rightarrow>
               (case superclass (cinfo g c) of
                  None \<Rightarrow> None
                | Some p \<Rightarrow> singleton_chain g nm (Suc depth) p))"
  by pat_completeness auto
termination
  by (relation "measure (\<lambda>(g, nm, depth, c). 4096 - depth)") auto

declare singleton_chain.simps [simp del]

definition walk_class_singleton_method :: "class_graph \<Rightarrow> classid \<Rightarrow> symid \<Rightarrow> methid option" where
  "walk_class_singleton_method g c nm = singleton_chain g nm 0 c"

text \<open>\<open>lookup_super_method_uncached\<close>.\<close>

function super_chain ::
  "class_graph \<Rightarrow> symid \<Rightarrow> classid \<Rightarrow> bool \<Rightarrow> nat \<Rightarrow> classid \<Rightarrow> (classid \<times> methid) option" where
  "super_chain g nm anchor past depth c =
     (if 100000 < Suc depth then None
      else case super_module (walk_fuel g) g nm anchor c past {} of
             (Some r, past1, _) \<Rightarrow> Some r
           | (None, past1, _) \<Rightarrow>
               (case superclass (cinfo g c) of
                  None \<Rightarrow> None
                | Some p \<Rightarrow> super_chain g nm anchor past1 (Suc depth) p))"
  by pat_completeness auto
termination
  by (relation "measure (\<lambda>(g, nm, anchor, past, depth, c). 100000 - depth)") auto

declare super_chain.simps [simp del]

definition lookup_super_method :: "class_graph \<Rightarrow> classid \<Rightarrow> symid \<Rightarrow> classid \<Rightarrow> (classid \<times> methid) option" where
  "lookup_super_method g c nm defining = super_chain g nm defining False 0 c"

text \<open>\<open>class_is_a\<close>: a class target is compared along the superclass chain only.\<close>

function is_a_chain :: "class_graph \<Rightarrow> classid \<Rightarrow> nat \<Rightarrow> classid \<Rightarrow> bool" where
  "is_a_chain g target depth c =
     (if c = target then True
      else if 1000000 < Suc depth then False
      else case superclass (cinfo g c) of
             None \<Rightarrow> False
           | Some p \<Rightarrow> is_a_chain g target (Suc depth) p)"
  by pat_completeness auto
termination
  by (relation "measure (\<lambda>(g, target, depth, c). 1000000 - depth)") auto

declare is_a_chain.simps [simp del]

function is_a_run :: "class_graph \<Rightarrow> classid \<Rightarrow> classid set \<Rightarrow> classid \<Rightarrow> bool" where
  "is_a_run g ancestor sc_visited c =
     (if c \<in> sc_visited then False
      else if fst (walks_through (walk_fuel g) g ancestor c {}) then True
      else case superclass (cinfo g c) of
             None \<Rightarrow> False
           | Some p \<Rightarrow> is_a_run g ancestor (insert c sc_visited) p)"
  by pat_completeness auto
termination
proof (relation "measure (\<lambda>(g, ancestor, vis, c). card (all_classes g - vis))", goal_cases)
  case (2 g ancestor vis c p)
  then have "c \<in> all_classes g" by (auto simp: cinfo_def empty_class_def split: if_splits)
  with 2 show ?case using card_visit [of c g vis] by simp
qed simp

declare is_a_run.simps [simp del]

definition class_is_a :: "class_graph \<Rightarrow> classid \<Rightarrow> classid \<Rightarrow> bool" where
  "class_is_a g child ancestor =
     (if \<not> is_module (cinfo g ancestor) then is_a_chain g ancestor 0 child
      else is_a_run g ancestor {} child)"

text \<open>\<open>build_ancestor_set\<close>.\<close>

function ancestor_loop :: "class_graph \<Rightarrow> nat \<Rightarrow> classid set \<Rightarrow> classid \<Rightarrow> classid set" where
  "ancestor_loop g depth out c =
     (let out1 = collect (walk_fuel g) g c out in
      if 1000000 < Suc depth then out1
      else case superclass (cinfo g c) of
             None \<Rightarrow> out1
           | Some p \<Rightarrow> ancestor_loop g (Suc depth) out1 p)"
  by pat_completeness auto
termination
  by (relation "measure (\<lambda>(g, depth, out, c). 1000000 - depth)") auto

declare ancestor_loop.simps [simp del]

definition build_ancestor_set :: "class_graph \<Rightarrow> classid \<Rightarrow> classid set" where
  "build_ancestor_set g child = ancestor_loop g 0 {} child"

text \<open>\<open>prepend_chain\<close> and \<open>singleton_chain_contains\<close>.\<close>

definition prepend_chain :: "class_graph \<Rightarrow> classid \<Rightarrow> classid list" where
  "prepend_chain g c = fst (flatten_modules (walk_fuel g) g (prepended (cinfo g c)) {c})"

definition singleton_chain_contains :: "class_graph \<Rightarrow> classid \<Rightarrow> classid \<Rightarrow> bool" where
  "singleton_chain_contains g c target =
     fst (walks_any (walk_fuel g) g target (singleton_prepended (cinfo g c)) {})"

section \<open>The hierarchy the walks are meant for\<close>

text \<open>\<open>chain_of g c cs\<close>: \<open>cs\<close> is the finite superclass chain from \<open>c\<close>.\<close>

inductive chain_of :: "class_graph \<Rightarrow> classid \<Rightarrow> classid list \<Rightarrow> bool" for g where
  chain_root: "superclass (cinfo g c) = None \<Longrightarrow> chain_of g c [c]"
| chain_super: "superclass (cinfo g c) = Some p \<Longrightarrow> chain_of g p cs \<Longrightarrow> chain_of g c (c # cs)"

inductive_cases chain_ofE: "chain_of g c cs"

text \<open>
  Only modules are mixed in, a module has no superclass chain of its own through it, and the
  chain's classes are no singleton shells: the shape of the hierarchy below an ordinary class.
\<close>

definition plain_chain :: "class_graph \<Rightarrow> classid list \<Rightarrow> bool" where
  "plain_chain g cs \<longleftrightarrow>
     (\<forall>c \<in> set cs. \<not> is_module (cinfo g c) \<and> singleton_target (cinfo g c) = None) \<and>
     (\<forall>x < length g. \<forall>y \<in> set (mixins g x). is_module (cinfo g y))"

definition level :: "class_graph \<Rightarrow> classid \<Rightarrow> classid list" where
  "level g c = fst (flatten_module (walk_fuel g) g c {})"

text \<open>Every class once per level it appears in: the order dispatch searches.\<close>

definition dispatch_order :: "class_graph \<Rightarrow> classid list \<Rightarrow> classid list" where
  "dispatch_order g cs = concat (map (level g) cs)"

lemma chain_of_unique: "chain_of g c xs \<Longrightarrow> chain_of g c ys \<Longrightarrow> xs = ys"
proof (induction c xs arbitrary: ys rule: chain_of.induct)
  case (chain_root c)
  from chain_root(2) show ?case by (cases rule: chain_of.cases) (use chain_root(1) in simp_all)
next
  case (chain_super c p cs)
  from chain_super(4) show ?case
    by (cases rule: chain_of.cases) (use chain_super(1,3) in auto)
qed

lemma chain_of_suffix:
  "chain_of g c cs \<Longrightarrow> d \<in> set cs \<Longrightarrow> \<exists>ds. chain_of g d ds \<and> length ds \<le> length cs"
  by (induction c cs rule: chain_of.induct) (auto intro: chain_of.intros le_SucI)

lemma chain_of_distinct: "chain_of g c cs \<Longrightarrow> distinct cs"
proof (induction c cs rule: chain_of.induct)
  case (chain_super c p cs)
  have "c \<notin> set cs"
  proof
    assume "c \<in> set cs"
    then obtain ds where ds: "chain_of g c ds" "length ds \<le> length cs"
      using chain_of_suffix [OF chain_super(2)] by blast
    have "ds = c # cs" using chain_of_unique [OF ds(1)] chain_of.chain_super [OF chain_super(1,2)] by blast
    with ds(2) show False by simp
  qed
  with chain_super show ?case by simp
qed simp

lemma chain_of_hd: "chain_of g c cs \<Longrightarrow> \<exists>ds. cs = c # ds"
  by (auto elim: chain_ofE)

lemma set_level: "set (level g c) = (mix g)\<^sup>* `` {c}"
proof
  show "set (level g c) \<subseteq> (mix g)\<^sup>* `` {c}"
    using flatten_sound(1) [of _ "walk_fuel g" g c "{}"] by (auto simp: level_def)
  have v: "snd (flatten_module (walk_fuel g) g c {}) = set (level g c)"
    using flatten_visited(1) [of "walk_fuel g" g c "{}"] by (simp add: level_def)
  have "c \<in> set (level g c)" "mix_closed g (set (level g c))"
    using flatten_closed(1) [OF walk_fuel_ok, where g = g and vis = "{}" and m = c] v by (auto simp: level_def mix_closed_def)
  then show "(mix g)\<^sup>* `` {c} \<subseteq> set (level g c)"
    using mix_closed_rtrancl by blast
qed

lemma level_closed: "mix_closed g (set (level g c))"
  unfolding set_level mix_closed_def mix_def by (auto intro: rtrancl_into_rtrancl)

lemma level_plain: "prepended (cinfo g c) = [] \<Longrightarrow> included (cinfo g c) = [] \<Longrightarrow> level g c = [c]"
  by (simp add: level_def walk_fuel_def)

text \<open>Only the class itself is not a module in its level.\<close>

lemma level_modules:
  assumes "plain_chain g cs" and "x \<in> set (level g c)" and "x \<noteq> c"
  shows "is_module (cinfo g x)"
proof -
  have "(c, x) \<in> (mix g)\<^sup>+" using assms(2,3) by (auto simp: set_level rtrancl_eq_or_trancl)
  then obtain y where "(y, x) \<in> mix g" by (meson tranclD2)
  then have y: "x \<in> set (mixins g y)" by (simp add: mix_def)
  then have "y < length g" by (auto simp: cinfo_def empty_class_def split: if_splits)
  with y assms(1) show ?thesis unfolding plain_chain_def by blast
qed

section \<open>Method lookup\<close>

fun resolve_levels :: "class_graph \<Rightarrow> symid \<Rightarrow> classid list \<Rightarrow> methid option" where
  "resolve_levels g nm [] = None"
| "resolve_levels g nm (c # cs) =
     (case first_def (own_method g nm) (level g c) of
        Some m \<Rightarrow> Some m
      | None \<Rightarrow> if nm \<in> set (undefed (cinfo g c)) then None else resolve_levels g nm cs)"

lemma walk_chain_step:
  assumes "Suc depth \<le> 4096"
  shows "walk_chain g nm depth c =
    (case first_def (own_method g nm) (level g c) of
       Some m \<Rightarrow> Some m
     | None \<Rightarrow>
         if nm \<in> set (undefed (cinfo g c)) then None
         else case superclass (cinfo g c) of
                None \<Rightarrow> None
              | Some p \<Rightarrow> walk_chain g nm (Suc depth) p)"
proof -
  have "(if prepended (cinfo g c) \<noteq> [] \<or> included (cinfo g c) \<noteq> []
         then fst (walk_module (walk_fuel g) g nm c {}) else own_method g nm c)
      = first_def (own_method g nm) (level g c)"
    using walk_flatten(1) [of "walk_fuel g" g nm c "{}"] level_plain [of g c]
    by (auto simp: level_def [symmetric] split: option.splits)
  then show ?thesis using assms by (subst walk_chain.simps) (simp add: Let_def)
qed

lemma walk_chain_resolve:
  "chain_of g c cs \<Longrightarrow> depth + length cs \<le> 4096 \<Longrightarrow> walk_chain g nm depth c = resolve_levels g nm cs"
  by (induction c cs arbitrary: depth rule: chain_of.induct)
    (simp_all add: walk_chain_step split: option.split)

lemma resolve_dispatch:
  "\<forall>c \<in> set cs. nm \<notin> set (undefed (cinfo g c)) \<Longrightarrow>
   resolve_levels g nm cs = first_def (own_method g nm) (dispatch_order g cs)"
  by (induction cs) (auto simp: dispatch_order_def first_def_append split: option.splits)

text \<open>An undefined name is dead from the tombstone's class down, unless redefined at or below it.\<close>

lemma resolve_tombstone:
  "nm \<in> set (undefed (cinfo g c)) \<Longrightarrow> first_def (own_method g nm) (level g c) = None \<Longrightarrow>
   resolve_levels g nm (cs @ c # ds) = resolve_levels g nm (cs @ [c])"
  by (induction cs) (auto split: option.splits)

section \<open>Super\<close>

lemma super_level:
  "super_module (walk_fuel g) g nm a c past {} = (r, past1, vis1) \<Longrightarrow>
   after_anchor (own_method g nm) a past (level g c) = (r, past1)"
  using super_flatten(1) [where n = "walk_fuel g" and g = g and nm = nm and a = a and m = c and past = past
      and vis = "{}"] by (simp add: level_def)

lemma super_chain_after:
  "chain_of g c cs \<Longrightarrow> depth + length cs \<le> 100000 \<Longrightarrow>
   super_chain g nm a past depth c = fst (after_anchor (own_method g nm) a past (dispatch_order g cs))"
proof (induction c cs arbitrary: depth past rule: chain_of.induct)
  case (chain_root c)
  obtain r past1 vis1 where m: "super_module (walk_fuel g) g nm a c past {} = (r, past1, vis1)"
    by (metis prod_cases3)
  note e = super_level [OF m]
  show ?case
    using chain_root m e
    by (subst super_chain.simps) (auto simp: dispatch_order_def split: option.splits)
next
  case (chain_super c p cs)
  obtain r past1 vis1 where m: "super_module (walk_fuel g) g nm a c past {} = (r, past1, vis1)"
    by (metis prod_cases3)
  note e = super_level [OF m]
  show ?case
    using chain_super m e
    by (subst super_chain.simps)
      (auto simp: dispatch_order_def after_anchor_append split: option.splits)
qed

section \<open>The ancestor list\<close>

fun keep_new :: "'a set \<Rightarrow> 'a list \<Rightarrow> 'a list" where
  "keep_new vis [] = []"
| "keep_new vis (x # xs) = (if x \<in> vis then keep_new vis xs else x # keep_new (insert x vis) xs)"

lemma keep_new_append: "keep_new vis (xs @ ys) = keep_new vis xs @ keep_new (vis \<union> set xs) ys"
  by (induction xs arbitrary: vis) (auto simp: insert_absorb)

lemma keep_new_distinct: "distinct xs \<Longrightarrow> keep_new vis xs = filter (\<lambda>x. x \<notin> vis) xs"
proof (induction xs arbitrary: vis)
  case (Cons x xs)
  then have "filter (\<lambda>y. y \<noteq> x \<and> y \<notin> vis) xs = filter (\<lambda>y. y \<notin> vis) xs"
    by (intro filter_cong) auto
  with Cons show ?case by simp
qed simp

lemma set_keep_new: "set (keep_new vis xs) = set xs - vis"
  by (induction xs arbitrary: vis) auto

lemma distinct_keep_new: "distinct (keep_new vis xs)"
  by (induction xs arbitrary: vis) (auto simp: set_keep_new)

lemma first_def_keep_new: "\<forall>x \<in> vis. f x = None \<Longrightarrow> first_def f (keep_new vis xs) = first_def f xs"
  by (induction xs arbitrary: vis) (auto split: option.splits)

lemma visit_level_flatten:
  assumes "singleton_target (cinfo g c) = None" and "c \<notin> vis"
  shows "visit_level g c vis = flatten_module (walk_fuel g) g c vis"
proof -
  have "visit_level g c vis = flatten_module (Suc (walk_fuel g)) g c vis"
    using assms by (simp add: visit_level_def split: prod.split)
  then show ?thesis using flatten_module_fuel(1) [OF walk_fuel_ok] by simp
qed

lemma visit_level_new:
  assumes "singleton_target (cinfo g c) = None" and "c \<notin> vis" and "mix_closed g vis"
  shows "visit_level g c vis = (keep_new vis (level g c), vis \<union> set (level g c))"
proof -
  let ?f = "flatten_module (walk_fuel g) g c {}"
  have "flatten_module (walk_fuel g) g c ({} \<union> vis) = (filter (\<lambda>x. x \<notin> vis) (fst ?f), snd ?f \<union> vis)"
    by (rule flatten_filter(1) [OF assms(3)])
  moreover have "distinct (fst ?f)" "snd ?f = set (fst ?f)"
    using flatten_visited(1) [of "walk_fuel g" g c "{}"] by simp_all
  ultimately show ?thesis
    using visit_level_flatten [OF assms(1,2)] by (simp add: level_def keep_new_distinct Un_commute)
qed

lemma mix_closed_Un: "mix_closed g A \<Longrightarrow> mix_closed g B \<Longrightarrow> mix_closed g (A \<union> B)"
  by (auto simp: mix_closed_def)

lemma flatten_from_dispatch:
  "chain_of g c cs \<Longrightarrow> plain_chain g cs \<Longrightarrow> mix_closed g vis \<Longrightarrow> vis \<inter> set cs = {} \<Longrightarrow>
   flatten_from g c vis = keep_new vis (dispatch_order g cs)"
proof (induction c cs arbitrary: vis rule: chain_of.induct)
  case (chain_root c)
  then have "singleton_target (cinfo g c) = None" "c \<notin> vis" by (auto simp: plain_chain_def)
  with chain_root show ?case
    by (subst flatten_from.simps) (simp add: visit_level_new dispatch_order_def)
next
  case (chain_super c p cs)
  have st: "singleton_target (cinfo g c) = None" "c \<notin> vis"
    using chain_super.prems by (auto simp: plain_chain_def)
  have d: "c \<notin> set cs"
    using chain_of_distinct [OF chain_of.chain_super [OF chain_super.hyps]] by simp
  have "set (level g c) \<inter> set cs = {}"
  proof (rule ccontr)
    assume "set (level g c) \<inter> set cs \<noteq> {}"
    then obtain x where x: "x \<in> set (level g c)" "x \<in> set cs" by blast
    then have "is_module (cinfo g x)" using level_modules [OF chain_super.prems(1) x(1)] d by blast
    then show False using chain_super.prems(1) x(2) by (simp add: plain_chain_def)
  qed
  then have "(vis \<union> set (level g c)) \<inter> set cs = {}" using chain_super.prems(3) by auto
  moreover have "mix_closed g (vis \<union> set (level g c))"
    by (rule mix_closed_Un [OF chain_super.prems(2) level_closed])
  moreover have "plain_chain g cs" using chain_super.prems(1) by (simp add: plain_chain_def)
  ultimately have "flatten_from g p (vis \<union> set (level g c)) = keep_new (vis \<union> set (level g c)) (dispatch_order g cs)"
    using chain_super.IH by blast
  then show ?case
    using st chain_super by (subst flatten_from.simps)
      (simp add: visit_level_new dispatch_order_def keep_new_append)
qed

lemma flatten_ancestors_dispatch:
  "chain_of g c cs \<Longrightarrow> plain_chain g cs \<Longrightarrow> flatten_ancestors g c = keep_new {} (dispatch_order g cs)"
  unfolding flatten_ancestors_def by (rule flatten_from_dispatch) (simp_all add: mix_closed_def)

lemma set_dispatch_order: "set (dispatch_order g cs) = (mix g)\<^sup>* `` set cs"
  by (auto simp: dispatch_order_def set_level)

section \<open>Class membership\<close>

lemma walks_level: "fst (walks_through (walk_fuel g) g a c {}) \<longleftrightarrow> a \<in> set (level g c)"
  using walks_flatten(1) [of a "{}" "walk_fuel g" g c] by (simp add: level_def)

lemma is_a_run_levels:
  "chain_of g c cs \<Longrightarrow> vis \<inter> set cs = {} \<Longrightarrow> is_a_run g a vis c \<longleftrightarrow> a \<in> set (dispatch_order g cs)"
proof (induction c cs arbitrary: vis rule: chain_of.induct)
  case (chain_root c)
  then show ?case by (subst is_a_run.simps) (simp add: walks_level dispatch_order_def)
next
  case (chain_super c p cs)
  have "c \<notin> set cs"
    using chain_of_distinct [OF chain_of.chain_super [OF chain_super.hyps]] by simp
  then have "insert c vis \<inter> set cs = {}" using chain_super.prems by auto
  from chain_super.IH [OF this] show ?case
    using chain_super.hyps chain_super.prems
    by (subst is_a_run.simps) (simp add: walks_level dispatch_order_def)
qed

lemma is_a_chain_mem:
  "chain_of g c cs \<Longrightarrow> depth + length cs \<le> 1000000 \<Longrightarrow> is_a_chain g a depth c \<longleftrightarrow> a \<in> set cs"
proof (induction c cs arbitrary: depth rule: chain_of.induct)
  case (chain_root c)
  then show ?case by (subst is_a_chain.simps) auto
next
  case (chain_super c p cs)
  then show ?case by (subst is_a_chain.simps) auto
qed

lemma dispatch_non_module:
  assumes "plain_chain g cs" and "\<not> is_module (cinfo g a)"
  shows "a \<in> set (dispatch_order g cs) \<longleftrightarrow> a \<in> set cs"
proof
  assume "a \<in> set (dispatch_order g cs)"
  then obtain c where c: "c \<in> set cs" "a \<in> set (level g c)" by (auto simp: dispatch_order_def)
  then have "a = c" using level_modules [OF assms(1)] assms(2) by blast
  with c show "a \<in> set cs" by simp
qed (auto simp: set_dispatch_order)

lemma class_is_a_dispatch:
  assumes "chain_of g c cs" and "plain_chain g cs" and "length cs \<le> 1000000"
  shows "class_is_a g c a \<longleftrightarrow> a \<in> set (dispatch_order g cs)"
  using is_a_run_levels [OF assms(1), of "{}" a] is_a_chain_mem [OF assms(1), of 0 a] assms(3)
    dispatch_non_module [OF assms(2), of a]
  by (simp add: class_is_a_def)

lemma ancestor_loop_closed:
  "chain_of g c cs \<Longrightarrow> depth + length cs \<le> 1000000 \<Longrightarrow> mix_closed g out \<Longrightarrow>
   ancestor_loop g depth out c = out \<union> set (dispatch_order g cs)"
proof (induction c cs arbitrary: depth out rule: chain_of.induct)
  case (chain_root c)
  then show ?case
    using flatten_filter(1) [OF chain_root.prems(2), of "walk_fuel g" c "{}"]
      flatten_visited(1) [of "walk_fuel g" g c "{}"]
    by (subst ancestor_loop.simps)
      (simp add: Let_def collect_flatten dispatch_order_def level_def Un_commute)
next
  case (chain_super c p cs)
  have c: "collect (walk_fuel g) g c out = out \<union> set (level g c)"
    using flatten_filter(1) [OF chain_super.prems(2), of "walk_fuel g" c "{}"]
      flatten_visited(1) [of "walk_fuel g" g c "{}"]
    by (simp add: collect_flatten level_def Un_commute)
  have "mix_closed g (out \<union> set (level g c))"
    by (rule mix_closed_Un [OF chain_super.prems(2) level_closed])
  from chain_super.IH [OF _ this, of "Suc depth"] show ?case
    using chain_super.hyps chain_super.prems(1) c
    by (subst ancestor_loop.simps) (simp add: Let_def dispatch_order_def Un_assoc)
qed

lemma build_ancestor_set_dispatch:
  "chain_of g c cs \<Longrightarrow> length cs \<le> 1000000 \<Longrightarrow> build_ancestor_set g c = set (dispatch_order g cs)"
  using ancestor_loop_closed [of g c cs 0 "{}"] by (simp add: build_ancestor_set_def mix_closed_def)

section \<open>Properties\<close>

text \<open>
  A small hierarchy for the witnesses: 0 is the root class with method 8; 1 a class that prepends
  module 4 and includes module 2; 2 includes module 3, which defines method 7; 4 defines 9; 3 is
  included by the root as well.
\<close>

definition demo_graph :: class_graph where
  "demo_graph =
     [empty_class\<lparr>included := [3], methods := [(8, 80)]\<rparr>,
      empty_class\<lparr>superclass := Some 0, prepended := [4], included := [2], methods := [(9, 91)]\<rparr>,
      empty_class\<lparr>included := [3], is_module := True\<rparr>,
      empty_class\<lparr>is_module := True, methods := [(7, 73), (8, 83)]\<rparr>,
      empty_class\<lparr>is_module := True, methods := [(9, 94)]\<rparr>]"

lemma demo_chain: "chain_of demo_graph 1 [1, 0]"
  by (rule chain_super [where p = 0], simp add: demo_graph_def cinfo_def)
    (rule chain_root, simp add: demo_graph_def cinfo_def empty_class_def)

lemma less_5: "x < Suc (Suc (Suc (Suc (Suc 0)))) \<longleftrightarrow> x = 0 \<or> x = 1 \<or> x = 2 \<or> x = 3 \<or> x = (4 :: nat)"
  by auto

lemma demo_plain: "plain_chain demo_graph [1, 0]"
  by (auto simp: plain_chain_def demo_graph_def cinfo_def empty_class_def less_5)

lemma demo_ancestors: "flatten_ancestors demo_graph 1 = [4, 1, 2, 3, 0]"
  by code_simp

text \<open>C34. Method lookup and Module#ancestors agree: below an ordinary class, with no undef on its
  superclass chain, the method found by the walk (fresh visited set at every superclass, early
  exit) is the one of the first class in the ancestor list (one visited set for the whole chain)
  that defines the name, and lookup fails exactly when no ancestor defines it.\<close>

theorem dispatch_is_first_ancestor:
  assumes "chain_of g c cs" and "plain_chain g cs" and "length cs \<le> 4096"
    and "\<forall>d \<in> set cs. nm \<notin> set (undefed (cinfo g d))"
  shows "walk_method g c nm = first_def (own_method g nm) (flatten_ancestors g c)"
  using walk_chain_resolve [OF assms(1), of 0 nm] resolve_dispatch [OF assms(4)]
    flatten_ancestors_dispatch [OF assms(1,2)] assms(3)
    first_def_keep_new [of "{}" "own_method g nm" "dispatch_order g cs"]
  by (simp add: walk_method_def)

theorem dispatch_is_first_ancestor_witness:
  "walk_method demo_graph 1 9 = Some 94 \<and> walk_method demo_graph 1 8 = Some 83 \<and>
   walk_method demo_graph 1 6 = None"
  using dispatch_is_first_ancestor [OF demo_chain demo_plain, of 9]
    dispatch_is_first_ancestor [OF demo_chain demo_plain, of 8]
    dispatch_is_first_ancestor [OF demo_chain demo_plain, of 6]
  unfolding demo_ancestors
  by (simp add: demo_graph_def own_method_def cinfo_def empty_class_def)

text \<open>C35. An undef hides the inherited method: if no class of the chain up to and including the one
  that carries the tombstone, and no module mixed into those, defines the name, the lookup answers
  nothing, whatever the classes above define.\<close>

theorem undef_blocks_inherited:
  assumes "chain_of g c (below @ d # rest)" and "length (below @ d # rest) \<le> 4096"
    and "nm \<in> set (undefed (cinfo g d))"
    and "\<forall>x \<in> set (dispatch_order g (below @ [d])). own_method g nm x = None"
  shows "walk_method g c nm = None"
proof -
  have none: "first_def (own_method g nm) (level g x) = None" if "x \<in> set (below @ [d])" for x
    using assms(4) that by (auto simp: first_def_None dispatch_order_def)
  have "resolve_levels g nm (below @ d # rest) = None"
    using none assms(3) by (induction below) auto
  then show ?thesis
    using walk_chain_resolve [OF assms(1), of 0 nm] assms(2) by (simp add: walk_method_def)
qed

definition undef_graph :: class_graph where
  "undef_graph = [empty_class\<lparr>methods := [(8, 80)]\<rparr>, empty_class\<lparr>superclass := Some 0, undefed := [8]\<rparr>]"

theorem undef_blocks_inherited_witness:
  "walk_method undef_graph 1 8 = None \<and> own_method undef_graph 8 0 = Some 80"
proof -
  have "chain_of undef_graph 1 ([] @ 1 # [0])"
    by (simp, rule chain_super [where p = 0], simp add: undef_graph_def cinfo_def)
      (rule chain_root, simp add: undef_graph_def cinfo_def empty_class_def)
  moreover have "level undef_graph 1 = [1]"
    by (rule level_plain) (simp_all add: undef_graph_def cinfo_def empty_class_def)
  then have "\<forall>x \<in> set (dispatch_order undef_graph ([] @ [1])). own_method undef_graph 8 x = None"
    by (simp add: dispatch_order_def own_method_def undef_graph_def cinfo_def empty_class_def)
  ultimately have "walk_method undef_graph 1 8 = None"
    by (intro undef_blocks_inherited [of undef_graph 1 "[]" 1 "[0]" 8])
      (simp_all add: undef_graph_def cinfo_def empty_class_def)
  then show ?thesis by (simp add: own_method_def undef_graph_def cinfo_def empty_class_def)
qed


lemma demo_dispatch: "dispatch_order demo_graph [1, 0] = [4, 1, 2, 3, 0, 3]"
  by code_simp


text \<open>C37. is_a?, rescue matching and the cached ancestor set agree with Module#ancestors: an object's
  class is a given class or module exactly when that is in its ancestor list, the set built for
  the cache is the set of that list, and the list has no duplicates. The pointer walk for class
  targets and the graph walk for module targets answer alike.\<close>

theorem is_a_iff_ancestor:
  assumes "chain_of g c cs" and "plain_chain g cs" and "length cs \<le> 1000000"
  shows "(class_is_a g c a \<longleftrightarrow> a \<in> set (flatten_ancestors g c)) \<and>
    build_ancestor_set g c = set (flatten_ancestors g c) \<and> distinct (flatten_ancestors g c)"
  using class_is_a_dispatch [OF assms, of a] build_ancestor_set_dispatch [OF assms(1,3)]
    flatten_ancestors_dispatch [OF assms(1,2)] set_keep_new [of "{}" "dispatch_order g cs"]
    distinct_keep_new [of "{}" "dispatch_order g cs"]
  by simp

theorem is_a_iff_ancestor_witness:
  "class_is_a demo_graph 1 3 \<and> class_is_a demo_graph 1 0 \<and> \<not> class_is_a demo_graph 1 5"
  using is_a_iff_ancestor [OF demo_chain demo_plain, of 3] is_a_iff_ancestor [OF demo_chain demo_plain, of 0]
    is_a_iff_ancestor [OF demo_chain demo_plain, of 5]
  unfolding demo_ancestors by simp

end
