(* ===== verification/Method_Cache.thy ===== *)
theory Method_Cache
  imports Class_Lookup "HOL-Library.AList"
begin

text \<open>
  The method caches (\<open>vm/lookup.rs\<close>): the global method cache keyed by class pointer and name, the
  polymorphic inline cache of a call site with its tagged keys, and the generation counter that
  invalidates both. The caches are transparent: with the invariant below, every cached lookup
  answers what the walk over the present class graph answers, and any change of the graph that
  bumps the generation keeps the invariant.
\<close>

section \<open>State\<close>

text \<open>
  \<open>addr\<close> is \<open>Rc::as_ptr\<close>: word-aligned and, for the classes of one run, injective (the reuse of a
  dead class's address is the hazard the source accepts for call sites and guards against with
  \<open>Weak\<close> in the global cache). Pointer tags use the free low bits.
\<close>

record cache_entry =
  entry_ptr :: nat
  entry_gen :: nat
  entry_method :: "methid option"

definition entry_default :: cache_entry where
  "entry_default = \<lparr>entry_ptr = 0, entry_gen = 0, entry_method = None\<rparr>"

definition ic_ways :: nat where
  "ic_ways = 5"

record call_cache =
  ways :: "cache_entry list"
  next_way :: nat

definition call_cache_default :: call_cache where
  "call_cache_default = \<lparr>ways = replicate ic_ways entry_default, next_way = 0\<rparr>"

record global_cache =
  gc_generation :: nat
  gc_map :: "((nat \<times> symid) \<times> (classid \<times> methid option)) list"

definition global_cache_cap :: nat where
  "global_cache_cap = 2 ^ 14"

record lookup_state =
  graph :: class_graph
  toplevel_methods :: "symid \<Rightarrow> methid option"
  method_gen :: nat
  method_cache :: global_cache
  call_caches :: "call_cache list"

definition toplevel_key :: nat where
  "toplevel_key = 2 ^ 64 - 1"

definition tag_singleton :: "nat \<Rightarrow> nat" where
  "tag_singleton p = p OR 1"

definition tag_missing :: "nat \<Rightarrow> nat" where
  "tag_missing p = p OR 2"

section \<open>The global cache\<close>

definition gc_get :: "(classid \<Rightarrow> bool) \<Rightarrow> global_cache \<Rightarrow> nat \<Rightarrow> nat \<times> symid \<Rightarrow> methid option option" where
  "gc_get alive gc gen key =
     (if gc_generation gc \<noteq> gen then None
      else case map_of (gc_map gc) key of
             Some (cls, m) \<Rightarrow> if alive cls then Some m else None
           | None \<Rightarrow> None)"

definition gc_put :: "nat \<Rightarrow> nat \<times> symid \<Rightarrow> classid \<Rightarrow> methid option \<Rightarrow> global_cache \<Rightarrow> global_cache" where
  "gc_put gen key cls m gc =
     (let gc1 = (if gc_generation gc \<noteq> gen \<or> global_cache_cap \<le> length (gc_map gc)
                 then \<lparr>gc_generation = gen, gc_map = []\<rparr> else gc)
      in gc1\<lparr>gc_map := AList.update key (cls, m) (gc_map gc1)\<rparr>)"

definition lookup_method_uncached ::
  "(classid \<Rightarrow> nat) \<Rightarrow> (classid \<Rightarrow> bool) \<Rightarrow> classid \<Rightarrow> symid \<Rightarrow> lookup_state \<Rightarrow> methid option \<times> lookup_state" where
  "lookup_method_uncached addr alive cls nm s =
     (let key = (addr cls, nm) in
      case gc_get alive (method_cache s) (method_gen s) key of
        Some m \<Rightarrow> (m, s)
      | None \<Rightarrow>
          let m = walk_method (graph s) cls nm
          in (m, s\<lparr>method_cache := gc_put (method_gen s) key cls m (method_cache s)\<rparr>))"

definition lookup_class_singleton_method ::
  "(classid \<Rightarrow> nat) \<Rightarrow> (classid \<Rightarrow> bool) \<Rightarrow> classid \<Rightarrow> symid \<Rightarrow> lookup_state \<Rightarrow> methid option \<times> lookup_state" where
  "lookup_class_singleton_method addr alive cls nm s =
     (let key = (tag_singleton (addr cls), nm) in
      case gc_get alive (method_cache s) (method_gen s) key of
        Some m \<Rightarrow> (m, s)
      | None \<Rightarrow>
          let m = walk_class_singleton_method (graph s) cls nm
          in (m, s\<lparr>method_cache := gc_put (method_gen s) key cls m (method_cache s)\<rparr>))"

section \<open>The inline cache of a call site\<close>

fun probe_method :: "nat \<Rightarrow> nat \<Rightarrow> cache_entry list \<Rightarrow> methid option option" where
  "probe_method gen p [] = None"
| "probe_method gen p (w # ws) =
     (if entry_gen w \<noteq> gen then probe_method gen p ws
      else if entry_ptr w = p then Some (entry_method w)
      else if entry_ptr w = tag_missing p then Some None
      else probe_method gen p ws)"

fun probe_key :: "nat \<Rightarrow> nat \<Rightarrow> cache_entry list \<Rightarrow> methid option option" where
  "probe_key gen p [] = None"
| "probe_key gen p (w # ws) =
     (if entry_ptr w = p \<and> entry_gen w = gen then Some (entry_method w) else probe_key gen p ws)"

definition insert_way :: "cache_entry \<Rightarrow> call_cache \<Rightarrow> call_cache" where
  "insert_way e cc =
     (let slot = next_way cc mod ic_ways
      in \<lparr>ways = (ways cc)[slot := e], next_way = Suc slot mod ic_ways\<rparr>)"

definition fill_site :: "nat \<Rightarrow> cache_entry \<Rightarrow> lookup_state \<Rightarrow> lookup_state" where
  "fill_site cid e s =
     (if cid < length (call_caches s)
      then s\<lparr>call_caches := (call_caches s)[cid := insert_way e (call_caches s ! cid)]\<rparr> else s)"

definition lookup_method_cached ::
  "(classid \<Rightarrow> nat) \<Rightarrow> (classid \<Rightarrow> bool) \<Rightarrow> classid \<Rightarrow> symid \<Rightarrow> nat \<Rightarrow> lookup_state \<Rightarrow> methid option \<times> lookup_state" where
  "lookup_method_cached addr alive cls nm cid s =
     (case (if cid < length (call_caches s)
            then probe_method (method_gen s) (addr cls) (ways (call_caches s ! cid)) else None) of
        Some m \<Rightarrow> (m, s)
      | None \<Rightarrow>
          (case lookup_method_uncached addr alive cls nm s of (m, s1) \<Rightarrow>
             (m, fill_site cid \<lparr>entry_ptr = addr cls, entry_gen = method_gen s1, entry_method = m\<rparr> s1)))"

definition lookup_class_singleton_cached ::
  "(classid \<Rightarrow> nat) \<Rightarrow> (classid \<Rightarrow> bool) \<Rightarrow> classid \<Rightarrow> symid \<Rightarrow> nat \<Rightarrow> lookup_state \<Rightarrow> methid option \<times> lookup_state" where
  "lookup_class_singleton_cached addr alive cls nm cid s =
     (case (if cid < length (call_caches s)
            then probe_key (method_gen s) (tag_singleton (addr cls)) (ways (call_caches s ! cid)) else None) of
        Some m \<Rightarrow> (m, s)
      | None \<Rightarrow>
          (case lookup_class_singleton_method addr alive cls nm s of (m, s1) \<Rightarrow>
             (m, fill_site cid \<lparr>entry_ptr = tag_singleton (addr cls), entry_gen = method_gen s1,
                               entry_method = m\<rparr> s1)))"

definition lookup_toplevel_method_cached ::
  "symid \<Rightarrow> nat \<Rightarrow> lookup_state \<Rightarrow> methid option \<times> lookup_state" where
  "lookup_toplevel_method_cached nm cid s =
     (case (if cid < length (call_caches s)
            then probe_key (method_gen s) toplevel_key (ways (call_caches s ! cid)) else None) of
        Some m \<Rightarrow> (m, s)
      | None \<Rightarrow>
          (let m = toplevel_methods s nm
           in (m, fill_site cid \<lparr>entry_ptr = toplevel_key, entry_gen = method_gen s, entry_method = m\<rparr> s)))"

definition lookup_toplevel_method_cache_hit :: "nat \<Rightarrow> lookup_state \<Rightarrow> methid option" where
  "lookup_toplevel_method_cache_hit cid s =
     (if cid < length (call_caches s)
      then (case probe_key (method_gen s) toplevel_key (ways (call_caches s ! cid)) of
              Some m \<Rightarrow> m | None \<Rightarrow> None)
      else None)"

definition lookup_method_missing_cache_hit :: "(classid \<Rightarrow> nat) \<Rightarrow> classid \<Rightarrow> nat \<Rightarrow> lookup_state \<Rightarrow> methid option" where
  "lookup_method_missing_cache_hit addr cls cid s =
     (if cid < length (call_caches s)
      then (case probe_key (method_gen s) (tag_missing (addr cls)) (ways (call_caches s ! cid)) of
              Some m \<Rightarrow> m | None \<Rightarrow> None)
      else None)"

text \<open>The fill walks all ways; \<open>mm\<close> is spent on the first current negative entry.\<close>

fun fill_missing_ways :: "nat \<Rightarrow> nat \<Rightarrow> methid option \<Rightarrow> cache_entry list \<Rightarrow> cache_entry list" where
  "fill_missing_ways gen p mm [] = []"
| "fill_missing_ways gen p mm (w # ws) =
     (if entry_ptr w = p \<and> entry_gen w = gen \<and> entry_method w = None then
        (case mm of
           Some m \<Rightarrow> \<lparr>entry_ptr = tag_missing p, entry_gen = gen, entry_method = Some m\<rparr>
                       # fill_missing_ways gen p None ws
         | None \<Rightarrow> w # fill_missing_ways gen p None ws)
      else if entry_ptr w = tag_missing p then entry_default # fill_missing_ways gen p mm ws
      else w # fill_missing_ways gen p mm ws)"

definition fill_method_missing_cached ::
  "(classid \<Rightarrow> nat) \<Rightarrow> classid \<Rightarrow> nat \<Rightarrow> methid \<Rightarrow> lookup_state \<Rightarrow> lookup_state" where
  "fill_method_missing_cached addr cls cid mm s =
     (if cid < length (call_caches s)
      then (let cc = call_caches s ! cid in
            s\<lparr>call_caches := (call_caches s)[cid :=
               cc\<lparr>ways := fill_missing_ways (method_gen s) (addr cls) (Some mm) (ways cc)\<rparr>]\<rparr>)
      else s)"

definition ensure_call_caches :: "nat \<Rightarrow> lookup_state \<Rightarrow> lookup_state" where
  "ensure_call_caches n s =
     (if length (call_caches s) < n
      then s\<lparr>call_caches := call_caches s @ replicate (n - length (call_caches s)) call_cache_default\<rparr>
      else s)"

text \<open>Any change of the class graph or of the toplevel table, with its generation bump.\<close>

definition change_methods :: "class_graph \<Rightarrow> (symid \<Rightarrow> methid option) \<Rightarrow> lookup_state \<Rightarrow> lookup_state" where
  "change_methods g' top' s =
     s\<lparr>graph := g', toplevel_methods := top', method_gen := (method_gen s + 1) mod 2 ^ 32\<rparr>"

section \<open>Invariant\<close>

definition addr_ok :: "(classid \<Rightarrow> nat) \<Rightarrow> bool" where
  "addr_ok addr \<longleftrightarrow> inj addr \<and> (\<forall>c. addr c mod 8 = 0 \<and> 0 < addr c)"

definition entry_ok :: "(classid \<Rightarrow> nat) \<Rightarrow> lookup_state \<Rightarrow> symid \<Rightarrow> cache_entry \<Rightarrow> bool" where
  "entry_ok addr s nm w \<longleftrightarrow>
     entry_gen w \<le> method_gen s \<and>
     (entry_gen w = method_gen s \<longrightarrow>
        (\<forall>c. entry_ptr w = addr c \<longrightarrow> entry_method w = walk_method (graph s) c nm) \<and>
        (\<forall>c. entry_ptr w = tag_singleton (addr c) \<longrightarrow>
           entry_method w = walk_class_singleton_method (graph s) c nm) \<and>
        (\<forall>c. entry_ptr w = tag_missing (addr c) \<longrightarrow> walk_method (graph s) c nm = None) \<and>
        (entry_ptr w = toplevel_key \<longrightarrow> entry_method w = toplevel_methods s nm))"

definition global_ok :: "(classid \<Rightarrow> nat) \<Rightarrow> lookup_state \<Rightarrow> bool" where
  "global_ok addr s \<longleftrightarrow>
     gc_generation (method_cache s) \<le> method_gen s \<and>
     (gc_generation (method_cache s) = method_gen s \<longrightarrow>
       (\<forall>p nm cls m. map_of (gc_map (method_cache s)) (p, nm) = Some (cls, m) \<longrightarrow>
          (\<forall>c. p = addr c \<longrightarrow> m = walk_method (graph s) c nm) \<and>
          (\<forall>c. p = tag_singleton (addr c) \<longrightarrow> m = walk_class_singleton_method (graph s) c nm)))"

text \<open>\<open>site_name\<close> is the method name of each call site, fixed when it is compiled.\<close>

definition caches_ok :: "(classid \<Rightarrow> nat) \<Rightarrow> (nat \<Rightarrow> symid) \<Rightarrow> lookup_state \<Rightarrow> bool" where
  "caches_ok addr site_name s \<longleftrightarrow>
     global_ok addr s \<and>
     (\<forall>i < length (call_caches s).
        length (ways (call_caches s ! i)) = ic_ways \<and>
        (\<forall>w \<in> set (ways (call_caches s ! i)). entry_ok addr s (site_name i) w))"

lemma or_tag: "(8 * q :: nat) OR 1 = 8 * q + 1" "(8 * q :: nat) OR 2 = 8 * q + 2"
proof -
  have low: "\<not> bit (8 * q :: nat) n" if "n = 0 \<or> n = 1" for n
  proof -
    have "8 * q div 2 ^ n = 2 * (if n = 0 then 4 * q else 2 * q)" using that by auto
    then show ?thesis by (simp add: bit_iff_odd)
  qed
  have "8 * q AND 2 ^ 0 = (0 :: nat)" "8 * q AND 2 ^ 1 = (0 :: nat)"
    unfolding and_exp_eq_0_iff_not_bit by (rule low, simp)+
  then have "8 * q AND 1 = (0 :: nat)" "8 * q AND 2 = (0 :: nat)" by simp_all
  then show "8 * q OR 1 = 8 * q + 1" "8 * q OR 2 = 8 * q + 2"
    by (metis disjunctive_add_eq_or)+
qed

lemma tags:
  assumes "addr_ok addr"
  shows "tag_singleton (addr c) = addr c + 1" and "tag_missing (addr c) = addr c + 2"
    and "addr c mod 8 = 0" and "0 < addr c"
proof -
  show m: "addr c mod 8 = 0" and "0 < addr c" using assms by (simp_all add: addr_ok_def)
  then have "addr c = 8 * (addr c div 8)" by (metis add.right_neutral mult_div_mod_eq)
  then show "tag_singleton (addr c) = addr c + 1" and "tag_missing (addr c) = addr c + 2"
    unfolding tag_singleton_def tag_missing_def by (metis or_tag)+
qed

text \<open>Keys of different kinds, or of different classes, never collide.\<close>

lemma key_distinct:
  assumes "addr_ok addr"
  shows "addr c = addr d \<longleftrightarrow> c = d" and "addr c \<noteq> tag_singleton (addr d)"
    and "addr c \<noteq> tag_missing (addr d)" and "tag_singleton (addr c) \<noteq> tag_missing (addr d)"
    and "tag_singleton (addr c) = tag_singleton (addr d) \<longleftrightarrow> c = d"
    and "tag_missing (addr c) = tag_missing (addr d) \<longleftrightarrow> c = d"
    and "addr c \<noteq> toplevel_key" and "tag_singleton (addr c) \<noteq> toplevel_key"
    and "tag_missing (addr c) \<noteq> toplevel_key"
proof -
  note t = tags [OF assms]
  have i: "addr c = addr d \<longleftrightarrow> c = d" for c d using assms by (auto simp: addr_ok_def inj_def)
  have m: "addr c mod 8 = 0" "tag_singleton (addr c) mod 8 = 1" "tag_missing (addr c) mod 8 = 2" for c
    using t(3) [of c] by (simp_all add: t(1,2) mod_Suc mod_add_left_eq [symmetric])
  have k: "toplevel_key mod 8 = 7" by (simp add: toplevel_key_def)
  show "addr c = addr d \<longleftrightarrow> c = d" by (rule i)
  show "tag_singleton (addr c) = tag_singleton (addr d) \<longleftrightarrow> c = d"
    and "tag_missing (addr c) = tag_missing (addr d) \<longleftrightarrow> c = d" by (simp_all add: t i)
  show "addr c \<noteq> tag_singleton (addr d)" and "addr c \<noteq> tag_missing (addr d)"
    and "tag_singleton (addr c) \<noteq> tag_missing (addr d)" and "addr c \<noteq> toplevel_key"
    and "tag_singleton (addr c) \<noteq> toplevel_key" and "tag_missing (addr c) \<noteq> toplevel_key"
    using m k by (metis numeral_eq_iff one_eq_numeral_iff semiring_norm zero_neq_numeral zero_neq_one)+
qed

section \<open>Transparency\<close>

lemma entry_ok_upd [simp]:
  "entry_ok addr (s\<lparr>call_caches := x\<rparr>) nm w = entry_ok addr s nm w"
  "entry_ok addr (s\<lparr>method_cache := gc\<rparr>) nm w = entry_ok addr s nm w"
  by (simp_all add: entry_ok_def)

lemma global_ok_upd [simp]: "global_ok addr (s\<lparr>call_caches := x\<rparr>) = global_ok addr s"
  by (simp add: global_ok_def)

lemma gc_put_ok:
  assumes ok: "global_ok addr s"
    and new: "\<forall>c. p = addr c \<longrightarrow> m = walk_method (graph s) c nm"
      "\<forall>c. p = tag_singleton (addr c) \<longrightarrow> m = walk_class_singleton_method (graph s) c nm"
  shows "global_ok addr (s\<lparr>method_cache := gc_put (method_gen s) (p, nm) cls m (method_cache s)\<rparr>)"
proof -
  define gc1 where "gc1 = (if gc_generation (method_cache s) \<noteq> method_gen s
      \<or> global_cache_cap \<le> length (gc_map (method_cache s))
      then \<lparr>gc_generation = method_gen s, gc_map = []\<rparr> else method_cache s)"
  have g1: "gc_generation gc1 = method_gen s" by (simp add: gc1_def)
  have old: "(\<forall>c. q = addr c \<longrightarrow> v = walk_method (graph s) c n) \<and>
      (\<forall>c. q = tag_singleton (addr c) \<longrightarrow> v = walk_class_singleton_method (graph s) c n)"
    if "map_of (gc_map gc1) (q, n) = Some (k, v)" for q n k v
  proof -
    have "gc1 = method_cache s" "gc_generation (method_cache s) = method_gen s"
      using that by (auto simp: gc1_def split: if_splits)
    with ok that show ?thesis unfolding global_ok_def by blast
  qed
  have put: "gc_put (method_gen s) (p, nm) cls m (method_cache s) =
      gc1\<lparr>gc_map := AList.update (p, nm) (cls, m) (gc_map gc1)\<rparr>"
    by (simp add: gc_put_def Let_def gc1_def)
  show ?thesis
    unfolding put global_ok_def using g1 new old by (simp add: update_conv' split: if_splits)
qed

lemma caches_ok_global:
  assumes "caches_ok addr sn s" and "global_ok addr (s\<lparr>method_cache := gc\<rparr>)"
  shows "caches_ok addr sn (s\<lparr>method_cache := gc\<rparr>)"
  using assms by (simp add: caches_ok_def)

lemma uncached_ok:
  assumes a: "addr_ok addr" and ok: "caches_ok addr sn s"
    and r: "lookup_method_uncached addr alive cls nm s = (m, s')"
  shows "m = walk_method (graph s) cls nm \<and> caches_ok addr sn s' \<and>
    graph s' = graph s \<and> toplevel_methods s' = toplevel_methods s \<and> method_gen s' = method_gen s \<and>
    call_caches s' = call_caches s"
proof (cases "gc_get alive (method_cache s) (method_gen s) (addr cls, nm)")
  case (Some v)
  then show ?thesis
    using r ok by (auto simp: lookup_method_uncached_def gc_get_def caches_ok_def global_ok_def
        split: if_splits option.splits)
next
  case None
  then have m: "m = walk_method (graph s) cls nm"
    and s': "s' = s\<lparr>method_cache := gc_put (method_gen s) (addr cls, nm) cls m (method_cache s)\<rparr>"
    using r by (auto simp: lookup_method_uncached_def Let_def)
  have "global_ok addr s'" unfolding s'
    by (rule gc_put_ok) (use ok m key_distinct [OF a] in \<open>auto simp: caches_ok_def\<close>)
  then show ?thesis using caches_ok_global [OF ok] m s' by simp
qed

lemma singleton_ok:
  assumes a: "addr_ok addr" and ok: "caches_ok addr sn s"
    and r: "lookup_class_singleton_method addr alive cls nm s = (m, s')"
  shows "m = walk_class_singleton_method (graph s) cls nm \<and> caches_ok addr sn s' \<and>
    graph s' = graph s \<and> toplevel_methods s' = toplevel_methods s \<and> method_gen s' = method_gen s \<and>
    call_caches s' = call_caches s"
proof (cases "gc_get alive (method_cache s) (method_gen s) (tag_singleton (addr cls), nm)")
  case (Some v)
  then show ?thesis
    using r ok by (auto simp: lookup_class_singleton_method_def gc_get_def caches_ok_def global_ok_def
        split: if_splits option.splits)
next
  case None
  then have m: "m = walk_class_singleton_method (graph s) cls nm"
    and s': "s' = s\<lparr>method_cache := gc_put (method_gen s) (tag_singleton (addr cls), nm) cls m (method_cache s)\<rparr>"
    using r by (auto simp: lookup_class_singleton_method_def Let_def)
  have ne: "tag_singleton (addr cls) \<noteq> addr c" for c using key_distinct(2) [OF a, of c cls] by metis
  have "global_ok addr s'" unfolding s'
    by (rule gc_put_ok) (use ok m ne key_distinct(5) [OF a] in \<open>auto simp: caches_ok_def\<close>)
  then show ?thesis using caches_ok_global [OF ok] m s' by simp
qed

lemma probe_method_ok:
  assumes "addr_ok addr" and "\<forall>w \<in> set ws. entry_ok addr s nm w"
    and "probe_method (method_gen s) (addr cls) ws = Some m"
  shows "m = walk_method (graph s) cls nm"
  using assms(2,3) by (induction ws) (auto simp: entry_ok_def split: if_splits)

lemma probe_key_mem:
  "probe_key gen p ws = Some m \<Longrightarrow> \<exists>w \<in> set ws. entry_ptr w = p \<and> entry_gen w = gen \<and> entry_method w = m"
  by (induction ws) (auto split: if_splits)

lemma caches_ok_site:
  assumes "caches_ok addr sn s" and "cid < length (call_caches s)" and "length (ways cc) = ic_ways"
    and "\<forall>w \<in> set (ways cc). entry_ok addr s (sn cid) w"
  shows "caches_ok addr sn (s\<lparr>call_caches := (call_caches s)[cid := cc]\<rparr>)"
  unfolding caches_ok_def
proof (intro conjI allI impI)
  show "global_ok addr (s\<lparr>call_caches := (call_caches s)[cid := cc]\<rparr>)"
    using assms(1) by (simp add: caches_ok_def)
  fix i
  assume "i < length (call_caches (s\<lparr>call_caches := (call_caches s)[cid := cc]\<rparr>))"
  then have i: "i < length (call_caches s)" by simp
  show "length (ways (call_caches (s\<lparr>call_caches := (call_caches s)[cid := cc]\<rparr>) ! i)) = ic_ways"
    and "\<forall>w \<in> set (ways (call_caches (s\<lparr>call_caches := (call_caches s)[cid := cc]\<rparr>) ! i)).
      entry_ok addr (s\<lparr>call_caches := (call_caches s)[cid := cc]\<rparr>) (sn i) w"
    using assms i by (cases "i = cid", simp, simp add: caches_ok_def)+
qed

lemma fill_site_ok:
  assumes ok: "caches_ok addr sn s" and e: "cid < length (call_caches s) \<Longrightarrow> entry_ok addr s (sn cid) e"
  shows "caches_ok addr sn (fill_site cid e s)"
proof (cases "cid < length (call_caches s)")
  case True
  let ?cc = "call_caches s ! cid"
  have old: "length (ways ?cc) = ic_ways" "\<forall>w \<in> set (ways ?cc). entry_ok addr s (sn cid) w"
    using ok True by (simp_all add: caches_ok_def)
  have "set (ways (insert_way e ?cc)) \<subseteq> insert e (set (ways ?cc))"
    by (simp add: insert_way_def Let_def set_update_subset_insert)
  then have "\<forall>w \<in> set (ways (insert_way e ?cc)). entry_ok addr s (sn cid) w"
    using old(2) e [OF True] by auto
  moreover have "length (ways (insert_way e ?cc)) = ic_ways"
    using old(1) by (simp add: insert_way_def Let_def)
  ultimately show ?thesis
    using caches_ok_site [OF ok True] True by (simp add: fill_site_def)
qed (simp add: fill_site_def ok)

lemma fill_site_same:
  "graph (fill_site cid e s) = graph s" "toplevel_methods (fill_site cid e s) = toplevel_methods s"
  "method_gen (fill_site cid e s) = method_gen s"
  by (simp_all add: fill_site_def)

lemma cached_ok:
  assumes a: "addr_ok addr" and ok: "caches_ok addr sn s" and nm: "sn cid = nm"
    and r: "lookup_method_cached addr alive cls nm cid s = (m, s')"
  shows "m = walk_method (graph s) cls nm \<and> caches_ok addr sn s' \<and> graph s' = graph s \<and>
    toplevel_methods s' = toplevel_methods s \<and> method_gen s' = method_gen s"
proof (cases "if cid < length (call_caches s)
    then probe_method (method_gen s) (addr cls) (ways (call_caches s ! cid)) else None")
  case (Some v)
  then have c: "cid < length (call_caches s)"
    and p: "probe_method (method_gen s) (addr cls) (ways (call_caches s ! cid)) = Some v"
    by (auto split: if_splits)
  have "\<forall>w \<in> set (ways (call_caches s ! cid)). entry_ok addr s nm w"
    using ok c nm by (auto simp: caches_ok_def)
  from probe_method_ok [OF a this p] have "v = walk_method (graph s) cls nm" .
  moreover have "m = v" "s' = s" using r Some by (simp_all add: lookup_method_cached_def)
  ultimately show ?thesis using ok by simp
next
  case None
  obtain m1 s1 where u: "lookup_method_uncached addr alive cls nm s = (m1, s1)" by force
  note uo = uncached_ok [OF a ok u]
  have s': "m = m1" "s' = fill_site cid \<lparr>entry_ptr = addr cls, entry_gen = method_gen s1, entry_method = m1\<rparr> s1"
    using r None u by (auto simp: lookup_method_cached_def)
  have "entry_ok addr s1 nm \<lparr>entry_ptr = addr cls, entry_gen = method_gen s1, entry_method = m1\<rparr>"
    using uo key_distinct [OF a] by (auto simp: entry_ok_def)
  then have "caches_ok addr sn s'" unfolding s' by (intro fill_site_ok) (use uo nm in simp_all)
  then show ?thesis using uo s' by (simp add: fill_site_same)
qed

lemma singleton_cached_ok:
  assumes a: "addr_ok addr" and ok: "caches_ok addr sn s" and nm: "sn cid = nm"
    and r: "lookup_class_singleton_cached addr alive cls nm cid s = (m, s')"
  shows "m = walk_class_singleton_method (graph s) cls nm \<and> caches_ok addr sn s' \<and> graph s' = graph s \<and>
    toplevel_methods s' = toplevel_methods s \<and> method_gen s' = method_gen s"
proof (cases "if cid < length (call_caches s)
    then probe_key (method_gen s) (tag_singleton (addr cls)) (ways (call_caches s ! cid)) else None")
  case (Some v)
  then have c: "cid < length (call_caches s)"
    and p: "probe_key (method_gen s) (tag_singleton (addr cls)) (ways (call_caches s ! cid)) = Some v"
    by (auto split: if_splits)
  have "\<forall>w \<in> set (ways (call_caches s ! cid)). entry_ok addr s nm w"
    using ok c nm by (auto simp: caches_ok_def)
  with probe_key_mem [OF p] have "v = walk_class_singleton_method (graph s) cls nm"
    by (auto simp: entry_ok_def)
  moreover have "m = v" "s' = s" using r Some by (simp_all add: lookup_class_singleton_cached_def)
  ultimately show ?thesis using ok by simp
next
  case None
  obtain m1 s1 where u: "lookup_class_singleton_method addr alive cls nm s = (m1, s1)" by force
  note uo = singleton_ok [OF a ok u]
  have s': "m = m1" "s' = fill_site cid \<lparr>entry_ptr = tag_singleton (addr cls), entry_gen = method_gen s1,
      entry_method = m1\<rparr> s1"
    using r None u by (auto simp: lookup_class_singleton_cached_def)
  have ne: "tag_singleton (addr cls) \<noteq> addr c" for c using key_distinct(2) [OF a, of c cls] by metis
  have "entry_ok addr s1 nm \<lparr>entry_ptr = tag_singleton (addr cls), entry_gen = method_gen s1, entry_method = m1\<rparr>"
    using uo ne key_distinct [OF a] by (auto simp: entry_ok_def)
  then have "caches_ok addr sn s'" unfolding s' by (intro fill_site_ok) (use uo nm in simp_all)
  then show ?thesis using uo s' by (simp add: fill_site_same)
qed

lemma toplevel_cached_ok:
  assumes a: "addr_ok addr" and ok: "caches_ok addr sn s" and nm: "sn cid = nm"
    and r: "lookup_toplevel_method_cached nm cid s = (m, s')"
  shows "m = toplevel_methods s nm \<and> caches_ok addr sn s' \<and> graph s' = graph s \<and>
    toplevel_methods s' = toplevel_methods s \<and> method_gen s' = method_gen s"
proof (cases "if cid < length (call_caches s)
    then probe_key (method_gen s) toplevel_key (ways (call_caches s ! cid)) else None")
  case (Some v)
  then have c: "cid < length (call_caches s)"
    and p: "probe_key (method_gen s) toplevel_key (ways (call_caches s ! cid)) = Some v"
    by (auto split: if_splits)
  have "\<forall>w \<in> set (ways (call_caches s ! cid)). entry_ok addr s nm w"
    using ok c nm by (auto simp: caches_ok_def)
  with probe_key_mem [OF p] have "v = toplevel_methods s nm" by (auto simp: entry_ok_def)
  moreover have "m = v" "s' = s" using r Some by (simp_all add: lookup_toplevel_method_cached_def)
  ultimately show ?thesis using ok by simp
next
  case None
  let ?e = "\<lparr>entry_ptr = toplevel_key, entry_gen = method_gen s, entry_method = toplevel_methods s nm\<rparr>"
  have s': "m = toplevel_methods s nm" "s' = fill_site cid ?e s"
    using r None by (auto simp: lookup_toplevel_method_cached_def Let_def)
  have ne: "toplevel_key \<noteq> addr c" "toplevel_key \<noteq> tag_singleton (addr c)" "toplevel_key \<noteq> tag_missing (addr c)" for c
    using key_distinct(7,8,9) [OF a, of c] by metis+
  have "entry_ok addr s nm ?e" using ne by (auto simp: entry_ok_def)
  then have "caches_ok addr sn s'" unfolding s' by (intro fill_site_ok) (use ok nm in simp_all)
  then show ?thesis using s' by (simp add: fill_site_same)
qed

lemma entry_default_ok: "addr_ok addr \<Longrightarrow> entry_ok addr s nm entry_default"
proof -
  assume a: "addr_ok addr"
  have nz: "addr c \<noteq> 0" "tag_singleton (addr c) \<noteq> 0" "tag_missing (addr c) \<noteq> 0" for c
    using tags [OF a, of c] by simp_all
  show ?thesis by (simp add: entry_ok_def entry_default_def toplevel_key_def nz nz [THEN not_sym])
qed

lemma fill_missing_ok:
  assumes a: "addr_ok addr" and "\<forall>w \<in> set ws. entry_ok addr s nm w"
  shows "\<forall>w \<in> set (fill_missing_ways (method_gen s) (addr cls) mm ws). entry_ok addr s nm w"
  using assms(2)
proof (induction ws arbitrary: mm)
  case (Cons w ws)
  have d: "entry_ok addr s nm entry_default" by (rule entry_default_ok [OF a])
  have neg: "walk_method (graph s) cls nm = None"
    if "entry_ptr w = addr cls" "entry_gen w = method_gen s" "entry_method w = None"
    using Cons.prems that by (auto simp: entry_ok_def)
  have ne: "tag_missing (addr cls) \<noteq> addr c" "tag_missing (addr cls) \<noteq> tag_singleton (addr c)" for c
    using key_distinct(3) [OF a, of c cls] key_distinct(4) [OF a, of c cls] by metis+
  have new: "entry_ok addr s nm \<lparr>entry_ptr = tag_missing (addr cls), entry_gen = method_gen s, entry_method = Some x\<rparr>"
    if "entry_ptr w = addr cls" "entry_gen w = method_gen s" "entry_method w = None" for x
    using neg [OF that] ne key_distinct(6,9) [OF a] by (auto simp: entry_ok_def)
  show ?case
    using Cons.IH Cons.prems d new by (auto split: option.splits)
qed simp

lemma length_fill_missing [simp]: "length (fill_missing_ways gen p mm ws) = length ws"
  by (induction ws arbitrary: mm) (auto split: option.split)

lemma fill_method_missing_ok:
  assumes a: "addr_ok addr" and ok: "caches_ok addr sn s"
  shows "caches_ok addr sn (fill_method_missing_cached addr cls cid mm s)"
proof (cases "cid < length (call_caches s)")
  case True
  then have "\<forall>w \<in> set (ways (call_caches s ! cid)). entry_ok addr s (sn cid) w"
    using ok by (auto simp: caches_ok_def)
  from fill_missing_ok [OF a this, of cls "Some mm"]
  have "\<forall>w \<in> set (ways ((call_caches s ! cid)\<lparr>ways := fill_missing_ways (method_gen s) (addr cls) (Some mm)
      (ways (call_caches s ! cid))\<rparr>)). entry_ok addr s (sn cid) w" by simp
  moreover have "length (ways (call_caches s ! cid)) = ic_ways" using ok True by (simp add: caches_ok_def)
  ultimately show ?thesis
    using caches_ok_site [OF ok True] True by (simp add: fill_method_missing_cached_def Let_def)
qed (simp add: fill_method_missing_cached_def ok)

text \<open>A generation bump, below the wrap of the counter, makes every entry stale.\<close>

lemma change_methods_ok:
  assumes ok: "caches_ok addr sn s" and gen: "method_gen s < 2 ^ 32 - 1"
  shows "caches_ok addr sn (change_methods g' top' s)"
proof -
  have g: "method_gen (change_methods g' top' s) = Suc (method_gen s)"
    using gen by (simp add: change_methods_def)
  have "entry_ok addr s nm w \<Longrightarrow> entry_ok addr (change_methods g' top' s) nm w" for nm w
    using g by (simp add: entry_ok_def)
  moreover have "global_ok addr (change_methods g' top' s)"
    using ok g by (simp add: caches_ok_def global_ok_def change_methods_def)
  ultimately show ?thesis using ok by (auto simp: caches_ok_def change_methods_def)
qed

lemma ensure_call_caches_ok:
  assumes a: "addr_ok addr" and ok: "caches_ok addr sn s"
  shows "caches_ok addr sn (ensure_call_caches n s)"
proof -
  have "entry_ok addr s' nm entry_default" for s' nm by (rule entry_default_ok [OF a])
  then have d: "\<forall>w \<in> set (ways call_cache_default). entry_ok addr s' nm w" for s' nm
    by (simp add: call_cache_default_def)
  show ?thesis
    unfolding caches_ok_def ensure_call_caches_def
    using ok d by (auto simp: caches_ok_def nth_append call_cache_default_def)
qed

section \<open>Memoised ancestor sets and lists\<close>

text \<open>
  The two thread-local tables of \<open>class_is_a_cached\<close> and \<open>ancestors_cached\<close>: keyed by class
  address, an entry counts only in its generation and for the very class it was made for
  (\<open>Weak::upgrade\<close> and \<open>ptr_eq\<close>). Here no assumption on addresses is needed.
\<close>

type_synonym 'v memo = "(nat \<times> (classid \<times> nat \<times> 'v)) list"

definition memo_get ::
  "(classid \<Rightarrow> nat) \<Rightarrow> nat \<Rightarrow> (class_graph \<Rightarrow> classid \<Rightarrow> 'v) \<Rightarrow> class_graph \<Rightarrow> classid \<Rightarrow> 'v memo \<Rightarrow> 'v \<times> 'v memo" where
  "memo_get addr gen compute g cls memo =
     (let miss = (let v = compute g cls; memo1 = (if 8192 < length memo then [] else memo)
                  in (v, AList.update (addr cls) (cls, gen, v) memo1))
      in case map_of memo (addr cls) of
           Some (owner, egen, v) \<Rightarrow> if egen = gen \<and> owner = cls then (v, memo) else miss
         | None \<Rightarrow> miss)"

definition class_is_a_cached ::
  "(classid \<Rightarrow> nat) \<Rightarrow> nat \<Rightarrow> class_graph \<Rightarrow> classid \<Rightarrow> classid \<Rightarrow> classid set memo \<Rightarrow> bool \<times> classid set memo" where
  "class_is_a_cached addr gen g child ancestor memo =
     (if \<not> is_module (cinfo g ancestor) then (class_is_a g child ancestor, memo)
      else case memo_get addr gen build_ancestor_set g child memo of
             (anc, memo1) \<Rightarrow> (ancestor \<in> anc, memo1))"

definition ancestors_cached ::
  "(classid \<Rightarrow> nat) \<Rightarrow> nat \<Rightarrow> class_graph \<Rightarrow> classid \<Rightarrow> classid list memo \<Rightarrow> classid list \<times> classid list memo" where
  "ancestors_cached addr gen g cls memo = memo_get addr gen flatten_ancestors g cls memo"

definition memo_ok :: "nat \<Rightarrow> (class_graph \<Rightarrow> classid \<Rightarrow> 'v) \<Rightarrow> class_graph \<Rightarrow> 'v memo \<Rightarrow> bool" where
  "memo_ok gen compute g memo \<longleftrightarrow>
     (\<forall>p owner egen v. map_of memo p = Some (owner, egen, v) \<longrightarrow>
        egen \<le> gen \<and> (egen = gen \<longrightarrow> v = compute g owner))"

lemma memo_get_ok:
  assumes ok: "memo_ok gen compute g memo" and r: "memo_get addr gen compute g cls memo = (v, memo')"
  shows "v = compute g cls \<and> memo_ok gen compute g memo'"
proof -
  have miss: "memo_ok gen compute g
      (AList.update (addr cls) (cls, gen, compute g cls) (if 8192 < length memo then [] else memo))"
    using ok by (auto simp: memo_ok_def update_conv')
  show ?thesis
  proof (cases "map_of memo (addr cls)")
    case None
    then show ?thesis using r miss by (auto simp: memo_get_def Let_def)
  next
    case (Some e)
    obtain owner egen w where e: "e = (owner, egen, w)" by (cases e)
    show ?thesis
    proof (cases "egen = gen \<and> owner = cls")
      case True
      moreover have "v = w" "memo' = memo" using r Some e True by (auto simp: memo_get_def Let_def)
      ultimately show ?thesis using ok Some e unfolding memo_ok_def by blast
    next
      case False
      then show ?thesis using r Some e miss by (auto simp: memo_get_def Let_def)
    qed
  qed
qed

lemma memo_ok_bump: "memo_ok gen compute g memo \<Longrightarrow> gen < gen' \<Longrightarrow> memo_ok gen' compute g' memo"
  unfolding memo_ok_def by (metis le_trans less_imp_le_nat not_less)

section \<open>Properties\<close>

text \<open>C38. The method caches are transparent. With a coherent state, the instance, the class-method
  and the top-level lookup through a call site answer what the walk over the present class graph
  (or the top-level table) answers, whatever the site's five ways and the global cache hold, and
  leave a coherent state, and so does converting a negative entry into a method_missing entry;
  and changing the class graph in any way, with its generation bump, keeps coherence as long as
  the 32-bit counter does not wrap.\<close>

theorem method_caches_transparent:
  assumes "addr_ok addr" and "caches_ok addr site_name s"
  shows "(\<forall>m s'. lookup_method_cached addr alive cls (site_name cid) cid s = (m, s') \<longrightarrow>
           m = walk_method (graph s) cls (site_name cid) \<and> caches_ok addr site_name s') \<and>
    (\<forall>m s'. lookup_class_singleton_cached addr alive cls (site_name cid) cid s = (m, s') \<longrightarrow>
           m = walk_class_singleton_method (graph s) cls (site_name cid) \<and> caches_ok addr site_name s') \<and>
    (\<forall>m s'. lookup_toplevel_method_cached (site_name cid) cid s = (m, s') \<longrightarrow>
           m = toplevel_methods s (site_name cid) \<and> caches_ok addr site_name s') \<and>
    caches_ok addr site_name (fill_method_missing_cached addr cls cid mm s) \<and>
    (method_gen s < 2 ^ 32 - 1 \<longrightarrow> caches_ok addr site_name (change_methods g' top' s))"
  using cached_ok [OF assms refl] singleton_cached_ok [OF assms refl] toplevel_cached_ok [OF assms refl]
    fill_method_missing_ok [OF assms] change_methods_ok [OF assms(2)]
  by blast

definition demo_state :: lookup_state where
  "demo_state = \<lparr>graph = demo_graph, toplevel_methods = (\<lambda>_. None), method_gen = 1,
     method_cache = \<lparr>gc_generation = 0, gc_map = []\<rparr>, call_caches = [call_cache_default]\<rparr>"

lemma demo_addr: "addr_ok (\<lambda>c. 8 * c + 8)"
  by (auto simp: addr_ok_def inj_def)

lemma demo_state_ok: "caches_ok (\<lambda>c. 8 * c + 8) (\<lambda>_. 9) demo_state"
  using entry_default_ok [OF demo_addr]
  by (auto simp: caches_ok_def global_ok_def demo_state_def call_cache_default_def)

theorem method_caches_transparent_witness:
  "fst (lookup_method_cached (\<lambda>c. 8 * c + 8) (\<lambda>_. True) 1 9 0 demo_state) = walk_method demo_graph 1 9"
proof -
  obtain m s' where r: "lookup_method_cached (\<lambda>c. 8 * c + 8) (\<lambda>_. True) 1 9 0 demo_state = (m, s')" by force
  have "m = walk_method (graph demo_state) 1 9"
    using method_caches_transparent [OF demo_addr demo_state_ok, of "\<lambda>_. True" 1 0] r by blast
  with r show ?thesis by (simp add: demo_state_def)
qed

text \<open>The memoised is_a? and ancestor list answer what the uncached ones answer on the present
  class graph and keep their tables right, and a generation bump makes a table right for any new
  graph; no assumption about the reuse of class addresses is needed, since an entry only counts for
  the very class it was made for.\<close>

theorem is_a_cache_transparent:
  assumes "memo_ok gen build_ancestor_set g memo" and "chain_of g child cs" and "plain_chain g cs"
    and "length cs \<le> 1000000" and "class_is_a_cached addr gen g child ancestor memo = (b, memo')"
  shows "b = class_is_a g child ancestor \<and> memo_ok gen build_ancestor_set g memo' \<and>
    (gen < gen' \<longrightarrow> memo_ok gen' build_ancestor_set g' memo')"
proof (cases "is_module (cinfo g ancestor)")
  case True
  obtain anc m1 where m: "memo_get addr gen build_ancestor_set g child memo = (anc, m1)" by force
  note ok = memo_get_ok [OF assms(1) m]
  have "b = (ancestor \<in> build_ancestor_set g child)" "memo' = m1"
    using assms(5) True m ok by (simp_all add: class_is_a_cached_def)
  then show ?thesis
    using ok class_is_a_dispatch [OF assms(2,3,4), of ancestor] build_ancestor_set_dispatch [OF assms(2,4)]
      memo_ok_bump [of gen build_ancestor_set g m1 gen' g'] by simp
next
  case False
  then show ?thesis
    using assms(1,5) memo_ok_bump [of gen build_ancestor_set g memo gen' g']
    by (simp add: class_is_a_cached_def)
qed

theorem is_a_cache_transparent_witness:
  "fst (class_is_a_cached (\<lambda>_. 64) 3 demo_graph 1 2 [(64, (0, 3, build_ancestor_set demo_graph 0))])
     = class_is_a demo_graph 1 2"
proof -
  let ?memo = "[(64, (0, 3, build_ancestor_set demo_graph 0))]"
  obtain b m where r: "class_is_a_cached (\<lambda>_. 64) 3 demo_graph 1 2 ?memo = (b, m)" by force
  have "memo_ok 3 build_ancestor_set demo_graph ?memo" by (simp add: memo_ok_def)
  from is_a_cache_transparent [OF this demo_chain demo_plain _ r] r show ?thesis by simp
qed

end
