(* ===== verification/Heap_Model.thy ===== *)
theory Heap_Model
  imports Ivar_Table
begin

text \<open>
  The objects of the garbage-collected heap (\<open>heap.rs\<close>, \<open>HeapObj\<close> and its payload structs;
  \<open>value.rs\<close>, \<open>Instance\<close>, \<open>BlockHandle\<close>, \<open>MethodClosure\<close>; \<open>vm/fiber.rs\<close>, \<open>FiberObject\<close>) and what
  lives beside it: the locals cells that closures share and the tables of the classes, which are
  reference counted and hold heap values. Fields that hold neither a value nor anything an
  operation of this development reads are left out. A C pointer is its address.
\<close>

section \<open>Closures\<close>

text \<open>A locals cell is an \<open>Rc<RefCell<Vec<Value>>>\<close>, named by its identity.\<close>

type_synonym cellid = nat
type_synonym outer_chain = "(cellid \<times> nat) list"

record block_handle =
  bh_proto :: nat
  bh_captured :: cellid
  bh_self_val :: rvalue
  bh_param_start :: nat
  bh_n_params :: nat
  bh_captured_is_method_scope :: bool
  bh_yield_block :: "objid option"
  bh_is_lambda :: bool
  bh_outer_chain :: "outer_chain option"
  bh_creator_start :: nat

record method_closure =
  mc_captured :: cellid
  mc_param_start :: nat
  mc_n_params :: nat
  mc_outer_chain :: "outer_chain option"
  mc_creator_start :: nat
  mc_yield_block :: "objid option"

text \<open>Of a method only its closure matters here; a compiled \<open>def\<close> has none.\<close>

record method_obj =
  m_closure :: "method_closure option"

text \<open>\<open>each_capture_cell\<close>: the captured cell, then every other cell of the chain.\<close>

definition capture_cells :: "cellid \<Rightarrow> outer_chain option \<Rightarrow> cellid list" where
  "capture_cells captured chain =
     captured # (case chain of
                   None \<Rightarrow> []
                 | Some ch \<Rightarrow> filter (\<lambda>c. c \<noteq> captured) (map fst ch))"

definition bh_cells :: "block_handle \<Rightarrow> cellid list" where
  "bh_cells b = capture_cells (bh_captured b) (bh_outer_chain b)"

definition mc_cells :: "method_closure \<Rightarrow> cellid list" where
  "mc_cells m = capture_cells (mc_captured m) (mc_outer_chain m)"

lemma set_capture_cells:
  "set (capture_cells c ch) = insert c (case ch of None \<Rightarrow> {} | Some xs \<Rightarrow> fst ` set xs)"
  by (auto simp: capture_cells_def split: option.splits)

section \<open>Classes as holders of values\<close>

record class_tables =
  ct_superclass :: "classid option"
  ct_ivars :: "(symid \<times> rvalue) list"
  ct_methods :: "(symid \<times> method_obj) list"
  ct_singleton_methods :: "(symid \<times> method_obj) list"
  ct_class_vars :: "(symid \<times> rvalue) list"
  ct_consts :: "(symid \<times> rvalue) list"

definition no_tables :: class_tables where
  "no_tables = \<lparr>ct_superclass = None, ct_ivars = [], ct_methods = [], ct_singleton_methods = [],
     ct_class_vars = [], ct_consts = []\<rparr>"

text \<open>What is shared by reference counting: the contents of the cells and the class tables.\<close>

record world =
  cells :: "rvalue list list"
  classes :: "class_tables list"

definition cell :: "world \<Rightarrow> cellid \<Rightarrow> rvalue list" where
  "cell w c = (if c < length (cells w) then cells w ! c else [])"

definition tables :: "world \<Rightarrow> classid \<Rightarrow> class_tables" where
  "tables w c = (if c < length (classes w) then classes w ! c else no_tables)"

text \<open>
  \<open>cell_store\<close> (\<open>vm.rs\<close>): the store of a captured local goes to the shared cell and not through
  \<open>Heap::get_mut\<close>. A write past the end grows the cell with \<open>nil\<close>.
\<close>

definition cell_store :: "cellid \<Rightarrow> nat \<Rightarrow> rvalue \<Rightarrow> world \<Rightarrow> world" where
  "cell_store c i v w =
     (let t = cell w c;
          t = (if length t \<le> i then t @ replicate (i + 1 - length t) VNil else t)
      in w\<lparr>cells := (cells w)[c := t[i := v]]\<rparr>)"

text \<open>
  \<open>chain_owner_cell\<close>: the last element of the chain whose start is at most the slot. The chain of
  a closure is never empty; the code indexes its first element otherwise.
\<close>

definition chain_owner_cell :: "outer_chain \<Rightarrow> nat \<Rightarrow> cellid" where
  "chain_owner_cell ch i =
     (case find (\<lambda>cs. snd cs \<le> i) (rev ch) of Some cs \<Rightarrow> fst cs | None \<Rightarrow> fst (ch ! 0))"

section \<open>Heap objects\<close>

record instance_obj =
  i_class :: classid
  i_ivars :: ivar_table
  i_singleton :: "classid option"
  i_frozen :: bool

record array_obj =
  a_elems :: "rvalue list"
  a_class_tag :: "classid option"
  a_ivars :: "(symid \<times> rvalue) list"
  a_frozen :: bool

text \<open>
  The cold part of a hash. The two indexes map a hash code to the positions of the pairs whose key
  has that code.
\<close>

record hash_extras =
  hx_default_block :: "objid option"
  hx_default_value :: "rvalue option"
  hx_class_tag :: "classid option"
  hx_ivars :: "(symid \<times> rvalue) list"
  hx_index :: "(u64 \<Rightarrow> nat list option) option"
  hx_user_index :: "(i64 \<Rightarrow> nat list option) option"
  hx_singleton :: "classid option"

record hash_obj =
  h_pairs :: "(rvalue \<times> rvalue) list"
  h_extras :: "hash_extras option"
  h_frozen :: bool
  h_by_identity :: bool

record range_obj =
  r_begin :: rvalue
  r_end :: rvalue
  r_exclusive :: bool

record rational_repr =
  rat_num :: int
  rat_den :: int

record typed_data =
  td_class :: classid
  td_data_ptr :: u64
  td_type_ptr :: u64
  td_dfree :: "u64 option"

datatype fiber_state = Created | Running | Suspended | Returned

text \<open>
  The values of one suspended frame: the shared locals cell if it has one, the capture-routing
  cells, \<open>self\<close>, the pending return value, the block argument, the captured yield block and the
  saved exceptions of the open \<open>begin\<close> bodies (\<open>begin_rescue_depths\<close>).
\<close>

record frame_vals =
  f_locals :: "cellid option"
  f_outer_cell :: "cellid option"
  f_outer_rest :: "outer_chain option"
  f_self_val :: rvalue
  f_swap_return :: "rvalue option"
  f_block_arg :: "objid option"
  f_yield_block :: "objid option"
  f_saved_bangs :: "rvalue list"

record fiber_snapshot =
  fs_frames :: "frame_vals list"
  fs_locals_arena :: "rvalue list"
  fs_stack :: "rvalue list"
  fs_pinned :: "rvalue list"
  fs_method_return :: "rvalue option"
  fs_break_values :: "rvalue list"
  fs_method_breaks :: "rvalue list"

record fiber_obj =
  fb_body_block :: objid
  fb_last_value :: rvalue
  fb_locals :: rvalue
  fb_state :: fiber_state
  fb_snapshot :: fiber_snapshot

datatype heap_obj =
    OInstance instance_obj
  | OArray array_obj
  | OHash hash_obj
  | ORange range_obj
  | OBigInt int
  | ORational rational_repr
  | OBlock block_handle
  | OTypedData typed_data
  | OBoundMethod rvalue symid "method_obj option"
  | OUnboundMethod classid symid "method_obj option"
  | OCurriedProc rvalue "rvalue list" nat
  | OFiber fiber_obj

section \<open>Constructors\<close>

definition array_plain :: "rvalue list \<Rightarrow> array_obj" where
  "array_plain xs = \<lparr>a_elems = xs, a_class_tag = None, a_ivars = [], a_frozen = False\<rparr>"

definition with_pairs :: "(rvalue \<times> rvalue) list \<Rightarrow> hash_obj" where
  "with_pairs ps = \<lparr>h_pairs = ps, h_extras = None, h_frozen = False, h_by_identity = False\<rparr>"

definition extras_default :: hash_extras where
  "extras_default = \<lparr>hx_default_block = None, hx_default_value = None, hx_class_tag = None,
     hx_ivars = [], hx_index = None, hx_user_index = None, hx_singleton = None\<rparr>"

text \<open>\<open>extras_mut\<close> allocates the cold part on first use; the argument is what is done to it.\<close>

definition upd_extras :: "(hash_extras \<Rightarrow> hash_extras) \<Rightarrow> hash_obj \<Rightarrow> hash_obj" where
  "upd_extras f h = h\<lparr>h_extras :=
     Some (f (case h_extras h of None \<Rightarrow> extras_default | Some e \<Rightarrow> e))\<rparr>"

definition with_pairs_tagged :: "(rvalue \<times> rvalue) list \<Rightarrow> classid option \<Rightarrow> hash_obj" where
  "with_pairs_tagged ps tag =
     (if tag = None then with_pairs ps
      else upd_extras (\<lambda>e. e\<lparr>hx_class_tag := tag\<rparr>) (with_pairs ps))"

definition has_default :: "hash_obj \<Rightarrow> bool" where
  "has_default h = (case h_extras h of
      None \<Rightarrow> False
    | Some e \<Rightarrow> hx_default_block e \<noteq> None \<or> hx_default_value e \<noteq> None)"

definition clear_indexes :: "hash_obj \<Rightarrow> hash_obj" where
  "clear_indexes h = (case h_extras h of
      None \<Rightarrow> h
    | Some e \<Rightarrow> h\<lparr>h_extras := Some (e\<lparr>hx_index := None, hx_user_index := None\<rparr>)\<rparr>)"

text \<open>The copy kept for \<open>Runtime::reset\<close> drops both indexes; a fresh hash rebuilds them.\<close>

definition baseline_deep_clone :: "hash_obj \<Rightarrow> hash_obj" where
  "baseline_deep_clone h = clear_indexes h"

lemma clear_indexes_pairs [simp]: "h_pairs (clear_indexes h) = h_pairs h"
  by (simp add: clear_indexes_def split: option.splits)

lemma upd_extras_pairs [simp]: "h_pairs (upd_extras f h) = h_pairs h"
  by (simp add: upd_extras_def)

end
