(* ===== verification/Heap_Gc.thy ===== *)
theory Heap_Gc
  imports Heap_Model
begin

text \<open>
  The garbage-collected heap (\<open>heap.rs\<close>: \<open>Heap\<close>, \<open>alloc\<close>, \<open>get\<close>, \<open>get_mut\<close>, \<open>collect\<close>, \<open>visit_value\<close>,
  the pacing controller; \<open>vm/gc.rs\<close>: \<open>maybe_gc\<close>). A generational mark-sweep collector: a minor
  collection keeps the marks of old objects, walks the remembered ones and sweeps the young
  slots; every eighth collection is a major one over the whole slab. \<open>None\<close> is a Rust panic (an
  index out of bounds, a dead slot).
\<close>

section \<open>The heap\<close>

datatype slot = Live heap_obj | Dead

text \<open>\<open>free\<close> and the worklist are Rust \<open>Vec\<close>s used as stacks; here the head is the top.\<close>

record heap =
  hslots :: "slot list"
  marks :: "bool list"
  free :: "objid list"
  live_count :: nat
  next_gc :: nat
  gc_floor :: nat
  floor_override :: "nat option"
  last_sweep_us :: nat
  old :: "bool list"
  remembered :: "objid list"
  minors_since_major :: nat
  young_slots :: "objid list"
  suspended_fibers :: nat

definition major_every :: nat where
  "major_every = 8"

definition gc_floor_min :: nat where
  "gc_floor_min = 4096"

definition gc_floor_max :: nat where
  "gc_floor_max = 32768"

definition gc_floor_allocs_per_sweep_us :: nat where
  "gc_floor_allocs_per_sweep_us = 16"

text \<open>The argument is \<open>RUBYRS_GC_MIN_THRESHOLD\<close> when it is set to a number.\<close>

definition heap_new :: "nat option \<Rightarrow> heap" where
  "heap_new override =
     (let flr = (case override of Some n \<Rightarrow> n | None \<Rightarrow> gc_floor_min)
      in \<lparr>hslots = [], marks = [], free = [], live_count = 0, next_gc = flr, gc_floor = flr,
          floor_override = override, last_sweep_us = 0, old = [], remembered = [],
          minors_since_major = 0, young_slots = [], suspended_fibers = 0\<rparr>)"

definition alloc :: "heap_obj \<Rightarrow> heap \<Rightarrow> heap \<times> objid" where
  "alloc obj h =
     (let h = h\<lparr>live_count := live_count h + 1\<rparr>
      in case free h of
           i # fs \<Rightarrow>
             (h\<lparr>free := fs, hslots := (hslots h)[i := Live obj], marks := (marks h)[i := False],
                old := (old h)[i := False], young_slots := young_slots h @ [i]\<rparr>, i)
         | [] \<Rightarrow>
             let i = length (hslots h)
             in (h\<lparr>hslots := hslots h @ [Live obj], marks := marks h @ [False],
                   old := old h @ [False], young_slots := young_slots h @ [i]\<rparr>, i))"

definition get :: "heap \<Rightarrow> objid \<Rightarrow> heap_obj option" where
  "get h i =
     (if i < length (hslots h) then (case hslots h ! i of Live ob \<Rightarrow> Some ob | Dead \<Rightarrow> None) else None)"

definition is_live :: "heap \<Rightarrow> objid \<Rightarrow> bool" where
  "is_live h i \<longleftrightarrow> i < length (hslots h) \<and> hslots h ! i \<noteq> Dead"

text \<open>
  \<open>get_mut\<close> hands out the object for a mutation; the argument is what the caller does to it. An
  old object is recorded first (the write barrier).
\<close>

definition barrier :: "objid \<Rightarrow> heap \<Rightarrow> heap" where
  "barrier i h =
     (if i < length (old h) \<and> old h ! i then h\<lparr>remembered := remembered h @ [i]\<rparr> else h)"

definition get_mut :: "objid \<Rightarrow> (heap_obj \<Rightarrow> heap_obj) \<Rightarrow> heap \<Rightarrow> heap option" where
  "get_mut i f h =
     (let h = barrier i h
      in case get h i of
           Some ob \<Rightarrow> Some (h\<lparr>hslots := (hslots h)[i := Live (f ob)]\<rparr>)
         | None \<Rightarrow> None)"

definition should_gc :: "heap \<Rightarrow> bool" where
  "should_gc h \<longleftrightarrow> next_gc h \<le> live_count h"

text \<open>\<open>saturating_mul\<close> and the clamps are in \<open>u64\<close>.\<close>

definition adaptive_floor :: "nat \<Rightarrow> nat" where
  "adaptive_floor cost_us =
     (let target = min (min (cost_us * gc_floor_allocs_per_sweep_us) (2 ^ 64 - 1)) gc_floor_max
      in max gc_floor_min (min gc_floor_max target))"

definition schedule_major :: "heap \<Rightarrow> heap" where
  "schedule_major h = h\<lparr>minors_since_major := major_every - 1\<rparr>"

section \<open>What an object holds\<close>

text \<open>
  The mark phase walks an object as a sequence of items: a value, a locals cell (walked once per
  collection), and the class of an instance (once per collection).
\<close>

datatype item = Val rvalue | Cell cellid | ClassOnce classid

definition opt_vals :: "('a \<Rightarrow> rvalue) \<Rightarrow> 'a option \<Rightarrow> item list" where
  "opt_vals f x = (case x of None \<Rightarrow> [] | Some v \<Rightarrow> [Val (f v)])"

abbreviation vals :: "rvalue list \<Rightarrow> item list" where
  "vals \<equiv> List.map Val"

definition closure_items :: "bool \<Rightarrow> method_obj \<Rightarrow> item list" where
  "closure_items yield_too m =
     (case m_closure m of
        None \<Rightarrow> []
      | Some cl \<Rightarrow> List.map Cell (mc_cells cl) @ (if yield_too then opt_vals VBlock (mc_yield_block cl) else []))"

text \<open>The eigenclass of an instance or of a hash; only the first walks captured yield blocks.\<close>

definition singleton_items :: "bool \<Rightarrow> world \<Rightarrow> classid option \<Rightarrow> item list" where
  "singleton_items yield_too w sc =
     (case sc of
        None \<Rightarrow> []
      | Some c \<Rightarrow> concat (List.map (closure_items yield_too \<circ> snd) (ct_methods (tables w c))) @
                  vals (List.map snd (ct_ivars (tables w c))))"

definition method_opt_items :: "method_obj option \<Rightarrow> item list" where
  "method_opt_items m = (case m of None \<Rightarrow> [] | Some m \<Rightarrow> closure_items False m)"

definition frame_items :: "frame_vals \<Rightarrow> item list" where
  "frame_items f =
     (case f_locals f of None \<Rightarrow> [] | Some c \<Rightarrow> [Cell c]) @
     (case f_outer_cell f of None \<Rightarrow> [] | Some c \<Rightarrow> [Cell c]) @
     (case f_outer_rest f of None \<Rightarrow> [] | Some ch \<Rightarrow> List.map (Cell \<circ> fst) ch) @
     [Val (f_self_val f)] @ opt_vals id (f_swap_return f) @ opt_vals VBlock (f_block_arg f)"

fun obj_items :: "world \<Rightarrow> heap_obj \<Rightarrow> item list" where
  "obj_items w (OInstance i) =
     vals (ivar_values_raw (i_ivars i)) @ [ClassOnce (i_class i)] @ singleton_items True w (i_singleton i)"
| "obj_items w (OArray a) = vals (a_elems a) @ vals (List.map snd (a_ivars a))"
| "obj_items w (OHash h) =
     concat (List.map (\<lambda>(k, v). [Val k, Val v]) (h_pairs h)) @
     (case h_extras h of
        None \<Rightarrow> []
      | Some e \<Rightarrow> opt_vals VBlock (hx_default_block e) @ opt_vals id (hx_default_value e) @
                  vals (List.map snd (hx_ivars e)) @ singleton_items False w (hx_singleton e))"
| "obj_items w (ORange r) = [Val (r_begin r), Val (r_end r)]"
| "obj_items w (OBlock b) =
     List.map Cell (bh_cells b) @ [Val (bh_self_val b)] @ opt_vals VBlock (bh_yield_block b)"
| "obj_items w (OBoundMethod recv nm m) = Val recv # method_opt_items m"
| "obj_items w (OUnboundMethod c nm m) = method_opt_items m"
| "obj_items w (OCurriedProc u gathered n) = Val u # vals gathered"
| "obj_items w (OFiber f) =
     [Val (VBlock (fb_body_block f)), Val (fb_last_value f), Val (fb_locals f)] @
     vals (fs_locals_arena (fb_snapshot f)) @
     concat (List.map frame_items (fs_frames (fb_snapshot f))) @
     vals (fs_stack (fb_snapshot f)) @ vals (fs_pinned (fb_snapshot f)) @
     opt_vals id (fs_method_return (fb_snapshot f))"
| "obj_items w (OBigInt _) = []"
| "obj_items w (ORational _) = []"
| "obj_items w (OTypedData _) = []"

text \<open>
  The values a class holds, in the order of the \<open>Value::Class\<close> arm of \<open>visit_value\<close>, and last its
  superclass.
\<close>

definition closure_vals :: "world \<Rightarrow> method_obj \<Rightarrow> rvalue list" where
  "closure_vals w m =
     (case m_closure m of None \<Rightarrow> [] | Some cl \<Rightarrow> concat (List.map (cell w) (mc_cells cl)))"

definition class_values :: "world \<Rightarrow> classid \<Rightarrow> rvalue list" where
  "class_values w c =
     (let t = tables w c
      in List.map snd (ct_ivars t) @
         concat (List.map (closure_vals w \<circ> snd) (ct_methods t)) @
         concat (List.map (closure_vals w \<circ> snd) (ct_singleton_methods t)) @
         List.map snd (ct_class_vars t) @ List.map snd (ct_consts t) @
         (case ct_superclass t of None \<Rightarrow> [] | Some s \<Rightarrow> [VClass s]))"

section \<open>Marking\<close>

text \<open>A panic is recorded and turned into the result \<open>None\<close> of the collection.\<close>

record mark_state =
  mk :: "bool list"
  wl :: "objid list"
  seen_inst :: "classid set"
  seen_cells :: "cellid set"
  panicked :: bool

fun is_leaf :: "rvalue \<Rightarrow> bool" where
  "is_leaf (VBigInt _) = True"
| "is_leaf (VRational _) = True"
| "is_leaf _ = False"

text \<open>Every arm of \<open>visit_value\<close> but the one for classes: mark, and queue what was not marked.\<close>

definition visit_heap :: "rvalue \<Rightarrow> mark_state \<Rightarrow> mark_state" where
  "visit_heap v s =
     (case heap_ref v of
        None \<Rightarrow> s
      | Some i \<Rightarrow>
          if length (mk s) \<le> i then s\<lparr>panicked := True\<rparr>
          else if is_leaf v then s\<lparr>mk := (mk s)[i := True]\<rparr>
          else if mk s ! i then s
          else s\<lparr>mk := (mk s)[i := True], wl := i # wl s\<rparr>)"

text \<open>The class arm walks the class graph with its own stack and \<open>seen\<close> list.\<close>

type_synonym class_walk_state = "classid list \<times> classid set \<times> mark_state"

fun touch :: "rvalue \<Rightarrow> class_walk_state \<Rightarrow> class_walk_state" where
  "touch (VClass d) (stk, seen, s) =
     (if d \<in> seen then (stk, seen, s) else (d # stk, insert d seen, s))"
| "touch v (stk, seen, s) = (stk, seen, visit_heap v s)"

definition touch_all :: "rvalue list \<Rightarrow> class_walk_state \<Rightarrow> class_walk_state" where
  "touch_all vs st = fold touch vs st"

definition mentioned :: "world \<Rightarrow> classid set" where
  "mentioned w = {d. \<exists>c < length (classes w). VClass d \<in> set (class_values w c)}"

lemma class_values_out: "length (classes w) \<le> c \<Longrightarrow> class_values w c = []"
  by (simp add: class_values_def tables_def no_tables_def)

lemma mentionedI: "VClass d \<in> set (class_values w c) \<Longrightarrow> d \<in> mentioned w"
  using class_values_out [of w c] by (cases "c < length (classes w)") (auto simp: mentioned_def)

lemma finite_mentioned: "finite (mentioned w)"
proof -
  have "mentioned w = (\<Union>c < length (classes w). VClass -` set (class_values w c))"
    by (auto simp: mentioned_def)
  moreover have "finite (VClass -` set (class_values w c))" for c
    by (rule finite_vimageI) (simp_all add: inj_def)
  ultimately show ?thesis by simp
qed

text \<open>What touching a list of values does to the stack and to \<open>seen\<close>.\<close>

lemma touch_all_shape:
  assumes "touch_all vs (stk, seen, s) = (stk', seen', s')"
  shows "\<exists>new. stk' = new @ stk \<and> distinct new \<and> set new \<inter> seen = {} \<and> seen' = seen \<union> set new \<and>
           set new \<subseteq> {d. VClass d \<in> set vs}"
  using assms unfolding touch_all_def
proof (induction vs arbitrary: stk seen s)
  case Nil
  then show ?case by (intro exI [of _ "[]"]) simp
next
  case (Cons v vs)
  obtain stk1 seen1 s1 where t: "touch v (stk, seen, s) = (stk1, seen1, s1)"
    using prod_cases3 by blast
  from Cons.IH [of stk1 seen1 s1] Cons.prems t obtain new where
    n: "stk' = new @ stk1" "distinct new" "set new \<inter> seen1 = {}" "seen' = seen1 \<union> set new"
      "set new \<subseteq> {d. VClass d \<in> set vs}" by auto
  have "\<exists>n1. stk1 = n1 @ stk \<and> distinct n1 \<and> set n1 \<inter> seen = {} \<and> seen1 = seen \<union> set n1 \<and>
      set n1 \<subseteq> {d. VClass d = v}"
  proof (cases "\<exists>d. v = VClass d \<and> d \<notin> seen")
    case True
    then obtain d where "v = VClass d" "d \<notin> seen" by blast
    with t show ?thesis by (intro exI [of _ "[d]"]) auto
  next
    case False
    with t show ?thesis by (intro exI [of _ "[]"]) (cases v; auto split: if_splits)
  qed
  then obtain n1 where "stk1 = n1 @ stk" "distinct n1" "set n1 \<inter> seen = {}" "seen1 = seen \<union> set n1"
    "set n1 \<subseteq> {d. VClass d = v}" by blast
  with n show ?case by (intro exI [of _ "new @ n1"]) auto
qed

text \<open>
  The walk ends: a class is pushed at most once, and there are finitely many classes to push.
\<close>

lemma touch_all_decreases:
  assumes "touch_all (class_values w c) (stk, seen, s) = (stk', seen', s')"
  shows "2 * card (mentioned w - seen') + length stk' < 2 * card (mentioned w - seen) + Suc (length stk)"
proof -
  obtain new where n: "stk' = new @ stk" "distinct new" "set new \<inter> seen = {}"
    "seen' = seen \<union> set new" "set new \<subseteq> {d. VClass d \<in> set (class_values w c)}"
    using touch_all_shape [OF assms] by metis
  have sub: "set new \<subseteq> mentioned w - seen" using n(3,5) by (auto dest: mentionedI)
  have "mentioned w - seen' = (mentioned w - seen) - set new" using n(4) by auto
  then have "card (mentioned w - seen') = card (mentioned w - seen) - length new"
    using sub n(2) by (simp add: card_Diff_subset distinct_card)
  moreover have "length new \<le> card (mentioned w - seen)"
    using sub n(2) finite_mentioned by (metis card_mono distinct_card finite_Diff)
  ultimately show ?thesis using n(1) by simp
qed

function class_walk :: "world \<Rightarrow> classid list \<Rightarrow> classid set \<Rightarrow> mark_state \<Rightarrow> mark_state" where
  "class_walk w [] seen s = s"
| "class_walk w (c # stk) seen s =
     (case touch_all (class_values w c) (stk, seen, s) of
        (stk', seen', s') \<Rightarrow> class_walk w stk' seen' s')"
  by pat_completeness auto

termination
  by (relation "measure (\<lambda>(w, stk, seen, s). 2 * card (mentioned w - seen) + length stk)")
    (auto split: prod.splits dest: touch_all_decreases)

text \<open>\<open>Heap::visit_value\<close>.\<close>

fun visit_value :: "world \<Rightarrow> rvalue \<Rightarrow> mark_state \<Rightarrow> mark_state" where
  "visit_value w (VClass c) s = class_walk w [c] {c} s"
| "visit_value w v s = visit_heap v s"

definition visit_values :: "world \<Rightarrow> rvalue list \<Rightarrow> mark_state \<Rightarrow> mark_state" where
  "visit_values w vs s = fold (visit_value w) vs s"

fun walk_item :: "world \<Rightarrow> item \<Rightarrow> mark_state \<Rightarrow> mark_state" where
  "walk_item w (Val v) s = visit_value w v s"
| "walk_item w (Cell c) s =
     (if c \<in> seen_cells s then s
      else visit_values w (cell w c) (s\<lparr>seen_cells := insert c (seen_cells s)\<rparr>))"
| "walk_item w (ClassOnce c) s =
     (if c \<in> seen_inst s then s
      else visit_value w (VClass c) (s\<lparr>seen_inst := insert c (seen_inst s)\<rparr>))"

definition walk_obj :: "world \<Rightarrow> heap_obj \<Rightarrow> mark_state \<Rightarrow> mark_state" where
  "walk_obj w ob s = fold (walk_item w) (obj_items w ob) s"

section \<open>What marking reaches\<close>

definition marked :: "mark_state \<Rightarrow> objid set" where
  "marked s = {i. i < length (mk s) \<and> mk s ! i}"

definition ids :: "rvalue set \<Rightarrow> objid set" where
  "ids T = {i. \<exists>v\<in>T. heap_ref v = Some i}"

lemma ids_simps [simp]: "ids {} = {}" "ids (S \<union> T) = ids S \<union> ids T"
  by (auto simp: ids_def)

lemma ids_mono: "S \<subseteq> T \<Longrightarrow> ids S \<subseteq> ids T"
  by (auto simp: ids_def)

text \<open>
  \<open>grew s s' T\<close>: from \<open>s\<close> to \<open>s'\<close> only objects named by values of \<open>T\<close> got marked, each was queued
  once unless it is a leaf, and a panic comes from an index of \<open>T\<close> out of bounds.
\<close>

definition grew :: "mark_state \<Rightarrow> mark_state \<Rightarrow> rvalue set \<Rightarrow> bool" where
  "grew s s' T \<longleftrightarrow>
     length (mk s') = length (mk s) \<and> marked s \<subseteq> marked s' \<and> marked s' \<subseteq> marked s \<union> ids T \<and>
     (panicked s' \<longrightarrow> panicked s \<or> (\<exists>i\<in>ids T. length (mk s) \<le> i)) \<and>
     (\<exists>new. wl s' = new @ wl s \<and> distinct new \<and> set new \<subseteq> marked s' - marked s \<and>
        (\<forall>i\<in>marked s' - marked s. i \<in> set new \<or> (\<exists>v\<in>T. is_leaf v \<and> heap_ref v = Some i)))"

definition reached :: "mark_state \<Rightarrow> rvalue set \<Rightarrow> bool" where
  "reached s T \<longleftrightarrow> (\<forall>i\<in>ids T. i < length (mk s) \<longrightarrow> i \<in> marked s)"

lemma grew_refl: "mk s' = mk s \<Longrightarrow> wl s' = wl s \<Longrightarrow> panicked s' = panicked s \<Longrightarrow> grew s s' T"
  by (auto simp: grew_def marked_def)

lemma grew_trans:
  assumes "grew s s' T" and "grew s' s'' T'"
  shows "grew s s'' (T \<union> T')"
proof -
  from assms obtain n1 n2 where
    n1: "wl s' = n1 @ wl s" "distinct n1" "set n1 \<subseteq> marked s' - marked s"
      "\<forall>i\<in>marked s' - marked s. i \<in> set n1 \<or> (\<exists>v\<in>T. is_leaf v \<and> heap_ref v = Some i)"
    and n2: "wl s'' = n2 @ wl s'" "distinct n2" "set n2 \<subseteq> marked s'' - marked s'"
      "\<forall>i\<in>marked s'' - marked s'. i \<in> set n2 \<or> (\<exists>v\<in>T'. is_leaf v \<and> heap_ref v = Some i)"
    unfolding grew_def by blast
  have m: "marked s \<subseteq> marked s'" "marked s' \<subseteq> marked s''" using assms by (auto simp: grew_def)
  have "wl s'' = (n2 @ n1) @ wl s \<and> distinct (n2 @ n1) \<and> set (n2 @ n1) \<subseteq> marked s'' - marked s \<and>
     (\<forall>i\<in>marked s'' - marked s. i \<in> set (n2 @ n1) \<or> (\<exists>v\<in>T \<union> T'. is_leaf v \<and> heap_ref v = Some i))"
  proof (intro conjI ballI)
    fix i assume i: "i \<in> marked s'' - marked s"
    show "i \<in> set (n2 @ n1) \<or> (\<exists>v\<in>T \<union> T'. is_leaf v \<and> heap_ref v = Some i)"
    proof (cases "i \<in> marked s'")
      case True
      then show ?thesis using n1(4) i by auto
    next
      case False
      then show ?thesis using n2(4) i by auto
    qed
  qed (use n1(1-3) n2(1-3) m in auto)
  then have "\<exists>new. wl s'' = new @ wl s \<and> distinct new \<and> set new \<subseteq> marked s'' - marked s \<and>
     (\<forall>i\<in>marked s'' - marked s. i \<in> set new \<or> (\<exists>v\<in>T \<union> T'. is_leaf v \<and> heap_ref v = Some i))" by blast
  with assms show ?thesis by (auto simp: grew_def)
qed

lemma grew_mono: "grew s s' T \<Longrightarrow> T \<subseteq> T' \<Longrightarrow> grew s s' T'"
  using grew_trans [of s s' T s' T'] by (simp add: grew_refl Un_absorb1)

lemma grew_length: "grew s s' T \<Longrightarrow> length (mk s') = length (mk s)"
  by (simp add: grew_def)

lemma grew_marked: "grew s s' T \<Longrightarrow> marked s \<subseteq> marked s'"
  by (simp add: grew_def)

lemma reached_grew: "reached s T \<Longrightarrow> grew s s' T' \<Longrightarrow> reached s' T"
  by (auto simp: reached_def grew_def)

lemma reached_mono: "reached s T \<Longrightarrow> S \<subseteq> T \<Longrightarrow> reached s S"
  using ids_mono [of S T] by (auto simp: reached_def)

lemma reached_Un: "reached s (S \<union> T) \<longleftrightarrow> reached s S \<and> reached s T"
  by (auto simp: reached_def)

lemma reached_UN: "reached s (\<Union>x\<in>A. f x) \<longleftrightarrow> (\<forall>x\<in>A. reached s (f x))"
  by (auto simp: reached_def ids_def)

lemma reached_empty [simp]: "reached s {}"
  by (simp add: reached_def)

definition same_seen :: "mark_state \<Rightarrow> mark_state \<Rightarrow> bool" where
  "same_seen s s' \<longleftrightarrow> seen_cells s' = seen_cells s \<and> seen_inst s' = seen_inst s"

lemma visit_heap_grew:
  "grew s (visit_heap v s) {v} \<and> reached (visit_heap v s) {v} \<and> same_seen s (visit_heap v s)"
proof (cases "heap_ref v")
  case None
  then show ?thesis by (simp add: visit_heap_def grew_refl reached_def ids_def same_seen_def)
next
  case (Some i)
  have ids: "ids {v} = {i}" using Some by (auto simp: ids_def)
  show ?thesis
  proof (cases "length (mk s) \<le> i \<or> (mk s ! i \<and> \<not> is_leaf v)")
    case True
    with Some ids show ?thesis
      by (auto simp: visit_heap_def grew_def reached_def same_seen_def marked_def intro: exI [of _ "[]"])
  next
    case False
    then have i: "i < length (mk s)" and c: "is_leaf v \<or> \<not> mk s ! i" by auto
    have m: "marked (visit_heap v s) = insert i (marked s)"
      using Some i c by (auto simp: visit_heap_def marked_def nth_list_update)
    have "wl (visit_heap v s) = (if is_leaf v then [] else [i]) @ wl s"
      using Some i c by (auto simp: visit_heap_def)
    moreover have "i \<notin> marked s" if "\<not> is_leaf v" using that c by (simp add: marked_def)
    ultimately have "\<exists>new. wl (visit_heap v s) = new @ wl s \<and> distinct new \<and>
        set new \<subseteq> insert i (marked s) - marked s \<and>
        (\<forall>j\<in>insert i (marked s) - marked s. j \<in> set new \<or> (\<exists>u\<in>{v}. is_leaf u \<and> heap_ref u = Some j))"
      using Some by (intro exI [of _ "if is_leaf v then [] else [i]"]) auto
    moreover have "length (mk (visit_heap v s)) = length (mk s)" "panicked (visit_heap v s) = panicked s"
      "same_seen s (visit_heap v s)"
      using Some i c by (auto simp: visit_heap_def same_seen_def)
    ultimately show ?thesis using m ids by (auto simp: grew_def reached_def)
  qed
qed

lemma touch_all_grew:
  "touch_all vs (stk, seen, s) = (stk', seen', s') \<Longrightarrow>
     grew s s' (set vs) \<and> reached s' (set vs) \<and> same_seen s s' \<and>
     seen' = seen \<union> {d. VClass d \<in> set vs}"
  unfolding touch_all_def
proof (induction vs arbitrary: stk seen s)
  case Nil
  then show ?case by (simp add: grew_refl same_seen_def)
next
  case (Cons v vs)
  obtain stk1 seen1 s1 where t: "touch v (stk, seen, s) = (stk1, seen1, s1)"
    using prod_cases3 by blast
  have v: "grew s s1 {v} \<and> reached s1 {v} \<and> same_seen s s1 \<and> seen1 = seen \<union> {d. VClass d = v}"
  proof (cases v)
    case (VClass d)
    with t show ?thesis by (auto simp: grew_refl reached_def ids_def same_seen_def split: if_splits)
  qed (use t visit_heap_grew [of s v] in auto)
  have IH: "grew s1 s' (set vs)" "reached s' (set vs)" "same_seen s1 s'"
    "seen' = seen1 \<union> {d. VClass d \<in> set vs}"
    using Cons.IH [of stk1 seen1 s1] Cons.prems t by auto
  have "grew s s' (set (v # vs))" using grew_trans [of s s1 "{v}" s' "set vs"] v IH(1) by simp
  moreover have "reached s' (set (v # vs))"
    using reached_grew [OF _ IH(1)] v IH(2) reached_Un [of s' "{v}" "set vs"] by simp
  ultimately show ?case using v IH by (auto simp: same_seen_def)
qed

text \<open>The classes a class leads to, and the heap values a value stands for.\<close>

definition class_succ :: "world \<Rightarrow> (classid \<times> classid) set" where
  "class_succ w = {(c, d). VClass d \<in> set (class_values w c)}"

definition class_targets :: "world \<Rightarrow> classid \<Rightarrow> rvalue set" where
  "class_targets w c = (\<Union>d \<in> (class_succ w)\<^sup>* `` {c}. set (class_values w d))"

fun vtargets :: "world \<Rightarrow> rvalue \<Rightarrow> rvalue set" where
  "vtargets w (VClass c) = class_targets w c"
| "vtargets w v = {v}"

lemma class_walk_grew:
  assumes "set stk \<subseteq> seen"
    and "\<forall>d \<in> seen - set stk. reached s (set (class_values w d)) \<and> class_succ w `` {d} \<subseteq> seen"
  shows "grew s (class_walk w stk seen s) (\<Union>c\<in>set stk. class_targets w c) \<and>
    same_seen s (class_walk w stk seen s) \<and>
    (\<exists>fin. seen \<subseteq> fin \<and> (\<forall>d\<in>fin. reached (class_walk w stk seen s) (set (class_values w d)) \<and>
        class_succ w `` {d} \<subseteq> fin))"
  using assms
proof (induction w stk seen s rule: class_walk.induct)
  case (1 w seen s)
  then show ?case by (auto simp: grew_refl same_seen_def intro!: exI [of _ seen])
next
  case (2 w c stk seen s)
  obtain stk' seen' s' where t: "touch_all (class_values w c) (stk, seen, s) = (stk', seen', s')"
    using prod_cases3 by blast
  have g: "grew s s' (set (class_values w c))" "reached s' (set (class_values w c))" "same_seen s s'"
    "seen' = seen \<union> {d. VClass d \<in> set (class_values w c)}"
    using touch_all_grew [OF t] by auto
  obtain new where n: "stk' = new @ stk" "seen' = seen \<union> set new"
    "set new \<subseteq> {d. VClass d \<in> set (class_values w c)}"
    using touch_all_shape [OF t] by metis
  have "\<forall>d \<in> seen' - set stk'. reached s' (set (class_values w d)) \<and> class_succ w `` {d} \<subseteq> seen'"
  proof
    fix d assume d: "d \<in> seen' - set stk'"
    then have "d = c \<or> d \<in> seen - set (c # stk)" using n(1,2) by auto
    then show "reached s' (set (class_values w d)) \<and> class_succ w `` {d} \<subseteq> seen'"
    proof
      assume "d = c"
      then show ?thesis using g(2,4) by (auto simp: class_succ_def)
    next
      assume "d \<in> seen - set (c # stk)"
      then have "reached s (set (class_values w d)) \<and> class_succ w `` {d} \<subseteq> seen" using "2.prems"(2) by blast
      then show ?thesis using reached_grew [OF _ g(1)] n(2) by blast
    qed
  qed
  moreover have "set stk' \<subseteq> seen'" using n(1,2) "2.prems"(1) by auto
  ultimately have IH: "grew s' (class_walk w stk' seen' s') (\<Union>c\<in>set stk'. class_targets w c)"
    "same_seen s' (class_walk w stk' seen' s')"
    "\<exists>fin. seen' \<subseteq> fin \<and> (\<forall>d\<in>fin. reached (class_walk w stk' seen' s') (set (class_values w d)) \<and>
        class_succ w `` {d} \<subseteq> fin)"
    using "2.IH" [OF t [symmetric] refl] by blast+
  have sub: "class_targets w d \<subseteq> class_targets w c" if "d \<in> set new" for d
  proof -
    from that n(3) have "(c, d) \<in> class_succ w" by (auto simp: class_succ_def)
    then show ?thesis by (auto simp: class_targets_def intro: converse_rtrancl_into_rtrancl)
  qed
  have self: "set (class_values w c) \<subseteq> class_targets w c" by (auto simp: class_targets_def)
  have "set (class_values w c) \<union> (\<Union>c\<in>set stk'. class_targets w c) \<subseteq> (\<Union>c\<in>set (c # stk). class_targets w c)"
    using sub self n(1) by auto
  from grew_mono [OF grew_trans [OF g(1) IH(1)] this] t IH(2,3) g(3) n(2)
  show ?case by (auto simp: same_seen_def)
qed

lemma visit_value_grew:
  "grew s (visit_value w v s) (vtargets w v) \<and> reached (visit_value w v s) (vtargets w v) \<and>
   same_seen s (visit_value w v s)"
proof (cases v)
  case (VClass c)
  from class_walk_grew [of "[c]" "{c}" s w] obtain fin where
    g: "grew s (class_walk w [c] {c} s) (class_targets w c)" "same_seen s (class_walk w [c] {c} s)"
    and f: "c \<in> fin" "\<forall>d\<in>fin. reached (class_walk w [c] {c} s) (set (class_values w d)) \<and>
        class_succ w `` {d} \<subseteq> fin" by auto
  have "(c, d) \<in> (class_succ w)\<^sup>* \<Longrightarrow> d \<in> fin" for d
    by (induction rule: rtrancl_induct) (use f in auto)
  then have "reached (class_walk w [c] {c} s) (class_targets w c)"
    unfolding class_targets_def reached_UN using f(2) by auto
  with g VClass show ?thesis by simp
qed (use visit_heap_grew in simp_all)

lemma visit_values_grew:
  "grew s (visit_values w vs s) (\<Union>v\<in>set vs. vtargets w v) \<and>
   reached (visit_values w vs s) (\<Union>v\<in>set vs. vtargets w v) \<and> same_seen s (visit_values w vs s)"
  unfolding visit_values_def
proof (induction vs arbitrary: s)
  case Nil
  then show ?case by (simp add: grew_refl same_seen_def)
next
  case (Cons v vs)
  let ?s = "visit_value w v s" and ?s' = "fold (visit_value w) vs (visit_value w v s)"
  have v: "grew s ?s (vtargets w v)" "reached ?s (vtargets w v)" "same_seen s ?s"
    using visit_value_grew by auto
  have vs: "grew ?s ?s' (\<Union>v\<in>set vs. vtargets w v)" "reached ?s' (\<Union>v\<in>set vs. vtargets w v)" "same_seen ?s ?s'"
    using Cons.IH by auto
  show ?case
    using grew_trans [OF v(1) vs(1)] reached_grew [OF v(2) vs(1)] vs(2) v(3) vs(3)
    by (auto simp: reached_Un same_seen_def)
qed

text \<open>The values an object leads to, and the invariant that makes the two \<open>seen\<close> sets harmless.\<close>

fun item_targets :: "world \<Rightarrow> item \<Rightarrow> rvalue set" where
  "item_targets w (Val v) = vtargets w v"
| "item_targets w (Cell c) = (\<Union>v\<in>set (cell w c). vtargets w v)"
| "item_targets w (ClassOnce c) = class_targets w c"

definition obj_targets :: "world \<Rightarrow> heap_obj \<Rightarrow> rvalue set" where
  "obj_targets w ob = (\<Union>it\<in>set (obj_items w ob). item_targets w it)"

definition seen_ok :: "world \<Rightarrow> mark_state \<Rightarrow> bool" where
  "seen_ok w s \<longleftrightarrow>
     (\<forall>c\<in>seen_cells s. reached s (item_targets w (Cell c))) \<and>
     (\<forall>c\<in>seen_inst s. reached s (item_targets w (ClassOnce c)))"

definition covers :: "world \<Rightarrow> mark_state \<Rightarrow> mark_state \<Rightarrow> rvalue set \<Rightarrow> bool" where
  "covers w s s' T \<longleftrightarrow> grew s s' T \<and> (seen_ok w s \<longrightarrow> seen_ok w s' \<and> reached s' T)"

lemma covers_trans: "covers w s s' T \<Longrightarrow> covers w s' s'' T' \<Longrightarrow> covers w s s'' (T \<union> T')"
  using grew_trans reached_grew by (fastforce simp: covers_def reached_Un)

lemma seen_ok_grew: "seen_ok w s \<Longrightarrow> grew s s' T \<Longrightarrow> same_seen s s' \<Longrightarrow> seen_ok w s'"
  using reached_grew unfolding seen_ok_def same_seen_def by metis

lemma mk_upd [simp]:
  "grew (s\<lparr>seen_cells := X\<rparr>) s' T = grew s s' T" "grew (s\<lparr>seen_inst := X\<rparr>) s' T = grew s s' T"
  "grew (s\<lparr>wl := W\<rparr>) s' T \<Longrightarrow> marked s \<subseteq> marked s'"
  "marked (s\<lparr>wl := W\<rparr>) = marked s" "marked (s\<lparr>panicked := P\<rparr>) = marked s"
  by (auto simp: grew_def marked_def)

lemma walk_item_covers: "covers w s (walk_item w it s) (item_targets w it)"
proof (cases it)
  case (Val v)
  then show ?thesis using visit_value_grew seen_ok_grew by (fastforce simp: covers_def)
next
  case (Cell c)
  let ?s = "visit_values w (cell w c) (s\<lparr>seen_cells := insert c (seen_cells s)\<rparr>)"
  show ?thesis
  proof (cases "c \<in> seen_cells s")
    case True
    with Cell show ?thesis by (auto simp: covers_def grew_refl seen_ok_def)
  next
    case False
    have g: "grew s ?s (item_targets w it)" "reached ?s (item_targets w it)"
      "same_seen (s\<lparr>seen_cells := insert c (seen_cells s)\<rparr>) ?s"
      using visit_values_grew [of "s\<lparr>seen_cells := insert c (seen_cells s)\<rparr>" w "cell w c"] Cell by auto
    then have "seen_ok w s \<longrightarrow> seen_ok w ?s"
      using reached_grew [OF _ g(1)] Cell by (auto simp: seen_ok_def same_seen_def)
    with g False Cell show ?thesis by (simp add: covers_def)
  qed
next
  case (ClassOnce c)
  let ?s = "visit_value w (VClass c) (s\<lparr>seen_inst := insert c (seen_inst s)\<rparr>)"
  show ?thesis
  proof (cases "c \<in> seen_inst s")
    case True
    with ClassOnce show ?thesis by (auto simp: covers_def grew_refl seen_ok_def)
  next
    case False
    have g: "grew s ?s (item_targets w it)" "reached ?s (item_targets w it)"
      "same_seen (s\<lparr>seen_inst := insert c (seen_inst s)\<rparr>) ?s"
      using visit_value_grew [of "s\<lparr>seen_inst := insert c (seen_inst s)\<rparr>" w "VClass c"] ClassOnce by auto
    then have "seen_ok w s \<longrightarrow> seen_ok w ?s"
      using reached_grew [OF _ g(1)] ClassOnce by (auto simp: seen_ok_def same_seen_def)
    with g False ClassOnce show ?thesis by (simp add: covers_def)
  qed
qed

lemma walk_obj_covers: "covers w s (walk_obj w ob s) (obj_targets w ob)"
proof -
  have "covers w s (fold (walk_item w) its s) (\<Union>it\<in>set its. item_targets w it)" for its
  proof (induction its arbitrary: s)
    case Nil
    then show ?case by (simp add: covers_def grew_refl)
  next
    case (Cons it its)
    from covers_trans [OF walk_item_covers Cons.IH] show ?case by simp
  qed
  then show ?thesis by (simp add: walk_obj_def obj_targets_def)
qed

section \<open>The mark loop\<close>

definition potential :: "mark_state \<Rightarrow> nat" where
  "potential s = 2 * card ({..<length (mk s)} - marked s) + length (wl s)"

lemma grew_potential: "grew s s' T \<Longrightarrow> potential s' \<le> potential s"
proof -
  assume g: "grew s s' T"
  then obtain new where n: "wl s' = new @ wl s" "distinct new" "set new \<subseteq> marked s' - marked s"
    by (auto simp: grew_def)
  let ?U = "{..<length (mk s)}"
  have "set new \<subseteq> ?U - marked s" using n(3) grew_length [OF g] by (auto simp: marked_def)
  then have "length new \<le> card (?U - marked s)" using n(2) by (metis card_mono distinct_card finite_Diff finite_lessThan)
  moreover have "?U - marked s' \<subseteq> (?U - marked s) - set new" using n(3) grew_marked [OF g] by auto
  then have "card (?U - marked s') \<le> card (?U - marked s) - length new"
    using \<open>set new \<subseteq> ?U - marked s\<close> n(2)
    by (metis card_Diff_subset card_mono distinct_card finite_Diff finite_lessThan finite_set)
  ultimately show ?thesis using n(1) grew_length [OF g] by (simp add: potential_def)
qed

text \<open>One step of the loop: pop an object and walk it if its slot is live.\<close>

definition mark_step :: "world \<Rightarrow> slot list \<Rightarrow> objid \<Rightarrow> mark_state \<Rightarrow> mark_state" where
  "mark_step w sl i s =
     (if length sl \<le> i then s\<lparr>panicked := True\<rparr>
      else case sl ! i of Live ob \<Rightarrow> walk_obj w ob s | Dead \<Rightarrow> s)"

definition slot_targets :: "world \<Rightarrow> slot list \<Rightarrow> objid \<Rightarrow> rvalue set" where
  "slot_targets w sl i =
     (if i < length sl then (case sl ! i of Live ob \<Rightarrow> obj_targets w ob | Dead \<Rightarrow> {}) else {})"

lemma mark_step_covers:
  "i < length sl \<Longrightarrow> covers w s (mark_step w sl i s) (slot_targets w sl i)"
  using walk_obj_covers
  by (auto simp: mark_step_def slot_targets_def covers_def grew_refl split: slot.splits)

lemma mark_step_potential: "potential (mark_step w sl i s) \<le> potential s"
proof (cases "i < length sl")
  case True
  from mark_step_covers [OF this, of w s] have "grew s (mark_step w sl i s) (slot_targets w sl i)"
    by (simp add: covers_def)
  then show ?thesis by (rule grew_potential)
next
  case False
  then show ?thesis by (simp add: mark_step_def potential_def)
qed

lemma mark_step_pop:
  assumes "wl s = i # rest"
  shows "potential (mark_step w sl i (s\<lparr>wl := rest\<rparr>)) < potential s"
proof -
  have "potential (s\<lparr>wl := rest\<rparr>) < potential s" using assms by (simp add: potential_def)
  then show ?thesis using mark_step_potential le_less_trans by blast
qed

function mark_loop :: "world \<Rightarrow> slot list \<Rightarrow> mark_state \<Rightarrow> mark_state" where
  "mark_loop w sl s =
     (case wl s of
        [] \<Rightarrow> s
      | i # rest \<Rightarrow> mark_loop w sl (mark_step w sl i (s\<lparr>wl := rest\<rparr>)))"
  by pat_completeness auto

termination
  by (relation "measure (\<lambda>(w, sl, s). potential s)") (simp_all add: mark_step_pop)

declare mark_loop.simps [simp del]

text \<open>
  The tricolour invariant: a marked object is on the worklist, or all it leads to is marked. \<open>X\<close> is
  what may be marked.
\<close>

definition tricolour :: "world \<Rightarrow> slot list \<Rightarrow> objid set \<Rightarrow> mark_state \<Rightarrow> bool" where
  "tricolour w sl X s \<longleftrightarrow>
     length (mk s) = length sl \<and> \<not> panicked s \<and> seen_ok w s \<and>
     set (wl s) \<subseteq> marked s \<and> marked s \<subseteq> X \<and>
     (\<forall>i\<in>marked s. i \<in> set (wl s) \<or> ids (slot_targets w sl i) \<subseteq> marked s)"

text \<open>\<open>X\<close> is closed: what its objects lead to is in \<open>X\<close>, in bounds, and a leaf when visited as one.\<close>

definition heap_closed :: "world \<Rightarrow> slot list \<Rightarrow> objid set \<Rightarrow> bool" where
  "heap_closed w sl X \<longleftrightarrow>
     (\<forall>i\<in>X. i < length sl \<and> ids (slot_targets w sl i) \<subseteq> X \<and>
        (\<forall>v\<in>slot_targets w sl i. \<forall>j. is_leaf v \<longrightarrow> heap_ref v = Some j \<longrightarrow> slot_targets w sl j = {}))"

lemma covers_tricolour:
  assumes c: "covers w s s' T" and t: "tricolour w sl X (s\<lparr>wl := W\<rparr>)"
    and T: "ids T \<subseteq> X" "\<forall>i\<in>X. i < length sl"
      "\<forall>v\<in>T. \<forall>j. is_leaf v \<longrightarrow> heap_ref v = Some j \<longrightarrow> slot_targets w sl j = {}"
    and W: "set W \<subseteq> set V \<union> {i. ids (slot_targets w sl i) \<subseteq> ids T}" "set (wl s) \<subseteq> set W"
      "set (wl s') \<subseteq> set V" "set V \<subseteq> set W \<union> set (wl s')"
  shows "tricolour w sl X (s'\<lparr>wl := V\<rparr>)"
proof -
  have g: "grew s s' T" using c by (simp add: covers_def)
  have so: "seen_ok w s" using t by (simp add: tricolour_def seen_ok_def reached_def marked_def)
  then have r: "seen_ok w s'" "reached s' T" using c by (auto simp: covers_def)
  obtain new where n: "wl s' = new @ wl s" "set new \<subseteq> marked s' - marked s"
      "\<forall>i\<in>marked s' - marked s. i \<in> set new \<or> (\<exists>v\<in>T. is_leaf v \<and> heap_ref v = Some i)"
    using g by (auto simp: grew_def)
  have len: "length (mk s') = length sl" using grew_length [OF g] t by (simp add: tricolour_def)
  have TM: "ids T \<subseteq> marked s'" using r(2) T(1,2) len by (auto simp: reached_def)
  have black: "i \<in> set V \<or> ids (slot_targets w sl i) \<subseteq> marked s'" if i: "i \<in> marked s'" for i
  proof (cases "i \<in> marked s")
    case True
    then consider "i \<in> set W" | "ids (slot_targets w sl i) \<subseteq> marked s"
      using t by (auto simp: tricolour_def)
    then show ?thesis using W(1) TM grew_marked [OF g] by cases auto
  next
    case False
    with i n(3) consider "i \<in> set new" | v where "v \<in> T" "is_leaf v" "heap_ref v = Some i" by blast
    then show ?thesis using n(1) T(3) W(3) by cases auto
  qed
  have "length (mk s) = length sl" "\<not> panicked s" using t by (simp_all add: tricolour_def)
  moreover have "i < length sl" if "i \<in> ids T" for i using that T(1,2) by blast
  moreover have "panicked s' \<longrightarrow> panicked s \<or> (\<exists>i\<in>ids T. length (mk s) \<le> i)"
    using g by (simp add: grew_def)
  ultimately have "\<not> panicked s'" by (metis leD)
  moreover have "set W \<subseteq> marked s" using t by (simp add: tricolour_def)
  then have "set V \<subseteq> marked s'" using n(1,2) grew_marked [OF g] W(2,4) by (simp, blast)
  moreover have "marked s' \<subseteq> X" using g t T(1) by (auto simp: grew_def tricolour_def)
  moreover have "seen_ok w (s'\<lparr>wl := V\<rparr>)" using r(1) by (simp add: seen_ok_def reached_def)
  ultimately show ?thesis using len black by (simp add: tricolour_def)
qed

lemma mark_loop_tricolour:
  assumes "tricolour w sl X s" and "heap_closed w sl X"
  shows "tricolour w sl X (mark_loop w sl s) \<and> wl (mark_loop w sl s) = [] \<and>
    marked s \<subseteq> marked (mark_loop w sl s)"
  using assms
proof (induction w sl s rule: mark_loop.induct)
  case (1 w sl s)
  note cl = 1(3)
  show ?case
  proof (cases "wl s")
    case Nil
    with 1(2) show ?thesis by (simp add: mark_loop.simps [of w sl s])
  next
    case (Cons i rest)
    let ?s = "mark_step w sl i (s\<lparr>wl := rest\<rparr>)"
    have iX: "i \<in> X" using 1(2) Cons by (auto simp: tricolour_def)
    then have i: "i < length sl" "ids (slot_targets w sl i) \<subseteq> X"
      "\<forall>v\<in>slot_targets w sl i. \<forall>j. is_leaf v \<longrightarrow> heap_ref v = Some j \<longrightarrow> slot_targets w sl j = {}"
      using bspec [OF cl [unfolded heap_closed_def], of i] by simp_all
    have X: "\<forall>i\<in>X. i < length sl" using cl by (simp add: heap_closed_def)
    have c: "covers w (s\<lparr>wl := rest\<rparr>) ?s (slot_targets w sl i)" by (rule mark_step_covers [OF i(1)])
    have eq: "s\<lparr>wl := i # rest\<rparr> = s" using Cons [symmetric] by simp
    have "tricolour w sl X (?s\<lparr>wl := wl ?s\<rparr>)"
      by (rule covers_tricolour [OF c _ i(2) X i(3), of "i # rest"])
        (use 1(2) eq c in \<open>auto simp: covers_def grew_def\<close>)
    then have "tricolour w sl X ?s" by simp
    from 1(1) [OF Cons this cl] show ?thesis
      using Cons c by (auto simp: mark_loop.simps [of w sl s] covers_def dest!: grew_marked)
  qed
qed

end
