(* ===== verification/Heap_Collect.thy ===== *)
theory Heap_Collect
  imports Heap_Gc
begin

text \<open>
  The collection itself (\<open>Heap::collect\<close> in \<open>heap.rs\<close>, \<open>maybe_gc\<close> in \<open>vm/gc.rs\<close>): the choice between a
  minor and a major collection, the marking from the roots and the remembered objects, the two
  sweeps and the pacing of the next trigger. Then the invariant of the heap, its preservation by
  every operation, and what it gives: reachable objects survive, a major collection frees all the
  others, and no operation meets a freed slot, as long as old objects are changed through the
  write barrier. The last section shows two changes that bypass it or the mark phase.
\<close>

section \<open>The collection\<close>

text \<open>The sweep of one slot: promote a marked object, free an unmarked one.\<close>

record sweep_state =
  sw_slots :: "slot list"
  sw_old :: "bool list"
  sw_free :: "objid list"
  sw_kept :: nat
  sw_freed :: nat
  sw_pending :: "(u64 \<times> u64) list"
  sw_fibers :: nat

fun pending_free :: "heap_obj \<Rightarrow> (u64 \<times> u64) list" where
  "pending_free (OTypedData d) =
     (case td_dfree d of Some f \<Rightarrow> [(f, td_data_ptr d)] | None \<Rightarrow> [])"
| "pending_free _ = []"

text \<open>\<open>forget_suspended_fiber\<close>.\<close>

fun forget_suspended :: "heap_obj \<Rightarrow> nat \<Rightarrow> nat" where
  "forget_suspended (OFiber f) n = (if 0 < n \<and> fb_state f = Suspended then n - 1 else n)"
| "forget_suspended _ n = n"

definition sweep_slot :: "bool list \<Rightarrow> objid \<Rightarrow> sweep_state \<Rightarrow> sweep_state" where
  "sweep_slot m i s =
     (case sw_slots s ! i of
        Dead \<Rightarrow> s
      | Live ob \<Rightarrow>
          if m ! i then s\<lparr>sw_old := (sw_old s)[i := True], sw_kept := sw_kept s + 1\<rparr>
          else s\<lparr>sw_pending := sw_pending s @ pending_free ob,
                 sw_fibers := forget_suspended ob (sw_fibers s),
                 sw_slots := (sw_slots s)[i := Dead],
                 sw_free := i # sw_free s,
                 sw_old := (sw_old s)[i := False],
                 sw_freed := sw_freed s + 1\<rparr>)"

definition sweep :: "bool list \<Rightarrow> objid list \<Rightarrow> heap \<Rightarrow> sweep_state" where
  "sweep m is h =
     fold (sweep_slot m) is
       \<lparr>sw_slots = hslots h, sw_old = old h, sw_free = free h, sw_kept = 0, sw_freed = 0,
        sw_pending = [], sw_fibers = suspended_fibers h\<rparr>"

definition is_minor :: "heap \<Rightarrow> bool" where
  "is_minor h \<longleftrightarrow> minors_since_major h + 1 < major_every"

text \<open>The marks a collection starts from: a minor one only resets the young region.\<close>

definition reset_marks :: "heap \<Rightarrow> bool list" where
  "reset_marks h =
     (if is_minor h then fold (\<lambda>y m. m[y := False]) (young_slots h) (marks h)
      else replicate (length (marks h)) False)"

definition sorted_dedup :: "nat list \<Rightarrow> nat list" where
  "sorted_dedup xs = remdups_adj (sort xs)"

text \<open>
  The mark phase: the roots, then (in a minor collection) the remembered objects, pushed in
  ascending order, then the loop.
\<close>

definition mark_phase :: "world \<Rightarrow> rvalue list \<Rightarrow> heap \<Rightarrow> mark_state" where
  "mark_phase w roots h =
     (let s0 = \<lparr>mk = reset_marks h, wl = [], seen_inst = {}, seen_cells = {}, panicked = False\<rparr>;
          s1 = visit_values w roots s0;
          s2 = (if is_minor h then s1\<lparr>wl := rev (sorted_dedup (remembered h)) @ wl s1\<rparr> else s1)
      in mark_loop w (hslots h) s2)"

text \<open>
  \<open>Heap::collect\<close>. Arguments: the growth factor (\<open>RUBYRS_GC_GROWTH\<close>, by default 2) and the
  elapsed time in microseconds. The result has the pending \<open>dfree\<close> calls.
\<close>

definition collect ::
  "nat \<Rightarrow> nat \<Rightarrow> world \<Rightarrow> rvalue list \<Rightarrow> heap \<Rightarrow> (heap \<times> (u64 \<times> u64) list) option" where
  "collect growth sweep_us w roots h =
     (let minor = is_minor h;
          s = mark_phase w roots h
      in if panicked s \<or> (minor \<and> (\<exists>y\<in>set (young_slots h). length (marks h) \<le> y)) then None
         else
           let sw = sweep (mk s) (if minor then young_slots h else [0..<length (hslots h)]) h;
               live = (if minor then live_count h - sw_freed sw else sw_kept sw);
               flr = (case floor_override h of
                        Some f \<Rightarrow> f
                      | None \<Rightarrow> adaptive_floor (min sweep_us (last_sweep_us h)))
           in Some
                (h\<lparr>hslots := sw_slots sw, marks := mk s, free := sw_free sw, live_count := live,
                   next_gc := max (live * growth) flr,
                   gc_floor := (if floor_override h = None then flr else gc_floor h),
                   last_sweep_us := sweep_us, old := sw_old sw, remembered := [],
                   minors_since_major := (if minor then minors_since_major h + 1 else 0),
                   young_slots := [], suspended_fibers := sw_fibers sw\<rparr>,
                 sw_pending sw))"

text \<open>
  \<open>maybe_gc\<close>: nothing below the trigger unless stressed; \<open>RUBYRS_GC_DISABLE\<close> pushes the trigger out
  of reach instead of collecting (\<open>usize::MAX\<close>).
\<close>

definition maybe_gc ::
  "bool \<Rightarrow> bool \<Rightarrow> nat \<Rightarrow> nat \<Rightarrow> world \<Rightarrow> rvalue list \<Rightarrow> heap \<Rightarrow> (heap \<times> (u64 \<times> u64) list) option" where
  "maybe_gc stress disabled growth sweep_us w roots h =
     (if \<not> stress \<and> \<not> should_gc h then Some (h, [])
      else if disabled then Some (h\<lparr>next_gc := 2 ^ 64 - 1\<rparr>, [])
      else collect growth sweep_us w roots h)"

section \<open>The sweep\<close>

definition doomed :: "bool list \<Rightarrow> slot list \<Rightarrow> objid \<Rightarrow> bool" where
  "doomed m sl i \<longleftrightarrow> sl ! i \<noteq> Dead \<and> \<not> m ! i"

definition kept :: "bool list \<Rightarrow> slot list \<Rightarrow> objid \<Rightarrow> bool" where
  "kept m sl i \<longleftrightarrow> sl ! i \<noteq> Dead \<and> m ! i"

definition slot_pending :: "slot list \<Rightarrow> objid \<Rightarrow> (u64 \<times> u64) list" where
  "slot_pending sl i = (case sl ! i of Live ob \<Rightarrow> pending_free ob | Dead \<Rightarrow> [])"

lemma sweep_fold:
  assumes "distinct is" and "\<forall>i\<in>set is. i < length (sw_slots s)" and "length (sw_old s) = length (sw_slots s)"
  shows "let s' = fold (sweep_slot m) is s; sl = sw_slots s in
    length (sw_slots s') = length sl \<and> length (sw_old s') = length sl \<and>
    (\<forall>i < length sl. sw_slots s' ! i = (if i \<in> set is \<and> doomed m sl i then Dead else sl ! i)) \<and>
    (\<forall>i < length sl. sw_old s' ! i = (if i \<in> set is \<and> sl ! i \<noteq> Dead then m ! i else sw_old s ! i)) \<and>
    sw_free s' = rev (filter (doomed m sl) is) @ sw_free s \<and>
    sw_kept s' = sw_kept s + length (filter (kept m sl) is) \<and>
    sw_freed s' = sw_freed s + length (filter (doomed m sl) is) \<and>
    sw_pending s' = sw_pending s @ concat (List.map (slot_pending sl) (filter (doomed m sl) is))"
  using assms
proof (induction "is" arbitrary: s)
  case Nil
  then show ?case by simp
next
  case (Cons j js)
  let ?s = "sweep_slot m j s" and ?sl = "sw_slots s"
  have j: "j < length ?sl" "j \<notin> set js" using Cons.prems by auto
  have len: "length (sw_slots ?s) = length ?sl" "length (sw_old ?s) = length (sw_slots ?s)"
    using Cons.prems(3) by (auto simp: sweep_slot_def split: slot.splits)
  have same: "doomed m (sw_slots ?s) i = doomed m ?sl i" "kept m (sw_slots ?s) i = kept m ?sl i"
      "slot_pending (sw_slots ?s) i = slot_pending ?sl i" "sw_slots ?s ! i = ?sl ! i" "sw_old ?s ! i = sw_old s ! i"
    if "i \<noteq> j" for i
    using that by (auto simp: sweep_slot_def doomed_def kept_def slot_pending_def nth_list_update split: slot.splits)
  have ne: "i \<noteq> j" if "i \<in> set js" for i using that j(2) by auto
  have fl: "filter (doomed m (sw_slots ?s)) js = filter (doomed m ?sl) js"
      "filter (kept m (sw_slots ?s)) js = filter (kept m ?sl) js"
    using same(1,2) ne by (auto intro: filter_cong)
  have pn: "concat (List.map (slot_pending (sw_slots ?s)) (filter (doomed m ?sl) js)) =
      concat (List.map (slot_pending ?sl) (filter (doomed m ?sl) js))"
    using same(3) ne by (intro arg_cong [of _ _ concat] map_cong) auto
  have IH: "let s' = fold (sweep_slot m) js ?s; sl = sw_slots ?s in
    length (sw_slots s') = length sl \<and> length (sw_old s') = length sl \<and>
    (\<forall>i < length sl. sw_slots s' ! i = (if i \<in> set js \<and> doomed m sl i then Dead else sl ! i)) \<and>
    (\<forall>i < length sl. sw_old s' ! i = (if i \<in> set js \<and> sl ! i \<noteq> Dead then m ! i else sw_old ?s ! i)) \<and>
    sw_free s' = rev (filter (doomed m sl) js) @ sw_free ?s \<and>
    sw_kept s' = sw_kept ?s + length (filter (kept m sl) js) \<and>
    sw_freed s' = sw_freed ?s + length (filter (doomed m sl) js) \<and>
    sw_pending s' = sw_pending ?s @ concat (List.map (slot_pending sl) (filter (doomed m sl) js))"
    by (rule Cons.IH) (use Cons.prems len in auto)
  have here: "sw_slots ?s ! j = (if doomed m ?sl j then Dead else ?sl ! j)"
      "sw_old ?s ! j = (if ?sl ! j \<noteq> Dead then m ! j else sw_old s ! j)"
      "sw_free ?s = (if doomed m ?sl j then [j] else []) @ sw_free s"
      "sw_kept ?s = sw_kept s + (if kept m ?sl j then 1 else 0)"
      "sw_freed ?s = sw_freed s + (if doomed m ?sl j then 1 else 0)"
      "sw_pending ?s = sw_pending s @ (if doomed m ?sl j then slot_pending ?sl j else [])"
    using j(1) Cons.prems(3)
    by (auto simp: sweep_slot_def doomed_def kept_def slot_pending_def split: slot.splits)
  let ?s' = "fold (sweep_slot m) js ?s"
  have sl: "\<forall>i < length ?sl. sw_slots ?s' ! i = (if i \<in> set (j # js) \<and> doomed m ?sl i then Dead else ?sl ! i)"
  proof (intro allI impI)
    fix i assume "i < length ?sl"
    then show "sw_slots ?s' ! i = (if i \<in> set (j # js) \<and> doomed m ?sl i then Dead else ?sl ! i)"
      using IH here(1) j(2) same(1,4) [of i] len(1) by (cases "i = j") (auto simp: Let_def)
  qed
  have od: "\<forall>i < length ?sl. sw_old ?s' ! i = (if i \<in> set (j # js) \<and> ?sl ! i \<noteq> Dead then m ! i else sw_old s ! i)"
  proof (intro allI impI)
    fix i assume "i < length ?sl"
    then show "sw_old ?s' ! i = (if i \<in> set (j # js) \<and> ?sl ! i \<noteq> Dead then m ! i else sw_old s ! i)"
      using IH here(2) j(2) same(4,5) [of i] len(1) by (cases "i = j") (auto simp: Let_def)
  qed
  have rest: "sw_free ?s' = rev (filter (doomed m ?sl) (j # js)) @ sw_free s"
      "sw_kept ?s' = sw_kept s + length (filter (kept m ?sl) (j # js))"
      "sw_freed ?s' = sw_freed s + length (filter (doomed m ?sl) (j # js))"
      "sw_pending ?s' = sw_pending s @ concat (List.map (slot_pending ?sl) (filter (doomed m ?sl) (j # js)))"
      "length (sw_slots ?s') = length ?sl" "length (sw_old ?s') = length ?sl"
    using IH here fl pn len by (simp_all add: Let_def)
  show ?case using sl od rest by (simp add: Let_def)
qed

section \<open>The invariant\<close>

definition live_ids :: "heap \<Rightarrow> objid set" where
  "live_ids h = {i. i < length (hslots h) \<and> hslots h ! i \<noteq> Dead}"

definition old_ids :: "heap \<Rightarrow> objid set" where
  "old_ids h = {i. i < length (hslots h) \<and> hslots h ! i \<noteq> Dead \<and> old h ! i}"

text \<open>Integers and rationals of the heap hold no values.\<close>

definition leaf_slot :: "slot list \<Rightarrow> objid \<Rightarrow> bool" where
  "leaf_slot sl i \<longleftrightarrow> i < length sl \<and> (\<exists>n r. sl ! i = Live (OBigInt n) \<or> sl ! i = Live (ORational r))"

text \<open>The values of \<open>T\<close> name live slots, and those that are not walked name leaves.\<close>

definition refs_ok :: "heap \<Rightarrow> rvalue set \<Rightarrow> bool" where
  "refs_ok h T \<longleftrightarrow>
     (\<forall>v\<in>T. \<forall>i. heap_ref v = Some i \<longrightarrow> i \<in> live_ids h \<and> (is_leaf v \<longrightarrow> leaf_slot (hslots h) i))"

definition tables_ok :: "heap \<Rightarrow> bool" where
  "tables_ok h \<longleftrightarrow>
     length (marks h) = length (hslots h) \<and> length (old h) = length (hslots h) \<and>
     distinct (free h) \<and> set (free h) = {i. i < length (hslots h) \<and> hslots h ! i = Dead} \<and>
     distinct (young_slots h) \<and> set (young_slots h) = live_ids h - old_ids h \<and>
     live_count h = card (live_ids h) \<and> set (remembered h) \<subseteq> old_ids h \<and>
     (\<forall>i < length (hslots h). (hslots h ! i = Dead \<longrightarrow> \<not> marks h ! i) \<and> (i \<in> old_ids h \<longrightarrow> marks h ! i)) \<and>
     minors_since_major h < major_every"

text \<open>
  No live object dangles, and an old object leads to a young one only if it is remembered: the
  guarantee the write barrier is there for.
\<close>

definition heap_inv :: "world \<Rightarrow> heap \<Rightarrow> bool" where
  "heap_inv w h \<longleftrightarrow>
     tables_ok h \<and>
     (\<forall>i\<in>live_ids h. refs_ok h (slot_targets w (hslots h) i)) \<and>
     (\<forall>i\<in>old_ids h - set (remembered h). ids (slot_targets w (hslots h) i) \<subseteq> old_ids h)"

definition root_targets :: "world \<Rightarrow> rvalue list \<Rightarrow> rvalue set" where
  "root_targets w roots = (\<Union>v\<in>set roots. vtargets w v)"

definition roots_ok :: "world \<Rightarrow> heap \<Rightarrow> rvalue list \<Rightarrow> bool" where
  "roots_ok w h roots \<longleftrightarrow> refs_ok h (root_targets w roots)"

text \<open>What the program can still get at.\<close>

inductive_set reachable :: "world \<Rightarrow> rvalue list \<Rightarrow> heap \<Rightarrow> objid set"
  for w :: world and roots :: "rvalue list" and h :: heap where
  root: "i \<in> ids (root_targets w roots) \<Longrightarrow> i \<in> reachable w roots h"
| step: "i \<in> reachable w roots h \<Longrightarrow> j \<in> ids (slot_targets w (hslots h) i) \<Longrightarrow> j \<in> reachable w roots h"

lemma live_idsI: "get h i = Some ob \<Longrightarrow> i \<in> live_ids h"
  by (auto simp: get_def live_ids_def split: if_splits slot.splits)

lemma get_live: "i \<in> live_ids h \<longleftrightarrow> (\<exists>ob. get h i = Some ob)"
  by (auto simp: get_def live_ids_def split: slot.splits)

lemma is_live_iff: "is_live h i \<longleftrightarrow> i \<in> live_ids h"
  by (simp add: is_live_def live_ids_def)

lemma old_live: "old_ids h \<subseteq> live_ids h"
  by (auto simp: old_ids_def live_ids_def)

lemma finite_live [simp]: "finite (live_ids h)"
  by (simp add: live_ids_def)

lemma leaf_slot_targets: "leaf_slot sl i \<Longrightarrow> slot_targets w sl i = {}"
  by (auto simp: leaf_slot_def slot_targets_def obj_targets_def)

lemma refs_ok_ids: "refs_ok h T \<Longrightarrow> ids T \<subseteq> live_ids h"
  by (auto simp: refs_ok_def ids_def)

lemma refs_ok_leaf:
  "refs_ok h T \<Longrightarrow> \<forall>v\<in>T. \<forall>j. is_leaf v \<longrightarrow> heap_ref v = Some j \<longrightarrow> slot_targets w (hslots h) j = {}"
  using leaf_slot_targets by (fastforce simp: refs_ok_def)

lemma heap_inv_closed: "heap_inv w h \<Longrightarrow> heap_closed w (hslots h) (live_ids h)"
  unfolding heap_closed_def
proof (intro ballI conjI)
  fix i assume h: "heap_inv w h" and i: "i \<in> live_ids h"
  then have r: "refs_ok h (slot_targets w (hslots h) i)" by (simp add: heap_inv_def)
  show "i < length (hslots h)" using i by (simp add: live_ids_def)
  show "ids (slot_targets w (hslots h) i) \<subseteq> live_ids h" using r by (rule refs_ok_ids)
  show "\<forall>j. is_leaf v \<longrightarrow> heap_ref v = Some j \<longrightarrow> slot_targets w (hslots h) j = {}"
    if "v \<in> slot_targets w (hslots h) i" for v
    using refs_ok_leaf [OF r] that by blast
qed

lemma reachable_live: "heap_inv w h \<Longrightarrow> roots_ok w h roots \<Longrightarrow> reachable w roots h \<subseteq> live_ids h"
proof
  fix i assume inv: "heap_inv w h" "roots_ok w h roots" and "i \<in> reachable w roots h"
  from this(3) show "i \<in> live_ids h"
  proof induction
    case (root i)
    then show ?case using inv(2) refs_ok_ids by (auto simp: roots_ok_def)
  next
    case (step i j)
    then show ?case using inv(1) refs_ok_ids by (fastforce simp: heap_inv_def)
  qed
qed

lemma reachable_closed:
  assumes "heap_inv w h" and "roots_ok w h roots"
  shows "heap_closed w (hslots h) (reachable w roots h)"
  using heap_inv_closed [OF assms(1)] reachable_live [OF assms] reachable.step
  unfolding heap_closed_def by blast

section \<open>The mark phase\<close>

lemma fold_reset:
  "length (fold (\<lambda>y m. m[y := False]) ys m) = length m \<and>
   (\<forall>i < length m. fold (\<lambda>y m. m[y := False]) ys m ! i = (i \<notin> set ys \<and> m ! i))"
proof (induction ys arbitrary: m)
  case (Cons y ys)
  then show ?case by (cases "y < length m") (auto simp: nth_list_update)
qed simp

lemma set_sorted_dedup [simp]: "set (sorted_dedup xs) = set xs"
  by (simp add: sorted_dedup_def)

lemma reset_marks_minor:
  assumes "tables_ok h" and "is_minor h"
  shows "length (reset_marks h) = length (hslots h)" and
    "{i. i < length (hslots h) \<and> reset_marks h ! i} = old_ids h"
proof -
  have m: "reset_marks h = fold (\<lambda>y m. m[y := False]) (young_slots h) (marks h)"
    using assms(2) by (simp add: reset_marks_def)
  show "length (reset_marks h) = length (hslots h)" using assms(1) fold_reset m by (simp add: tables_ok_def)
  have "i < length (hslots h) \<Longrightarrow> reset_marks h ! i \<longleftrightarrow> i \<in> old_ids h" for i
    using assms(1) fold_reset [of "young_slots h" "marks h"] m
    by (auto simp: tables_ok_def live_ids_def old_ids_def)
  then show "{i. i < length (hslots h) \<and> reset_marks h ! i} = old_ids h"
    by (auto simp: old_ids_def)
qed

text \<open>
  The marks after the phase lie in any closed \<open>X\<close> with the roots and the initial marks; they have
  the roots, the initial marks, and all that marked objects lead to.
\<close>

lemma mark_phase_spec:
  assumes inv: "heap_inv w h" and cl: "heap_closed w (hslots h) X"
    and roots: "ids (root_targets w roots) \<subseteq> X" "roots_ok w h roots"
    and old: "is_minor h \<longrightarrow> old_ids h \<subseteq> X"
  defines "s \<equiv> mark_phase w roots h"
  shows "\<not> panicked s" and "length (mk s) = length (hslots h)" and "marked s \<subseteq> X"
    and "ids (root_targets w roots) \<subseteq> marked s" and "is_minor h \<longrightarrow> old_ids h \<subseteq> marked s"
    and "\<forall>i\<in>marked s. ids (slot_targets w (hslots h) i) \<subseteq> marked s"
proof -
  have tb: "tables_ok h" using inv by (simp add: heap_inv_def)
  let ?sl = "hslots h"
  define s0 where "s0 = \<lparr>mk = reset_marks h, wl = [], seen_inst = {}, seen_cells = {}, panicked = False\<rparr>"
  define s1 where "s1 = visit_values w roots s0"
  define W where "W = (if is_minor h then rev (sorted_dedup (remembered h)) else [])"
  have s: "s = mark_loop w ?sl (s1\<lparr>wl := W @ wl s1\<rparr>)"
    by (simp add: s_def mark_phase_def s0_def s1_def W_def Let_def)
  have len: "length (mk s0) = length ?sl"
    using tb reset_marks_minor(1) [OF tb] by (cases "is_minor h") (auto simp: s0_def reset_marks_def tables_ok_def)
  have m0: "marked s0 = (if is_minor h then old_ids h else {})"
    using reset_marks_minor [OF tb] len by (auto simp: s0_def marked_def reset_marks_def)
  have X: "\<forall>i\<in>X. i < length ?sl" using cl by (simp add: heap_closed_def)
  have so: "seen_ok w s0" by (simp add: seen_ok_def s0_def)
  have "covers w s0 s1 (root_targets w roots)"
    using visit_values_grew [of s0 w roots] so seen_ok_grew by (auto simp: covers_def s1_def root_targets_def)
  note c = this
  have rem: "set (remembered h) \<subseteq> old_ids h" using tb by (simp add: tables_ok_def)
  have "tricolour w ?sl X (s0\<lparr>wl := W\<rparr>)"
    unfolding tricolour_def
  proof (intro conjI)
    show "length (mk (s0\<lparr>wl := W\<rparr>)) = length ?sl" using len by simp
    show "\<not> panicked (s0\<lparr>wl := W\<rparr>)" by (simp add: s0_def)
    show "seen_ok w (s0\<lparr>wl := W\<rparr>)" by (simp add: seen_ok_def s0_def)
    show "set (wl (s0\<lparr>wl := W\<rparr>)) \<subseteq> marked (s0\<lparr>wl := W\<rparr>)" using rem m0 by (simp add: W_def)
    show "marked (s0\<lparr>wl := W\<rparr>) \<subseteq> X" using m0 old by simp
    show "\<forall>i\<in>marked (s0\<lparr>wl := W\<rparr>). i \<in> set (wl (s0\<lparr>wl := W\<rparr>)) \<or>
        ids (slot_targets w ?sl i) \<subseteq> marked (s0\<lparr>wl := W\<rparr>)"
      using inv m0 by (auto simp: heap_inv_def W_def split: if_splits)
  qed
  then have "tricolour w ?sl X (s1\<lparr>wl := W @ wl s1\<rparr>)"
    by (rule covers_tricolour [OF c _ roots(1) X refs_ok_leaf])
      (use roots(2) in \<open>auto simp: roots_ok_def s0_def\<close>)
  note loop = mark_loop_tricolour [OF this cl, folded s]
  show "\<not> panicked s" "length (mk s) = length ?sl" "marked s \<subseteq> X"
    using loop by (simp_all add: tricolour_def)
  show "\<forall>i\<in>marked s. ids (slot_targets w ?sl i) \<subseteq> marked s"
    using loop by (auto simp: tricolour_def)
  have "marked s0 \<subseteq> marked s1" using c by (simp add: covers_def grew_def)
  then show "is_minor h \<longrightarrow> old_ids h \<subseteq> marked s" using loop m0 by auto
  have "reached s1 (root_targets w roots)" using c so by (simp add: covers_def)
  moreover have "length (mk s1) = length ?sl" using c len by (simp add: covers_def grew_def)
  ultimately have "ids (root_targets w roots) \<subseteq> marked s1" using roots(1) X by (auto simp: reached_def)
  then show "ids (root_targets w roots) \<subseteq> marked s" using loop by auto
qed

section \<open>What a collection does\<close>

text \<open>
  The slots a sweep visits have all live objects that are not both old and marked; so both
  sweeps keep exactly the marked objects.
\<close>

definition swept :: "heap \<Rightarrow> objid list" where
  "swept h = (if is_minor h then young_slots h else [0..<length (hslots h)])"

definition after_sweep :: "heap \<Rightarrow> mark_state \<Rightarrow> heap \<Rightarrow> bool" where
  "after_sweep h s h' \<longleftrightarrow>
     length (hslots h') = length (hslots h) \<and> length (old h') = length (hslots h) \<and> marks h' = mk s \<and>
     (\<forall>i < length (hslots h). hslots h' ! i = (if i \<in> live_ids h - marked s then Dead else hslots h ! i)) \<and>
     (\<forall>i < length (hslots h). i \<in> marked s \<longrightarrow> old h' ! i) \<and>
     distinct (free h') \<and> set (free h') = set (free h) \<union> (live_ids h - marked s) \<and>
     live_count h' = card (marked s) \<and>
     young_slots h' = [] \<and> remembered h' = [] \<and> minors_since_major h' < major_every"

lemma sweep_spec:
  assumes tb: "tables_ok h" and len: "length (mk s) = length (hslots h)"
    and m: "marked s \<subseteq> live_ids h" "is_minor h \<longrightarrow> old_ids h \<subseteq> marked s"
  defines "sw \<equiv> sweep (mk s) (swept h) h"
  shows "length (sw_slots sw) = length (hslots h)" and "length (sw_old sw) = length (hslots h)"
    and "\<forall>i < length (hslots h). sw_slots sw ! i = (if i \<in> live_ids h - marked s then Dead else hslots h ! i)"
    and "\<forall>i < length (hslots h). i \<in> marked s \<longrightarrow> sw_old sw ! i"
    and "distinct (sw_free sw)" and "set (sw_free sw) = set (free h) \<union> (live_ids h - marked s)"
    and "(if is_minor h then live_count h - sw_freed sw else sw_kept sw) = card (marked s)"
    and "sw_pending sw = concat (List.map (slot_pending (hslots h))
      (filter (\<lambda>i. i \<in> live_ids h - marked s) (swept h)))"
proof -
  let ?n = "length (hslots h)" and ?sl = "hslots h"
  have d: "distinct (swept h)" and r: "\<forall>i\<in>set (swept h). i < ?n"
    using tb by (auto simp: swept_def tables_ok_def live_ids_def)
  have sub: "set (swept h) \<subseteq> {..<?n}" using r by auto
  have dm: "doomed (mk s) ?sl i \<longleftrightarrow> i \<in> live_ids h - marked s" if "i < ?n" for i
    using that len by (auto simp: doomed_def live_ids_def marked_def)
  have kp: "kept (mk s) ?sl i \<longleftrightarrow> i \<in> marked s" if "i < ?n" for i
    using that len m(1) by (auto simp: kept_def live_ids_def marked_def)
  have all: "live_ids h - marked s \<subseteq> set (swept h)"
    using tb m(2) by (auto simp: swept_def tables_ok_def live_ids_def)
  have ol: "length (old h) = ?n" using tb by (simp add: tables_ok_def)
  from sweep_fold [of "swept h" "\<lparr>sw_slots = ?sl, sw_old = old h, sw_free = free h, sw_kept = 0,
      sw_freed = 0, sw_pending = [], sw_fibers = suspended_fibers h\<rparr>" "mk s"] d r ol
  have f: "length (sw_slots sw) = ?n" "length (sw_old sw) = ?n"
    "\<forall>i < ?n. sw_slots sw ! i = (if i \<in> set (swept h) \<and> doomed (mk s) ?sl i then Dead else ?sl ! i)"
    "\<forall>i < ?n. sw_old sw ! i = (if i \<in> set (swept h) \<and> ?sl ! i \<noteq> Dead then mk s ! i else old h ! i)"
    "sw_free sw = rev (filter (doomed (mk s) ?sl) (swept h)) @ free h"
    "sw_kept sw = length (filter (kept (mk s) ?sl) (swept h))"
    "sw_freed sw = length (filter (doomed (mk s) ?sl) (swept h))"
    "sw_pending sw = concat (List.map (slot_pending ?sl) (filter (doomed (mk s) ?sl) (swept h)))"
    by (simp_all add: sw_def sweep_def Let_def)
  have fd: "filter (doomed (mk s) ?sl) (swept h) = filter (\<lambda>i. i \<in> live_ids h - marked s) (swept h)"
    by (rule filter_cong) (use dm r in auto)
  have fset: "set (filter (doomed (mk s) ?sl) (swept h)) = live_ids h - marked s"
    using all by (auto simp: fd)
  show "length (sw_slots sw) = ?n" "length (sw_old sw) = ?n" by (fact f)+
  show "\<forall>i < ?n. sw_slots sw ! i = (if i \<in> live_ids h - marked s then Dead else ?sl ! i)"
    using f(3) dm all by auto
  show "\<forall>i < ?n. i \<in> marked s \<longrightarrow> sw_old sw ! i"
  proof (intro allI impI)
    fix i assume i: "i < ?n" "i \<in> marked s"
    then have l: "?sl ! i \<noteq> Dead" "mk s ! i" using m(1) by (auto simp: live_ids_def marked_def)
    show "sw_old sw ! i"
    proof (cases "i \<in> set (swept h)")
      case False
      then have "is_minor h" "i \<in> old_ids h"
        using i m(1) tb by (auto simp: swept_def tables_ok_def split: if_splits)
      then show ?thesis using f(4) i False by (auto simp: old_ids_def)
    qed (use f(4) i l in auto)
  qed
  show "distinct (sw_free sw)"
    using f(5) d fset tb by (auto simp: tables_ok_def live_ids_def)
  show "set (sw_free sw) = set (free h) \<union> (live_ids h - marked s)"
    using f(5) fset by auto
  show "sw_pending sw = concat (List.map (slot_pending ?sl) (filter (\<lambda>i. i \<in> live_ids h - marked s) (swept h)))"
    using f(8) fd by simp
  have fr: "sw_freed sw = card (live_ids h - marked s)"
    using f(7) fset d by (metis distinct_card distinct_filter)
  have ml: "card (live_ids h) = card (marked s) + card (live_ids h - marked s)"
    using m(1) by (metis card_Diff_subset card_mono finite_live finite_subset le_add_diff_inverse)
  show "(if is_minor h then live_count h - sw_freed sw else sw_kept sw) = card (marked s)"
  proof (cases "is_minor h")
    case True
    then show ?thesis using fr ml tb by (simp add: tables_ok_def)
  next
    case False
    then have "set (filter (kept (mk s) ?sl) (swept h)) = marked s"
      using kp len by (auto simp: swept_def marked_def)
    then show ?thesis using f(6) d False by (metis distinct_card distinct_filter)
  qed
qed

lemma swept_collect:
  "(if is_minor h then young_slots h else [0..<length (hslots h)]) = swept h"
  by (simp add: swept_def)

lemma collect_result:
  assumes inv: "heap_inv w h" and roots: "roots_ok w h roots"
  obtains h' where "collect growth us w roots h = Some (h', concat (List.map (slot_pending (hslots h))
        (filter (\<lambda>i. i \<in> live_ids h - marked (mark_phase w roots h)) (swept h))))"
    and "after_sweep h (mark_phase w roots h) h'"
proof -
  let ?s = "mark_phase w roots h"
  have tb: "tables_ok h" using inv by (simp add: heap_inv_def)
  note ph = mark_phase_spec [OF inv heap_inv_closed [OF inv]
      refs_ok_ids [OF roots [unfolded roots_ok_def]] roots impI [OF old_live]]
  note sw = sweep_spec [OF tb ph(2,3,5)]
  have "\<forall>y\<in>set (young_slots h). y < length (marks h)" using tb by (auto simp: tables_ok_def live_ids_def)
  then obtain h' where c: "collect growth us w roots h = Some (h', sw_pending (sweep (mk ?s) (swept h) h))"
    and h': "hslots h' = sw_slots (sweep (mk ?s) (swept h) h)" "old h' = sw_old (sweep (mk ?s) (swept h) h)"
      "marks h' = mk ?s" "free h' = sw_free (sweep (mk ?s) (swept h) h)" "young_slots h' = []"
      "remembered h' = []"
      "live_count h' = (if is_minor h then live_count h - sw_freed (sweep (mk ?s) (swept h) h)
         else sw_kept (sweep (mk ?s) (swept h) h))"
      "minors_since_major h' = (if is_minor h then minors_since_major h + 1 else 0)"
    using ph(1) unfolding collect_def Let_def swept_collect
    by (cases "is_minor h") (auto simp: linorder_not_le)
  have "minors_since_major h' < major_every"
    unfolding h'(8) by (simp add: is_minor_def) (simp add: major_every_def)
  then have "after_sweep h ?s h'"
    using sw h' by (simp add: after_sweep_def)
  with c sw(8) show ?thesis by (intro that) simp_all
qed

lemma after_sweep_live:
  assumes a: "after_sweep h s h'" and m: "marked s \<subseteq> live_ids h"
  shows "live_ids h' = marked s" and "old_ids h' = marked s"
    and "\<forall>i\<in>marked s. hslots h' ! i = hslots h ! i"
    and "\<forall>i\<in>marked s. slot_targets w (hslots h') i = slot_targets w (hslots h) i"
proof -
  have len: "length (hslots h') = length (hslots h)" using a by (simp add: after_sweep_def)
  have n: "\<forall>i\<in>marked s. i < length (hslots h)" using m by (auto simp: live_ids_def)
  show sl: "\<forall>i\<in>marked s. hslots h' ! i = hslots h ! i"
    using a n by (auto simp: after_sweep_def)
  have "i \<in> live_ids h' \<longleftrightarrow> i \<in> marked s" for i
  proof (cases "i < length (hslots h)")
    case True
    then have "hslots h' ! i = (if i \<in> live_ids h - marked s then Dead else hslots h ! i)"
      using a by (simp add: after_sweep_def)
    moreover have "i \<in> live_ids h \<longleftrightarrow> hslots h ! i \<noteq> Dead" "i \<in> live_ids h' \<longleftrightarrow> hslots h' ! i \<noteq> Dead"
      using True len by (auto simp: live_ids_def)
    ultimately show ?thesis using m by auto
  next
    case False
    then show ?thesis using n len by (auto simp: live_ids_def)
  qed
  then show "live_ids h' = marked s" by blast
  then show "old_ids h' = marked s"
    using a n by (auto simp: after_sweep_def old_ids_def live_ids_def)
  show "\<forall>i\<in>marked s. slot_targets w (hslots h') i = slot_targets w (hslots h) i"
    using sl len by (auto simp: slot_targets_def)
qed

lemma refs_ok_after:
  assumes a: "after_sweep h s h'" and m: "marked s \<subseteq> live_ids h" and r: "refs_ok h T" "ids T \<subseteq> marked s"
  shows "refs_ok h' T"
  unfolding refs_ok_def
proof (intro ballI allI impI)
  fix v i assume v: "v \<in> T" "heap_ref v = Some i"
  then have i: "i \<in> marked s" "is_leaf v \<longrightarrow> leaf_slot (hslots h) i"
    using r by (auto simp: refs_ok_def ids_def)
  then show "i \<in> live_ids h' \<and> (is_leaf v \<longrightarrow> leaf_slot (hslots h') i)"
    using after_sweep_live(1,3) [OF a m] a by (auto simp: leaf_slot_def after_sweep_def)
qed

lemma diff_Un_diff: "M \<subseteq> L \<Longrightarrow> L \<subseteq> N \<Longrightarrow> (N - L) \<union> (L - M) = N - M"
  by blast

lemma after_sweep_inv:
  assumes inv: "heap_inv w h" and roots: "roots_ok w h roots"
    and a: "after_sweep h (mark_phase w roots h) h'"
  shows "heap_inv w h' \<and> roots_ok w h' roots"
proof -
  let ?s = "mark_phase w roots h"
  have tb: "tables_ok h" using inv by (simp add: heap_inv_def)
  note ph = mark_phase_spec [OF inv heap_inv_closed [OF inv]
      refs_ok_ids [OF roots [unfolded roots_ok_def]] roots impI [OF old_live]]
  note al = after_sweep_live(1-3) [OF a ph(3)] after_sweep_live(4) [OF a ph(3), of w]
  have len: "length (hslots h') = length (hslots h)" using a by (simp add: after_sweep_def)
  have dead: "i \<in> marked ?s \<longleftrightarrow> mk ?s ! i" if "i < length (hslots h)" for i
    using that ph(2) by (simp add: marked_def)
  have mks: "marks h' = mk ?s" using a by (simp add: after_sweep_def)
  have "tables_ok h'"
    unfolding tables_ok_def
  proof (intro conjI)
    show "set (free h') = {i. i < length (hslots h') \<and> hslots h' ! i = Dead}"
    proof -
      have d: "{i. i < length (hslots g) \<and> hslots g ! i = Dead} = {..<length (hslots g)} - live_ids g" for g
        by (auto simp: live_ids_def)
      have "set (free h) = {i. i < length (hslots h) \<and> hslots h ! i = Dead}"
        using tb by (simp add: tables_ok_def)
      moreover have "set (free h') = set (free h) \<union> (live_ids h - marked ?s)"
        using a by (simp add: after_sweep_def)
      ultimately have "set (free h') = ({..<length (hslots h)} - live_ids h) \<union> (live_ids h - marked ?s)"
        unfolding d by simp
      moreover have "live_ids h \<subseteq> {..<length (hslots h)}" by (auto simp: live_ids_def)
      ultimately have "set (free h') = {..<length (hslots h)} - marked ?s"
        using diff_Un_diff [OF ph(3)] by simp
      then show ?thesis unfolding d [of h'] by (simp only: al(1) len)
    qed
    show "\<forall>i < length (hslots h'). (hslots h' ! i = Dead \<longrightarrow> \<not> marks h' ! i) \<and> (i \<in> old_ids h' \<longrightarrow> marks h' ! i)"
    proof (intro allI impI)
      fix i assume i: "i < length (hslots h')"
      then have "i \<in> marked ?s \<longleftrightarrow> hslots h' ! i \<noteq> Dead" using al(1) by (auto simp: live_ids_def)
      then show "(hslots h' ! i = Dead \<longrightarrow> \<not> marks h' ! i) \<and> (i \<in> old_ids h' \<longrightarrow> marks h' ! i)"
        using dead [of i] i len mks unfolding al(2) by simp
    qed
  qed (use a al(1,2) ph(2) in \<open>simp_all add: after_sweep_def\<close>)
  moreover have "\<forall>i\<in>live_ids h'. refs_ok h' (slot_targets w (hslots h') i)"
  proof
    fix i assume "i \<in> live_ids h'"
    then have i: "i \<in> marked ?s" using al(1) by simp
    then have "refs_ok h (slot_targets w (hslots h) i)" using inv ph(3) by (auto simp: heap_inv_def)
    from refs_ok_after [OF a ph(3) this] show "refs_ok h' (slot_targets w (hslots h') i)"
      using al(4) ph(6) i by simp
  qed
  moreover have "\<forall>i\<in>old_ids h' - set (remembered h'). ids (slot_targets w (hslots h') i) \<subseteq> old_ids h'"
    using al(2,4) ph(6) by simp
  ultimately have "heap_inv w h'" by (simp add: heap_inv_def)
  moreover have "roots_ok w h' roots"
    using refs_ok_after [OF a ph(3) _ ph(4)] roots by (simp add: roots_ok_def)
  ultimately show ?thesis ..
qed

lemma reachable_marked:
  assumes inv: "heap_inv w h" and roots: "roots_ok w h roots"
  shows "reachable w roots h \<subseteq> marked (mark_phase w roots h)"
proof
  note ph = mark_phase_spec [OF inv heap_inv_closed [OF inv]
      refs_ok_ids [OF roots [unfolded roots_ok_def]] roots impI [OF old_live]]
  fix i assume "i \<in> reachable w roots h"
  then show "i \<in> marked (mark_phase w roots h)"
    by induction (use ph(4,6) in auto)
qed

lemma major_marks_reachable:
  assumes inv: "heap_inv w h" and roots: "roots_ok w h roots" and "\<not> is_minor h"
  shows "marked (mark_phase w roots h) = reachable w roots h"
proof
  show "marked (mark_phase w roots h) \<subseteq> reachable w roots h"
    by (rule mark_phase_spec(3) [OF inv reachable_closed [OF inv roots] _ roots])
      (use assms(3) reachable.root in auto)
qed (rule reachable_marked [OF inv roots])

lemma get_after:
  assumes "after_sweep h s h'" and "marked s \<subseteq> live_ids h"
  shows "get h' i = (if i \<in> marked s then get h i else None)"
proof (cases "i \<in> marked s")
  case True
  then have "i < length (hslots h)" "hslots h' ! i = hslots h ! i"
    using assms after_sweep_live(3) [OF assms] by (auto simp: live_ids_def)
  then show ?thesis using True assms(1) by (simp add: get_def after_sweep_def)
next
  case False
  then show ?thesis using after_sweep_live(1) [OF assms] get_live [of i h'] by (cases "get h' i") auto
qed

text \<open>The facts the properties rest on, in one place.\<close>

definition collected :: "world \<Rightarrow> rvalue list \<Rightarrow> heap \<Rightarrow> heap \<Rightarrow> (u64 \<times> u64) list \<Rightarrow> bool" where
  "collected w roots h h' pend \<longleftrightarrow>
     heap_inv w h' \<and> roots_ok w h' roots \<and>
     (\<forall>i. get h' i = (if i \<in> marked (mark_phase w roots h) then get h i else None)) \<and>
     reachable w roots h \<subseteq> marked (mark_phase w roots h) \<and>
     (\<not> is_minor h \<longrightarrow> marked (mark_phase w roots h) = reachable w roots h) \<and>
     pend = concat (List.map (slot_pending (hslots h)) (filter (\<lambda>i. get h i \<noteq> None \<and> get h' i = None) (swept h)))"

lemma collect_facts:
  assumes inv: "heap_inv w h" and roots: "roots_ok w h roots"
  shows "\<exists>h' pend. collect growth us w roots h = Some (h', pend) \<and> collected w roots h h' pend"
proof -
  note ph = mark_phase_spec [OF inv heap_inv_closed [OF inv]
      refs_ok_ids [OF roots [unfolded roots_ok_def]] roots impI [OF old_live]]
  from collect_result [OF inv roots, of growth us] obtain h' where
    c: "collect growth us w roots h = Some (h', concat (List.map (slot_pending (hslots h))
        (filter (\<lambda>i. i \<in> live_ids h - marked (mark_phase w roots h)) (swept h))))"
    and a: "after_sweep h (mark_phase w roots h) h'" by blast
  have g: "get h' i = (if i \<in> marked (mark_phase w roots h) then get h i else None)" for i
    by (rule get_after [OF a ph(3)])
  have fr: "(\<lambda>i. get h i \<noteq> None \<and> get h' i = None) = (\<lambda>i. i \<in> live_ids h - marked (mark_phase w roots h))"
    using g by (auto simp: fun_eq_iff get_live)
  have "collected w roots h h' (concat (List.map (slot_pending (hslots h))
        (filter (\<lambda>i. i \<in> live_ids h - marked (mark_phase w roots h)) (swept h))))"
    unfolding collected_def fr
    using g after_sweep_inv [OF inv roots a] reachable_marked [OF inv roots]
      major_marks_reachable [OF inv roots] by blast
  with c show ?thesis by blast
qed

lemma collect_someD:
  assumes "heap_inv w h" "roots_ok w h roots" "collect growth us w roots h = Some (h', pend)"
  shows "collected w roots h h' pend"
proof -
  obtain g q where "collect growth us w roots h = Some (g, q)" "collected w roots h g q"
    using collect_facts [OF assms(1,2)] by blast
  with assms(3) show ?thesis by simp
qed

end
