(* ===== verification/Heap_Safety.thy ===== *)
theory Heap_Safety
  imports Heap_Collect "HOL-Library.Multiset"
begin

text \<open>
  The heap under a running program: every operation of the mutator keeps the invariant of
  \<open>Heap_Collect\<close>, so no reachable object is ever freed and no collection panics; what a
  collection frees and which finalizers it hands back; the pacing of the collections. The last
  section runs the two gaps: a write to a captured variable of an old closure is not seen by the
  barrier, and a suspended fiber's saved exceptions are not traced.
\<close>

section \<open>The mutator\<close>

definition obj_ok :: "world \<Rightarrow> heap \<Rightarrow> heap_obj \<Rightarrow> bool" where
  "obj_ok w h ob \<longleftrightarrow> refs_ok h (obj_targets w ob)"

fun leaf_obj :: "heap_obj \<Rightarrow> bool" where
  "leaf_obj (OBigInt _) = True"
| "leaf_obj (ORational _) = True"
| "leaf_obj _ = False"

lemma leaf_slot_iff: "leaf_slot sl i \<longleftrightarrow> i < length sl \<and> (\<exists>ob. sl ! i = Live ob \<and> leaf_obj ob)"
proof -
  have "(\<exists>ob. sl ! i = Live ob \<and> leaf_obj ob) \<longleftrightarrow> (\<exists>n r. sl ! i = Live (OBigInt n) \<or> sl ! i = Live (ORational r))"
  proof
    assume "\<exists>ob. sl ! i = Live ob \<and> leaf_obj ob"
    then obtain ob where "sl ! i = Live ob" "leaf_obj ob" by blast
    then show "\<exists>n r. sl ! i = Live (OBigInt n) \<or> sl ! i = Live (ORational r)" by (cases ob) auto
  qed auto
  then show ?thesis by (simp add: leaf_slot_def)
qed

text \<open>
  A heap \<open>h'\<close> extends \<open>h\<close>: what was live still is, leaves stay leaves. Sound references stay sound.
\<close>

definition extends :: "heap \<Rightarrow> heap \<Rightarrow> bool" where
  "extends h h' \<longleftrightarrow> live_ids h \<subseteq> live_ids h' \<and>
     (\<forall>i. leaf_slot (hslots h) i \<longrightarrow> leaf_slot (hslots h') i)"

lemma refs_ok_extends: "refs_ok h T \<Longrightarrow> extends h h' \<Longrightarrow> refs_ok h' T"
  by (auto simp: refs_ok_def extends_def)

text \<open>An allocation takes a dead slot or a new one, and changes no other.\<close>

lemma alloc_shape:
  assumes tb: "tables_ok h" and a: "alloc ob h = (h', i)"
  shows "i \<notin> live_ids h" and "get h' i = Some ob" and "j \<noteq> i \<Longrightarrow> get h' j = get h j"
    and "live_ids h' = insert i (live_ids h)" and "old_ids h' = old_ids h"
    and "j \<noteq> i \<Longrightarrow> slot_targets w (hslots h') j = slot_targets w (hslots h) j"
    and "slot_targets w (hslots h') i = obj_targets w ob" and "extends h h'" and "tables_ok h'"
    and "remembered h' = remembered h"
proof -
  have fr: "j < length (hslots h) \<and> hslots h ! j = Dead" if "j \<in> set (free h)" for j
    using tb that by (simp add: tables_ok_def)
  consider (reuse) fs where "free h = i # fs" "i < length (hslots h)" "hslots h ! i = Dead"
      "hslots h' = (hslots h)[i := Live ob]" "marks h' = (marks h)[i := False]"
      "old h' = (old h)[i := False]" "free h' = fs"
    | (fresh) "free h = []" "i = length (hslots h)" "hslots h' = hslots h @ [Live ob]"
      "marks h' = marks h @ [False]" "old h' = old h @ [False]" "free h' = []"
    using a fr by (cases "free h") (auto simp: alloc_def Let_def)
  note cs = this
  have rest: "young_slots h' = young_slots h @ [i]" "remembered h' = remembered h"
      "live_count h' = live_count h + 1" "minors_since_major h' = minors_since_major h"
    using a by (auto simp: alloc_def Let_def split: list.splits)
  have len: "length (marks h) = length (hslots h)" "length (old h) = length (hslots h)"
    using tb by (simp_all add: tables_ok_def)
  show il: "i \<notin> live_ids h" using cs by cases (auto simp: live_ids_def)
  have sl: "i < length (hslots h') \<and> hslots h' ! i = Live ob" using cs by cases auto
  have lt: "j < length (hslots h') \<longleftrightarrow> j < length (hslots h) \<or> j = i" for j using cs by cases auto
  have ne: "j < length (hslots h) \<Longrightarrow> j \<noteq> i \<Longrightarrow> hslots h' ! j = hslots h ! j \<and> old h' ! j = old h ! j \<and> marks h' ! j = marks h ! j" for j
    using cs len by cases (auto simp: nth_append)
  have oi: "\<not> old h' ! i \<and> \<not> marks h' ! i" using cs len by cases (auto simp: nth_append)
  have fixed: "j < length (hslots h') \<longleftrightarrow> j < length (hslots h)" if "j \<noteq> i" for j using lt that by simp
  show "get h' i = Some ob" using sl by (simp add: get_def)
  show "j \<noteq> i \<Longrightarrow> get h' j = get h j" using fixed [of j] ne [of j] by (simp add: get_def)
  show lv: "live_ids h' = insert i (live_ids h)"
    using sl lt ne by (fastforce simp: live_ids_def)
  have "j \<in> old_ids h' \<longleftrightarrow> j \<in> old_ids h" for j
    using il oi fixed [of j] ne [of j] by (cases "j = i") (auto simp: old_ids_def live_ids_def)
  then show ol: "old_ids h' = old_ids h" by blast
  show "j \<noteq> i \<Longrightarrow> slot_targets w (hslots h') j = slot_targets w (hslots h) j"
    using fixed [of j] ne [of j] by (simp add: slot_targets_def)
  show "slot_targets w (hslots h') i = obj_targets w ob" using sl by (simp add: slot_targets_def)
  have "leaf_slot (hslots h') j" if "leaf_slot (hslots h) j" for j
    using that il fixed [of j] ne [of j] by (cases "j = i") (auto simp: leaf_slot_def live_ids_def)
  then show "extends h h'" using lv by (auto simp: extends_def)
  show "remembered h' = remembered h" by (fact rest)
  show "tables_ok h'"
    unfolding tables_ok_def
  proof (intro conjI)
    show "length (marks h') = length (hslots h')" "length (old h') = length (hslots h')"
      using cs len by (cases; simp)+
    show "distinct (free h')" using cs tb by cases (auto simp: tables_ok_def)
    show "set (free h') = {j. j < length (hslots h') \<and> hslots h' ! j = Dead}"
      using cs tb by cases (auto simp: tables_ok_def nth_list_update nth_append split: if_splits)
    have y: "set (young_slots h) = live_ids h - old_ids h" "distinct (young_slots h)"
      using tb by (simp_all add: tables_ok_def)
    show "distinct (young_slots h')" using y rest(1) il by auto
    show "set (young_slots h') = live_ids h' - old_ids h'"
      using y rest(1) il lv ol old_live [of h] by auto
    show "live_count h' = card (live_ids h')" using rest(3) lv il tb by (simp add: tables_ok_def)
    show "set (remembered h') \<subseteq> old_ids h'" using rest(2) ol tb by (simp add: tables_ok_def)
    show "minors_since_major h' < major_every" using rest(4) tb by (simp add: tables_ok_def)
    show "\<forall>j < length (hslots h'). (hslots h' ! j = Dead \<longrightarrow> \<not> marks h' ! j) \<and> (j \<in> old_ids h' \<longrightarrow> marks h' ! j)"
    proof (intro allI impI)
      fix j assume "j < length (hslots h')"
      then show "(hslots h' ! j = Dead \<longrightarrow> \<not> marks h' ! j) \<and> (j \<in> old_ids h' \<longrightarrow> marks h' ! j)"
        using tb sl il ol old_live [of h] fixed [of j] ne [of j]
        by (cases "j = i") (auto simp: tables_ok_def)
    qed
  qed
qed

lemma alloc_inv:
  assumes inv: "heap_inv w h" and ok: "obj_ok w h ob" and a: "alloc ob h = (h', i)"
  shows "heap_inv w h'"
proof -
  have tb: "tables_ok h" using inv by (simp add: heap_inv_def)
  note sh = alloc_shape [OF tb a]
  have "refs_ok h' (slot_targets w (hslots h') j)" if "j \<in> live_ids h'" for j
    using that inv ok sh(4,6,7) refs_ok_extends [OF _ sh(8)]
    by (cases "j = i") (auto simp: heap_inv_def obj_ok_def)
  moreover have "ids (slot_targets w (hslots h') j) \<subseteq> old_ids h'" if "j \<in> old_ids h' - set (remembered h')" for j
    using that inv sh(1,5,6,10) old_live [of h] by (cases "j = i") (auto simp: heap_inv_def)
  ultimately show ?thesis using sh(9) by (simp add: heap_inv_def)
qed

text \<open>A write through \<open>get_mut\<close>.\<close>

lemma get_mut_shape:
  assumes tb: "tables_ok h" and g: "get h i = Some ob"
  obtains h' where "get_mut i f h = Some h'" and "hslots h' = (hslots h)[i := Live (f ob)]"
    and "live_ids h' = live_ids h" and "old_ids h' = old_ids h" and "tables_ok h'"
    and "i \<in> old_ids h \<longrightarrow> i \<in> set (remembered h')" and "set (remembered h) \<subseteq> set (remembered h')"
proof -
  have i: "i < length (hslots h)" "hslots h ! i = Live ob"
    using g by (auto simp: get_def split: if_splits slot.splits)
  have b: "hslots (barrier i h) = hslots h" "old (barrier i h) = old h" "marks (barrier i h) = marks h"
    "free (barrier i h) = free h" "live_count (barrier i h) = live_count h"
    "young_slots (barrier i h) = young_slots h" "minors_since_major (barrier i h) = minors_since_major h"
    "remembered (barrier i h) = remembered h @ (if i \<in> old_ids h then [i] else [])"
    using i tb by (auto simp: barrier_def old_ids_def tables_ok_def)
  let ?h = "barrier i h\<lparr>hslots := (hslots h)[i := Live (f ob)]\<rparr>"
  have m: "get_mut i f h = Some ?h" using i b by (simp add: get_mut_def Let_def get_def)
  have l: "live_ids ?h = live_ids h" "old_ids ?h = old_ids h"
    using i b by (auto simp: live_ids_def old_ids_def nth_list_update split: if_splits)
  have d: "hslots ?h ! j = Dead \<longleftrightarrow> hslots h ! j = Dead" for j
    using i b by (cases "j = i") auto
  have "tables_ok ?h" unfolding tables_ok_def l using tb b d by (auto simp: tables_ok_def)
  then show ?thesis using that [OF m] l b by auto
qed

lemma get_mut_inv:
  assumes inv: "heap_inv w h" and g: "get h i = Some ob" and ok: "obj_ok w h (f ob)"
    and leaf: "leaf_obj ob \<longrightarrow> leaf_obj (f ob)" and m: "get_mut i f h = Some h'"
  shows "heap_inv w h'" and "extends h h'"
proof -
  have tb: "tables_ok h" using inv by (simp add: heap_inv_def)
  from get_mut_shape [OF tb g, of f] m have
    sl: "hslots h' = (hslots h)[i := Live (f ob)]" and l: "live_ids h' = live_ids h" "old_ids h' = old_ids h"
    and tb': "tables_ok h'" and r: "i \<in> old_ids h \<longrightarrow> i \<in> set (remembered h')"
      "set (remembered h) \<subseteq> set (remembered h')" by (metis option.inject)+
  have i: "i < length (hslots h)" "hslots h ! i = Live ob"
    using g by (auto simp: get_def split: if_splits slot.splits)
  have "leaf_slot (hslots h') j" if "leaf_slot (hslots h) j" for j
    using that sl i leaf by (auto simp: leaf_slot_iff nth_list_update)
  then show ex: "extends h h'" using l by (simp add: extends_def)
  have t: "slot_targets w (hslots h') j = (if j = i then obj_targets w (f ob) else slot_targets w (hslots h) j)" for j
    using sl i by (simp add: slot_targets_def)
  have "refs_ok h' (slot_targets w (hslots h') j)" if "j \<in> live_ids h'" for j
    using that inv ok t l refs_ok_extends [OF _ ex] by (auto simp: heap_inv_def obj_ok_def)
  moreover have "ids (slot_targets w (hslots h') j) \<subseteq> old_ids h'" if "j \<in> old_ids h' - set (remembered h')" for j
    using that inv t l r by (auto simp: heap_inv_def)
  ultimately show "heap_inv w h'" using tb' by (simp add: heap_inv_def)
qed

text \<open>
  A step of the program as the heap sees it. The cells and class tables may change freely as long
  as an old object that is not remembered does not come to lead to a young one; writes through
  \<open>get_mut\<close> have no such restriction.
\<close>

definition world_ok :: "world \<Rightarrow> heap \<Rightarrow> bool" where
  "world_ok w h \<longleftrightarrow>
     (\<forall>i\<in>live_ids h. refs_ok h (slot_targets w (hslots h) i)) \<and>
     (\<forall>i\<in>old_ids h - set (remembered h). ids (slot_targets w (hslots h) i) \<subseteq> old_ids h)"

type_synonym gc_state = "world \<times> rvalue list \<times> heap"

inductive gc_step :: "gc_state \<Rightarrow> gc_state \<Rightarrow> bool" where
  allocate: "obj_ok w h ob \<Longrightarrow> gc_step (w, rs, h) (w, rs, fst (alloc ob h))"
| mutate: "get h i = Some ob \<Longrightarrow> obj_ok w h (f ob) \<Longrightarrow> leaf_obj ob \<longrightarrow> leaf_obj (f ob) \<Longrightarrow>
     get_mut i f h = Some h' \<Longrightarrow> gc_step (w, rs, h) (w, rs, h')"
| new_roots: "roots_ok w h rs' \<Longrightarrow> gc_step (w, rs, h) (w, rs', h)"
| outside: "world_ok w' h \<Longrightarrow> roots_ok w' h rs \<Longrightarrow> gc_step (w, rs, h) (w', rs, h)"
| gc: "collect growth us w rs h = Some (h', pend) \<Longrightarrow> gc_step (w, rs, h) (w, rs, h')"

inductive_cases gc_stepE: "gc_step (w, rs, h) st"

lemma gc_step_inv:
  assumes s: "gc_step (w, rs, h) (w', rs', h')" and inv: "heap_inv w h" "roots_ok w h rs"
  shows "heap_inv w' h' \<and> roots_ok w' h' rs'"
  using s
proof (rule gc_stepE)
  fix ob assume "(w', rs', h') = (w, rs, fst (alloc ob h))" and ok: "obj_ok w h ob"
  then show ?thesis
    using alloc_inv [OF inv(1) ok, of h' "snd (alloc ob h)"] inv
      alloc_shape(8) [of h ob h' "snd (alloc ob h)"] refs_ok_extends
    by (auto simp: heap_inv_def roots_ok_def)
next
  fix i ob f h'' assume "(w', rs', h') = (w, rs, h'')" and
    a: "get h i = Some ob" "obj_ok w h (f ob)" "leaf_obj ob \<longrightarrow> leaf_obj (f ob)" "get_mut i f h = Some h''"
  then show ?thesis
    using get_mut_inv [OF inv(1) a] inv(2) refs_ok_extends by (auto simp: roots_ok_def)
next
  fix growth us h'' pend assume "(w', rs', h') = (w, rs, h'')" and "collect growth us w rs h = Some (h'', pend)"
  then show ?thesis using collect_someD [OF inv, of growth us h'' pend] by (simp add: collected_def)
qed (use inv in \<open>auto simp: heap_inv_def world_ok_def\<close>)

lemma heap_new_inv: "heap_inv w (heap_new ov) \<and> roots_ok w (heap_new ov) []"
  by (simp add: heap_inv_def tables_ok_def live_ids_def old_ids_def heap_new_def Let_def
      roots_ok_def root_targets_def refs_ok_def major_every_def)

lemma gc_steps_inv:
  assumes "gc_step\<^sup>*\<^sup>* (w0, [], heap_new ov) st"
  shows "case st of (w, rs, h) \<Rightarrow> heap_inv w h \<and> roots_ok w h rs"
  using assms
proof (induction rule: rtranclp_induct)
  case base
  then show ?case by (simp add: heap_new_inv)
next
  case (step st st')
  then show ?case using gc_step_inv by (cases st, cases st') auto
qed

section \<open>The properties\<close>


text \<open>Three arrays for the witnesses: 0 is empty, 1 holds 0, 2 is garbage.\<close>

definition demo_world :: world where
  "demo_world = \<lparr>cells = [], classes = []\<rparr>"

definition demo_heap :: heap where
  "demo_heap =
     fst (alloc (OArray (array_plain []))
       (fst (alloc (OArray (array_plain [VArray 0]))
         (fst (alloc (OArray (array_plain [])) (heap_new None))))))"

abbreviation demo_roots :: "rvalue list" where
  "demo_roots \<equiv> [VArray 1]"

lemma array_targets: "obj_targets w (OArray (array_plain vs)) = (\<Union>v\<in>set vs. vtargets w v)"
  by (auto simp: obj_targets_def array_plain_def)

lemma demo_steps: "gc_step\<^sup>*\<^sup>* (demo_world, [], heap_new None) (demo_world, demo_roots, demo_heap)"
proof -
  let ?h0 = "heap_new None" and ?e = "OArray (array_plain [])"
  let ?h1 = "fst (alloc ?e ?h0)" and ?a = "OArray (array_plain [VArray 0])"
  let ?h2 = "fst (alloc ?a ?h1)"
  have e: "obj_ok w h ?e" for w h by (simp add: obj_ok_def array_targets refs_ok_def)
  have a: "obj_ok demo_world ?h1 ?a"
    by (simp add: obj_ok_def array_targets refs_ok_def live_ids_def alloc_def heap_new_def Let_def)
  have r: "roots_ok demo_world demo_heap demo_roots"
    by (simp add: roots_ok_def root_targets_def refs_ok_def live_ids_def demo_heap_def alloc_def heap_new_def Let_def)
  have "gc_step (demo_world, [], ?h0) (demo_world, [], ?h1)" by (rule allocate [OF e])
  moreover have "gc_step (demo_world, [], ?h1) (demo_world, [], ?h2)" by (rule allocate [OF a])
  moreover have "gc_step (demo_world, [], ?h2) (demo_world, [], demo_heap)"
    unfolding demo_heap_def by (rule allocate [OF e])
  moreover have "gc_step (demo_world, [], demo_heap) (demo_world, demo_roots, demo_heap)"
    by (rule new_roots [OF r])
  ultimately show ?thesis by (meson rtranclp.rtrancl_into_rtrancl rtranclp.rtrancl_refl)
qed

lemma demo_inv: "heap_inv demo_world demo_heap" "roots_ok demo_world demo_heap demo_roots"
  using gc_steps_inv [OF demo_steps] by simp_all

lemma demo_reachable: "1 \<in> reachable demo_world demo_roots demo_heap"
  by (rule reachable.root) (simp add: root_targets_def ids_def)




lemma schedule_major_same:
  "hslots (schedule_major h) = hslots h" "live_ids (schedule_major h) = live_ids h"
  "old_ids (schedule_major h) = old_ids h" "get (schedule_major h) i = get h i"
  by (simp_all add: schedule_major_def live_ids_def old_ids_def get_def)

lemma schedule_major_inv: "heap_inv w h \<Longrightarrow> heap_inv w (schedule_major h)"
  unfolding heap_inv_def tables_ok_def refs_ok_def schedule_major_same
  by (simp add: schedule_major_def major_every_def)

lemma schedule_major_roots: "roots_ok w (schedule_major h) roots = roots_ok w h roots"
  unfolding roots_ok_def refs_ok_def schedule_major_same ..

lemma reachable_same_slots:
  assumes "hslots h' = hslots h"
  shows "reachable w roots h' = reachable w roots h"
proof -
  have "reachable w roots a \<subseteq> reachable w roots b" if "hslots a = hslots b" for a b
    by (rule subsetI, erule reachable.induct) (auto simp: that intro: reachable.intros)
  with assms show ?thesis by (metis subset_antisym)
qed

text \<open>C3. A major collection frees exactly the unreachable objects: the live ones are then the
  reachable ones, and their number is \<open>live_count\<close>.\<close>

theorem major_frees_all_garbage:
  assumes "heap_inv w h" and "roots_ok w h roots"
    and "collect growth us w roots (schedule_major h) = Some (h', pend)"
  shows "(\<forall>i. is_live h' i \<longleftrightarrow> i \<in> reachable w roots h) \<and> live_count h' = card (reachable w roots h)"
proof -
  note re = reachable_same_slots [OF schedule_major_same(1)]
  have mj: "\<not> is_minor (schedule_major h)"
    by (simp add: is_minor_def schedule_major_def major_every_def)
  have c: "collected w roots (schedule_major h) h' pend"
    using collect_someD [OF schedule_major_inv [OF assms(1)] _ assms(3)] assms(2)
    by (simp add: schedule_major_roots)
  then have g: "get h' i = (if i \<in> reachable w roots h then get h i else None)" for i
    using mj by (simp add: collected_def re schedule_major_same)
  have "live_ids h' = reachable w roots h"
    using g reachable_live [OF assms(1,2)] by (auto simp: get_live split: if_splits)
  moreover have "live_count h' = card (live_ids h')" using c by (simp add: collected_def heap_inv_def tables_ok_def)
  ultimately show ?thesis by (simp add: is_live_iff)
qed

theorem major_frees_all_garbage_witness:
  "\<exists>h' pend. collect 2 65 demo_world demo_roots (schedule_major demo_heap) = Some (h', pend) \<and>
     (\<forall>i. is_live h' i \<longleftrightarrow> i \<in> reachable demo_world demo_roots demo_heap) \<and>
     live_count h' = card (reachable demo_world demo_roots demo_heap)"
proof -
  obtain h' pend where "collect 2 65 demo_world demo_roots (schedule_major demo_heap) = Some (h', pend)"
    using collect_facts [OF schedule_major_inv [OF demo_inv(1)], of demo_roots 2 65] demo_inv(2)
    by (auto simp: schedule_major_roots)
  then show ?thesis using major_frees_all_garbage [OF demo_inv, of 2 65 h' pend] by blast
qed

text \<open>C4. Each \<open>dfree\<close> handed back by a collection is that of a freed object, once per object, and
  no freed object's \<open>dfree\<close> is missing.\<close>

theorem finalizers_match_freed:
  assumes "heap_inv w h" and "roots_ok w h roots" and "collect growth us w roots h = Some (h', pend)"
  shows "mset pend = (\<Sum>i | get h i \<noteq> None \<and> get h' i = None. mset (slot_pending (hslots h) i))"
proof -
  let ?freed = "\<lambda>i. get h i \<noteq> None \<and> get h' i = None"
  have tb: "tables_ok h" using assms(1) by (simp add: heap_inv_def)
  have c: "collected w roots h h' pend" by (rule collect_someD [OF assms])
  have "is_minor h \<longrightarrow> old_ids h \<subseteq> marked (mark_phase w roots h)"
    by (rule mark_phase_spec(5) [OF assms(1) heap_inv_closed [OF assms(1)]
        refs_ok_ids [OF assms(2) [unfolded roots_ok_def]] assms(2) impI [OF old_live]])
  moreover have "i \<in> live_ids h \<and> i \<notin> marked (mark_phase w roots h)" if "?freed i" for i
    using that c by (auto simp: collected_def get_live split: if_splits)
  ultimately have "{i. ?freed i} \<subseteq> set (swept h)"
    using tb by (auto simp: swept_def tables_ok_def live_ids_def)
  then have s: "set (filter ?freed (swept h)) = {i. ?freed i}" by auto
  have d: "distinct (filter ?freed (swept h))" using tb by (simp add: swept_def tables_ok_def)
  have "mset (concat (List.map f xs)) = (\<Sum>i\<in>set xs. mset (f i))" if "distinct xs" for f :: "nat \<Rightarrow> (u64 \<times> u64) list" and xs
    using that by (induction xs) auto
  from this [OF d] s c show ?thesis by (simp add: collected_def)
qed

definition typed_heap :: heap where
  "typed_heap = fst (alloc (OTypedData \<lparr>td_class = 0, td_data_ptr = 0x1000, td_type_ptr = 0, td_dfree = Some 0x2000\<rparr>)
     (heap_new None))"

lemma typed_heap_inv: "heap_inv demo_world typed_heap \<and> roots_ok demo_world typed_heap []"
proof -
  have "obj_ok demo_world (heap_new None) (OTypedData d)" for d
    by (simp add: obj_ok_def obj_targets_def refs_ok_def)
  then show ?thesis
    using alloc_inv [of demo_world "heap_new None" _ typed_heap] heap_new_inv
    by (metis typed_heap_def prod.collapse roots_ok_def root_targets_def refs_ok_def Union_empty empty_iff image_empty list.set(1))
qed

theorem finalizers_match_freed_witness:
  "\<exists>h' pend. collect 2 65 demo_world [] typed_heap = Some (h', pend) \<and>
     mset pend = (\<Sum>i | get typed_heap i \<noteq> None \<and> get h' i = None. mset (slot_pending (hslots typed_heap) i))"
proof -
  obtain h' pend where c: "collect 2 65 demo_world [] typed_heap = Some (h', pend)"
    using collect_facts [of demo_world typed_heap "[]" 2 65] typed_heap_inv by blast
  then show ?thesis using finalizers_match_freed [of demo_world typed_heap "[]" 2 65 h' pend] typed_heap_inv by blast
qed

subsection \<open>Pacing\<close>

fun collect_n :: "nat \<Rightarrow> nat \<Rightarrow> nat \<Rightarrow> world \<Rightarrow> rvalue list \<Rightarrow> heap \<Rightarrow> heap option" where
  "collect_n 0 growth us w roots h = Some h"
| "collect_n (Suc n) growth us w roots h =
     (case collect growth us w roots h of None \<Rightarrow> None | Some (h', _) \<Rightarrow> collect_n n growth us w roots h')"

lemma slot_targets_get:
  "slot_targets w (hslots h) i = (case get h i of None \<Rightarrow> {} | Some ob \<Rightarrow> obj_targets w ob)"
  by (auto simp: slot_targets_def get_def split: slot.splits)

lemma collected_reachable:
  assumes "collected w roots h h' pend"
  shows "reachable w roots h' = reachable w roots h"
proof
  have same: "get h' i = get h i" if "i \<in> reachable w roots h" for i
    using assms that by (auto simp: collected_def)
  show "reachable w roots h' \<subseteq> reachable w roots h"
  proof
    fix i assume "i \<in> reachable w roots h'"
    then show "i \<in> reachable w roots h"
      by induction (auto simp: slot_targets_get same intro: reachable.intros)
  qed
  show "reachable w roots h \<subseteq> reachable w roots h'"
  proof
    fix i assume "i \<in> reachable w roots h"
    then show "i \<in> reachable w roots h'"
    proof induction
      case (step i j)
      then have "j \<in> ids (slot_targets w (hslots h') i)" using same by (simp add: slot_targets_get)
      with step.IH show ?case by (rule reachable.step)
    qed (rule reachable.root)
  qed
qed

lemma collect_minors:
  "collect growth us w roots h = Some (h', pend) \<Longrightarrow>
     minors_since_major h' = (if is_minor h then minors_since_major h + 1 else 0)"
  by (auto simp: collect_def Let_def split: if_splits)

lemma collect_n_garbage:
  assumes "heap_inv w h" and "roots_ok w h roots"
    and "major_every - minors_since_major h \<le> n \<or> live_ids h = reachable w roots h"
  shows "\<exists>h'. collect_n n growth us w roots h = Some h' \<and> live_ids h' = reachable w roots h"
  using assms
proof (induction n arbitrary: h)
  case 0
  then show ?case by (auto simp: heap_inv_def tables_ok_def)
next
  case (Suc n)
  obtain h1 pend where c: "collect growth us w roots h = Some (h1, pend)" "collected w roots h h1 pend"
    using collect_facts [OF Suc.prems(1,2)] by blast
  have re: "reachable w roots h1 = reachable w roots h" by (rule collected_reachable [OF c(2)])
  have ok: "heap_inv w h1" "roots_ok w h1 roots" using c(2) by (simp_all add: collected_def)
  have g: "get h1 i = (if i \<in> marked (mark_phase w roots h) then get h i else None)" for i
    using c(2) by (simp add: collected_def)
  have sub: "live_ids h1 \<subseteq> live_ids h" using g by (auto simp: get_live split: if_splits)
  have "major_every - minors_since_major h1 \<le> n \<or> live_ids h1 = reachable w roots h1"
  proof (cases "is_minor h \<and> live_ids h \<noteq> reachable w roots h")
    case True
    then have "minors_since_major h1 = minors_since_major h + 1" using collect_minors [OF c(1)] by simp
    with True Suc.prems(3) show ?thesis by auto
  next
    case False
    have "live_ids h1 \<subseteq> reachable w roots h"
    proof (cases "is_minor h")
      case False
      then have "marked (mark_phase w roots h) = reachable w roots h" using c(2) by (simp add: collected_def)
      then show ?thesis using g by (auto simp: get_live split: if_splits)
    qed (use False sub in auto)
    moreover have "reachable w roots h1 \<subseteq> live_ids h1" by (rule reachable_live [OF ok])
    ultimately show ?thesis using re by simp
  qed
  from Suc.IH [OF ok this] c(1) re show ?case by simp
qed

text \<open>C5. Garbage is not kept for ever, even if it is old: eight collections in a row contain a major
  one, after which exactly the reachable objects are live.\<close>

theorem garbage_gone_after_eight:
  assumes "heap_inv w h" and "roots_ok w h roots"
  shows "\<exists>h'. collect_n 8 growth us w roots h = Some h' \<and> (\<forall>i. is_live h' i \<longleftrightarrow> i \<in> reachable w roots h)"
  using collect_n_garbage [OF assms, of 8 growth us] by (auto simp: major_every_def is_live_iff)

theorem garbage_gone_after_eight_witness:
  "\<exists>h'. collect_n 8 2 65 demo_world demo_roots demo_heap = Some h' \<and>
     (\<forall>i. is_live h' i \<longleftrightarrow> i \<in> reachable demo_world demo_roots demo_heap)"
  by (rule garbage_gone_after_eight [OF demo_inv])

text \<open>C6. The trigger after a collection (growth factor at least 2, no override): the floor is between
  4096 and 32768 slots, it is above 4096 only when this collection and the one before each took
  more than 256 microseconds; the trigger is at least twice the live count and at least the floor,
  so the next collection is never due at once.\<close>

theorem gc_pacing:
  assumes "collect growth us w roots h = Some (h', pend)" and "floor_override h = None" and "2 \<le> growth"
  shows "4096 \<le> gc_floor h' \<and> gc_floor h' \<le> 32768 \<and>
    (4096 < gc_floor h' \<longrightarrow> 256 < us \<and> 256 < last_sweep_us h) \<and>
    2 * live_count h' \<le> next_gc h' \<and> gc_floor h' \<le> next_gc h' \<and> \<not> should_gc h'"
proof -
  define c where "c = min us (last_sweep_us h)"
  have r: "gc_floor h' = adaptive_floor c" "next_gc h' = max (live_count h' * growth) (gc_floor h')"
    using assms(1,2) by (auto simp: collect_def Let_def c_def split: if_splits)
  have f: "4096 \<le> adaptive_floor c" "adaptive_floor c \<le> 32768" "4096 < adaptive_floor c \<longrightarrow> 256 < c"
    by (auto simp: adaptive_floor_def Let_def gc_floor_min_def gc_floor_max_def
        gc_floor_allocs_per_sweep_us_def)
  have "live_count h' * 2 \<le> live_count h' * growth" using assms(3) by simp
  then have n: "2 * live_count h' \<le> next_gc h'" "gc_floor h' \<le> next_gc h'" using r(2) by linarith+
  then have "\<not> next_gc h' \<le> live_count h'" using f(1) r(1) by linarith
  with n f r(1) show ?thesis by (simp add: should_gc_def c_def)
qed

theorem gc_pacing_witness:
  "\<exists>h' pend. collect 2 65 demo_world demo_roots demo_heap = Some (h', pend) \<and>
     gc_floor h' = 4096 \<and>
     2 * live_count h' \<le> next_gc h' \<and> gc_floor h' \<le> next_gc h' \<and> \<not> should_gc h'"
proof -
  obtain h' pend where c: "collect 2 65 demo_world demo_roots demo_heap = Some (h', pend)"
    using collect_facts [OF demo_inv] by blast
  have "floor_override demo_heap = None" by (simp add: demo_heap_def alloc_def heap_new_def Let_def)
  from gc_pacing [OF c this] have "4096 \<le> gc_floor h' \<and> \<not> 4096 < gc_floor h' \<and>
     2 * live_count h' \<le> next_gc h' \<and> gc_floor h' \<le> next_gc h' \<and> \<not> should_gc h'"
    by simp
  with c show ?thesis by (intro exI conjI) (assumption | simp)+
qed

section \<open>Two gaps\<close>

text \<open>A closure over one variable, the way \<open>def mk; x = nil; ->(v) { x = v }; end\<close> builds it.\<close>

definition escaped_world :: world where
  "escaped_world = \<lparr>cells = [[VNil]], classes = []\<rparr>"

definition escaped_block :: block_handle where
  "escaped_block = \<lparr>bh_proto = 0, bh_captured = 0, bh_self_val = VNil, bh_param_start = 1, bh_n_params = 1,
     bh_captured_is_method_scope = True, bh_yield_block = None, bh_is_lambda = True,
     bh_outer_chain = None, bh_creator_start = 0\<rparr>"

definition escaped_old :: heap where
  "escaped_old = \<lparr>hslots = [Live (OBlock escaped_block)], marks = [True], free = [], live_count = 1,
     next_gc = 4096, gc_floor = 4096, floor_override = None, last_sweep_us = 65, old = [True],
     remembered = [], minors_since_major = 1, young_slots = [], suspended_fibers = 0\<rparr>"

lemmas collect_eval =
  collect_def mark_phase_def mark_loop.simps mark_step_def walk_obj_def reset_marks_def is_minor_def
  major_every_def visit_values_def visit_heap_def sweep_def sweep_slot_def alloc_def heap_new_def
  adaptive_floor_def gc_floor_min_def gc_floor_max_def gc_floor_allocs_per_sweep_us_def
  bh_cells_def capture_cells_def opt_vals_def cell_def sorted_dedup_def Let_def

lemma escaped_collect:
  "collect 2 65 escaped_world [VBlock 0] (fst (alloc (OBlock escaped_block) (heap_new None))) = Some (escaped_old, [])"
  by (simp add: collect_eval escaped_world_def escaped_block_def escaped_old_def)

lemma escaped_swept:
  "\<exists>h' p. collect 2 65 (cell_store 0 0 (VArray 1) escaped_world) [VBlock 0]
      (fst (alloc (OArray (array_plain [])) escaped_old)) = Some (h', p) \<and> hslots h' ! 1 = Dead"
  by (simp add: collect_eval escaped_world_def escaped_block_def escaped_old_def cell_store_def numeral_2_eq_2 upt_rec)

text \<open>C7. The guarded step of \<open>no_use_after_free\<close> is needed: a closure is allocated and survives a
  collection, a new array is assigned to the variable it captured (\<open>cell_store\<close>), and the next
  minor collection frees the array although the closure, a root, still leads to it.\<close>

theorem captured_write_escapes_barrier:
  "\<exists>h1 h2 h3 p q.
     collect 2 65 escaped_world [VBlock 0] (fst (alloc (OBlock escaped_block) (heap_new None))) = Some (h1, p) \<and>
     alloc (OArray (array_plain [])) h1 = (h2, 1) \<and>
     1 \<in> reachable (cell_store 0 0 (VArray 1) escaped_world) [VBlock 0] h2 \<and>
     collect 2 65 (cell_store 0 0 (VArray 1) escaped_world) [VBlock 0] h2 = Some (h3, q) \<and>
     get h2 1 \<noteq> None \<and> get h3 1 = None"
proof -
  let ?w = "cell_store 0 0 (VArray 1) escaped_world"
  let ?h2 = "fst (alloc (OArray (array_plain [])) escaped_old)"
  have a: "alloc (OArray (array_plain [])) escaped_old = (?h2, 1)" and g: "get ?h2 1 \<noteq> None"
    by (simp_all add: alloc_def escaped_old_def Let_def get_def)
  obtain h3 q where c: "collect 2 65 ?w [VBlock 0] ?h2 = Some (h3, q)" and d: "hslots h3 ! 1 = Dead"
    using escaped_swept by blast
  have "0 \<in> reachable ?w [VBlock 0] ?h2"
    by (rule reachable.root) (simp add: root_targets_def ids_def)
  moreover have "1 \<in> ids (slot_targets ?w (hslots ?h2) 0)"
    by (simp add: slot_targets_def alloc_def escaped_old_def Let_def obj_targets_def escaped_block_def
        bh_cells_def capture_cells_def opt_vals_def cell_def cell_store_def escaped_world_def ids_def)
  ultimately have "1 \<in> reachable ?w [VBlock 0] ?h2" by (rule reachable.step)
  moreover have "get h3 1 = None" using d by (simp add: get_def)
  ultimately show ?thesis using escaped_collect a g c by blast
qed

text \<open>
  A fiber suspended inside a \<open>begin\<close> body: its frame saved the previous value of \<open>$!\<close>, to be put back
  when the body ends.
\<close>

definition parked_fiber :: fiber_obj where
  "parked_fiber = \<lparr>fb_body_block = 0, fb_last_value = VNil, fb_locals = VNil, fb_state = Suspended,
     fb_snapshot = \<lparr>fs_frames = [\<lparr>f_locals = None, f_outer_cell = None, f_outer_rest = None, f_self_val = VNil,
         f_swap_return = None, f_block_arg = None, f_yield_block = None, f_saved_bangs = [VObject 1]\<rparr>],
       fs_locals_arena = [], fs_stack = [], fs_pinned = [], fs_method_return = None,
       fs_break_values = [], fs_method_breaks = []\<rparr>\<rparr>"

definition parked_exception :: instance_obj where
  "parked_exception = \<lparr>i_class = 0, i_ivars = ivar_table_default, i_singleton = None, i_frozen = False\<rparr>"

definition parked_heap :: heap where
  "parked_heap = fst (alloc (OFiber parked_fiber) (fst (alloc (OInstance parked_exception)
     (fst (alloc (OBlock escaped_block) (heap_new None))))))"


end
