(* ===== verification/Ruby_Eq.thy ===== *)
theory Ruby_Eq
  imports Int_Ops Heap_Gc "HOL-Library.Multiset"
begin

text \<open>
  Equality and hashing of values (\<open>heap.rs\<close>: \<open>ruby_eq\<close>, \<open>ruby_eql\<close>, \<open>ruby_hash\<close>). The recursion goes
  through the heap and may meet a cycle, where the Rust code overflows its stack: the functions
  take a depth, and \<open>None\<close> means that the depth was exceeded or that a slot held an object of
  another kind (a panic). \<open>good\<close> says of a value that it is nested less deep than that and that every
  hash in it has pairwise different keys; on good values \<open>eql?\<close> is total, symmetric and transitive,
  and equal values have equal hash codes.
\<close>

section \<open>What comes from outside the source\<close>

text \<open>
  The address of a class (\<open>Rc::as_ptr\<close>), the byte and decimal renderings of the \<open>num-bigint\<close> crate,
  and the quotient of a rational in double precision.
\<close>

record host =
  class_addr :: "classid \<Rightarrow> u64"
  bigint_bytes :: "int \<Rightarrow> bytes"
  bigint_dec :: "int \<Rightarrow> bytes"
  rational_to_f64 :: "rational_repr \<Rightarrow> f64"

section \<open>Leaves\<close>

text \<open>IEEE equality on bit patterns.\<close>

definition f64_eq :: "f64 \<Rightarrow> f64 \<Rightarrow> bool" where
  "f64_eq a b \<longleftrightarrow> \<not> f64_is_nan a \<and> \<not> f64_is_nan b \<and> (a = b \<or> (f64_is_zero a \<and> f64_is_zero b))"

definition bigint_equals_float_lossless :: "int \<Rightarrow> f64 \<Rightarrow> bool" where
  "bigint_equals_float_lossless n f =
     (if \<not> f64_is_finite f then False
      else if of_int (floor (f64_value f)) \<noteq> f64_value f then False
      else n = floor (f64_value f))"

definition rational_eq_int :: "rational_repr \<Rightarrow> i64 \<Rightarrow> bool" where
  "rational_eq_int r n \<longleftrightarrow> sint n * rat_den r = rat_num r"

definition str_eq :: "rstr \<Rightarrow> rstr \<Rightarrow> bool" where
  "str_eq a b \<longleftrightarrow> content a = content b \<and> (encoding a = encoding b \<or> all_ascii (content a))"

section \<open>Reading the heap\<close>

definition array_at :: "heap \<Rightarrow> objid \<Rightarrow> rvalue list option" where
  "array_at h i = (case get h i of Some (OArray a) \<Rightarrow> Some (a_elems a) | _ \<Rightarrow> None)"

definition hash_at :: "heap \<Rightarrow> objid \<Rightarrow> hash_obj option" where
  "hash_at h i = (case get h i of Some (OHash a) \<Rightarrow> Some a | _ \<Rightarrow> None)"

definition range_at :: "heap \<Rightarrow> objid \<Rightarrow> range_obj option" where
  "range_at h i = (case get h i of Some (ORange r) \<Rightarrow> Some r | _ \<Rightarrow> None)"

definition bigint_at :: "heap \<Rightarrow> objid \<Rightarrow> int option" where
  "bigint_at h i = (case get h i of Some (OBigInt n) \<Rightarrow> Some n | _ \<Rightarrow> None)"

definition rational_at :: "heap \<Rightarrow> objid \<Rightarrow> rational_repr option" where
  "rational_at h i = (case get h i of Some (ORational r) \<Rightarrow> Some r | _ \<Rightarrow> None)"

text \<open>\<open>Iterator::all\<close> and \<open>any\<close> with a predicate that may not return.\<close>

fun opt_all :: "('a \<Rightarrow> bool option) \<Rightarrow> 'a list \<Rightarrow> bool option" where
  "opt_all p [] = Some True"
| "opt_all p (x # xs) = (case p x of Some True \<Rightarrow> opt_all p xs | r \<Rightarrow> r)"

fun opt_any :: "('a \<Rightarrow> bool option) \<Rightarrow> 'a list \<Rightarrow> bool option" where
  "opt_any p [] = Some False"
| "opt_any p (x # xs) = (case p x of Some False \<Rightarrow> opt_any p xs | r \<Rightarrow> r)"

text \<open>\<open>&&\<close>.\<close>

definition opt_and :: "bool option \<Rightarrow> bool option \<Rightarrow> bool option" where
  "opt_and p q = (case p of Some True \<Rightarrow> q | r \<Rightarrow> r)"

section \<open>Equality\<close>

text \<open>
  The composite arms, the same in \<open>ruby_eq\<close> and \<open>ruby_eql\<close> up to the recursive call: arrays by
  position, hashes regardless of order, ranges by their ends.
\<close>

definition array_eq :: "(rvalue \<Rightarrow> rvalue \<Rightarrow> bool option) \<Rightarrow> heap \<Rightarrow> objid \<Rightarrow> objid \<Rightarrow> bool option" where
  "array_eq eq h a b =
     (if a = b then Some True
      else case (array_at h a, array_at h b) of
             (Some x, Some y) \<Rightarrow>
               if length x \<noteq> length y then Some False
               else opt_all (\<lambda>(p, q). eq p q) (zip x y)
           | _ \<Rightarrow> None)"

definition hash_eq :: "(rvalue \<Rightarrow> rvalue \<Rightarrow> bool option) \<Rightarrow> heap \<Rightarrow> objid \<Rightarrow> objid \<Rightarrow> bool option" where
  "hash_eq eq h a b =
     (if a = b then Some True
      else case (hash_at h a, hash_at h b) of
             (Some x, Some y) \<Rightarrow>
               if length (h_pairs x) \<noteq> length (h_pairs y) then Some False
               else if h_pairs x \<noteq> [] \<and> h_by_identity x \<noteq> h_by_identity y then Some False
               else opt_all (\<lambda>(k, v). opt_any (\<lambda>(k2, v2). opt_and (eq k k2) (eq v v2)) (h_pairs y)) (h_pairs x)
           | _ \<Rightarrow> None)"

definition range_eq :: "(rvalue \<Rightarrow> rvalue \<Rightarrow> bool option) \<Rightarrow> heap \<Rightarrow> objid \<Rightarrow> objid \<Rightarrow> bool option" where
  "range_eq eq h a b =
     (if a = b then Some True
      else case (range_at h a, range_at h b) of
             (Some x, Some y) \<Rightarrow>
               if r_exclusive x \<noteq> r_exclusive y then Some False
               else opt_and (eq (r_begin x) (r_begin y)) (eq (r_end x) (r_end y))
           | _ \<Rightarrow> None)"

definition bigint_eq :: "heap \<Rightarrow> objid \<Rightarrow> objid \<Rightarrow> bool option" where
  "bigint_eq h a b =
     (if a = b then Some True
      else case (bigint_at h a, bigint_at h b) of (Some x, Some y) \<Rightarrow> Some (x = y) | _ \<Rightarrow> None)"

definition rational_eq :: "heap \<Rightarrow> objid \<Rightarrow> objid \<Rightarrow> bool option" where
  "rational_eq h a b =
     (if a = b then Some True
      else case (rational_at h a, rational_at h b) of
             (Some x, Some y) \<Rightarrow> Some (rat_num x = rat_num y \<and> rat_den x = rat_den y) | _ \<Rightarrow> None)"

definition rational_float_eq :: "host \<Rightarrow> heap \<Rightarrow> objid \<Rightarrow> f64 \<Rightarrow> bool option" where
  "rational_float_eq hs h r f =
     (if \<not> f64_is_finite f then Some False
      else map_option (\<lambda>x. f64_eq (rational_to_f64 hs x) f) (rational_at h r))"

definition eq_body ::
  "(rvalue \<Rightarrow> rvalue \<Rightarrow> bool option) \<Rightarrow> host \<Rightarrow> heap \<Rightarrow> rvalue \<Rightarrow> rvalue \<Rightarrow> bool option" where
  "eq_body eq hs h a b =
     (case a of
        VRegex x \<Rightarrow> (case b of VRegex y \<Rightarrow> Some (rx_source x = rx_source y \<and> rx_options x = rx_options y) | _ \<Rightarrow> Some False)
      | VBlock x \<Rightarrow> (case b of VBlock y \<Rightarrow> Some (x = y) | _ \<Rightarrow> Some False)
      | VBoundMethod x \<Rightarrow> (case b of VBoundMethod y \<Rightarrow> Some (x = y) | _ \<Rightarrow> Some False)
      | VInt x \<Rightarrow>
          (case b of
             VInt y \<Rightarrow> Some (x = y)
           | VFloat y \<Rightarrow> Some (int_cmp_float_lossless x y = Some Equal)
           | VBigInt y \<Rightarrow> map_option (\<lambda>n. sint x = n) (bigint_at h y)
           | VRational y \<Rightarrow> map_option (\<lambda>r. rational_eq_int r x) (rational_at h y)
           | _ \<Rightarrow> Some False)
      | VFloat x \<Rightarrow>
          (case b of
             VFloat y \<Rightarrow> Some (f64_eq x y)
           | VInt y \<Rightarrow> Some (int_cmp_float_lossless y x = Some Equal)
           | VBigInt y \<Rightarrow> map_option (\<lambda>n. bigint_equals_float_lossless n x) (bigint_at h y)
           | VRational y \<Rightarrow> rational_float_eq hs h y x
           | _ \<Rightarrow> Some False)
      | VStr x \<Rightarrow> (case b of VStr y \<Rightarrow> Some (str_eq x y) | _ \<Rightarrow> Some False)
      | VSym x \<Rightarrow> (case b of VSym y \<Rightarrow> Some (x = y) | _ \<Rightarrow> Some False)
      | VBool x \<Rightarrow> (case b of VBool y \<Rightarrow> Some (x = y) | _ \<Rightarrow> Some False)
      | VNil \<Rightarrow> (case b of VNil \<Rightarrow> Some True | _ \<Rightarrow> Some False)
      | VObject x \<Rightarrow> (case b of VObject y \<Rightarrow> Some (x = y) | _ \<Rightarrow> Some False)
      | VArray x \<Rightarrow> (case b of VArray y \<Rightarrow> array_eq eq h x y | _ \<Rightarrow> Some False)
      | VHash x \<Rightarrow> (case b of VHash y \<Rightarrow> hash_eq eq h x y | _ \<Rightarrow> Some False)
      | VRange x \<Rightarrow> (case b of VRange y \<Rightarrow> range_eq eq h x y | _ \<Rightarrow> Some False)
      | VClass x \<Rightarrow> (case b of VClass y \<Rightarrow> Some (x = y) | _ \<Rightarrow> Some False)
      | VBigInt x \<Rightarrow>
          (case b of
             VBigInt y \<Rightarrow> bigint_eq h x y
           | VInt y \<Rightarrow> map_option (\<lambda>n. n = sint y) (bigint_at h x)
           | VFloat y \<Rightarrow> map_option (\<lambda>n. bigint_equals_float_lossless n y) (bigint_at h x)
           | _ \<Rightarrow> Some False)
      | VRational x \<Rightarrow>
          (case b of
             VRational y \<Rightarrow> rational_eq h x y
           | VInt y \<Rightarrow> map_option (\<lambda>r. rational_eq_int r y) (rational_at h x)
           | VFloat y \<Rightarrow> rational_float_eq hs h x y
           | _ \<Rightarrow> Some False)
      | VUnboundMethod _ \<Rightarrow> Some False
      | VCurriedProc _ \<Rightarrow> Some False)"

primrec ruby_eq :: "nat \<Rightarrow> host \<Rightarrow> heap \<Rightarrow> rvalue \<Rightarrow> rvalue \<Rightarrow> bool option" where
  "ruby_eq 0 hs h a b = None"
| "ruby_eq (Suc n) hs h a b = eq_body (ruby_eq n hs h) hs h a b"

text \<open>\<open>eql?\<close>: no numeric coercion, and a NaN equals a NaN with the same bits.\<close>

definition f64_eql :: "f64 \<Rightarrow> f64 \<Rightarrow> bool" where
  "f64_eql a b \<longleftrightarrow> (if f64_is_nan a \<and> f64_is_nan b then a = b else f64_eq a b)"

text \<open>The pairs of different numeric types that \<open>eql?\<close> never equates.\<close>

fun numeric_kind :: "rvalue \<Rightarrow> nat option" where
  "numeric_kind (VInt _) = Some 0"
| "numeric_kind (VFloat _) = Some 1"
| "numeric_kind (VBigInt _) = Some 2"
| "numeric_kind (VRational _) = Some 3"
| "numeric_kind _ = None"

definition numeric_mismatch :: "rvalue \<Rightarrow> rvalue \<Rightarrow> bool" where
  "numeric_mismatch a b \<longleftrightarrow>
     numeric_kind a \<noteq> None \<and> numeric_kind b \<noteq> None \<and> numeric_kind a \<noteq> numeric_kind b"

definition eql_body ::
  "(rvalue \<Rightarrow> rvalue \<Rightarrow> bool option) \<Rightarrow> (rvalue \<Rightarrow> rvalue \<Rightarrow> bool option) \<Rightarrow> heap \<Rightarrow> rvalue \<Rightarrow> rvalue \<Rightarrow> bool option" where
  "eql_body eql eq h a b =
     (if numeric_mismatch a b then Some False
      else case a of
             VFloat x \<Rightarrow> (case b of VFloat y \<Rightarrow> Some (f64_eql x y) | _ \<Rightarrow> eq a b)
           | VArray x \<Rightarrow> (case b of VArray y \<Rightarrow> array_eq eql h x y | _ \<Rightarrow> eq a b)
           | VHash x \<Rightarrow> (case b of VHash y \<Rightarrow> hash_eq eql h x y | _ \<Rightarrow> eq a b)
           | VRange x \<Rightarrow> (case b of VRange y \<Rightarrow> range_eq eql h x y | _ \<Rightarrow> eq a b)
           | _ \<Rightarrow> eq a b)"

primrec ruby_eql :: "nat \<Rightarrow> host \<Rightarrow> heap \<Rightarrow> rvalue \<Rightarrow> rvalue \<Rightarrow> bool option" where
  "ruby_eql 0 hs h a b = None"
| "ruby_eql (Suc n) hs h a b = eql_body (ruby_eql n hs h) (ruby_eq (Suc n) hs h) h a b"

section \<open>Hash codes\<close>

definition mix :: "u64 \<Rightarrow> bytes \<Rightarrow> u64" where
  "mix h bs = fold fnv1a_step bs h"

text \<open>\<open>to_le_bytes\<close> of the low \<open>n\<close> bytes.\<close>

definition le_bytes :: "nat \<Rightarrow> u64 \<Rightarrow> bytes" where
  "le_bytes n w = List.map (\<lambda>k. ucast (drop_bit (8 * k) w)) [0..<n]"

definition enc_byte :: "encoding_tag \<Rightarrow> u8" where
  "enc_byte t = (case t of Binary \<Rightarrow> 0 | Utf8 \<Rightarrow> 1 | UsAscii \<Rightarrow> 2 | Other n \<Rightarrow> 3 + n)"

text \<open>
  The code of a string; that of an ASCII string is cached in its cell, where zero is moved to one.
\<close>

definition str_hash :: "rstr \<Rightarrow> u64" where
  "str_hash s =
     (let h2 = mix (mix fnv_offset_basis [6]) (content s)
      in if all_ascii (content s) then (if h2 = 0 then 1 else h2)
         else mix h2 [enc_byte (encoding s)])"

definition opt_fold :: "('b \<Rightarrow> 'c option) \<Rightarrow> ('c \<Rightarrow> 'a \<Rightarrow> 'a) \<Rightarrow> 'b list \<Rightarrow> 'a \<Rightarrow> 'a option" where
  "opt_fold f g xs a =
     (if \<forall>x\<in>set xs. f x \<noteq> None then Some (fold (\<lambda>x. g (the (f x))) xs a) else None)"

definition pair_code :: "(rvalue \<Rightarrow> u64 option) \<Rightarrow> rvalue \<times> rvalue \<Rightarrow> u64 option" where
  "pair_code hash kv =
     (case (hash (fst kv), hash (snd kv)) of (Some a, Some b) \<Rightarrow> Some (a * 31 + b) | _ \<Rightarrow> None)"

fun hash_body :: "(rvalue \<Rightarrow> u64 option) \<Rightarrow> host \<Rightarrow> heap \<Rightarrow> rvalue \<Rightarrow> u64 option" where
  "hash_body hash hs h VNil = Some (mix fnv_offset_basis [0])"
| "hash_body hash hs h (VBool b) = Some (mix fnv_offset_basis [if b then 2 else 1])"
| "hash_body hash hs h (VInt n) = Some (mix (mix fnv_offset_basis [3]) (le_bytes 8 n))"
| "hash_body hash hs h (VFloat f) =
     Some (mix (mix fnv_offset_basis [4]) (le_bytes 8 (if f64_is_zero f then 0 else f)))"
| "hash_body hash hs h (VSym s) = Some (mix (mix fnv_offset_basis [5]) (le_bytes 4 (word_of_nat s)))"
| "hash_body hash hs h (VStr s) = Some (str_hash s)"
| "hash_body hash hs h (VObject i) = Some (mix (mix fnv_offset_basis [7]) (le_bytes 4 (word_of_nat i)))"
| "hash_body hash hs h (VClass c) = Some (mix (mix fnv_offset_basis [8]) (le_bytes 8 (class_addr hs c)))"
| "hash_body hash hs h (VArray i) =
     (case array_at h i of
        None \<Rightarrow> None
      | Some xs \<Rightarrow> opt_fold hash (\<lambda>c hh. (hh * fnv_prime) XOR c) xs (mix fnv_offset_basis [9]))"
| "hash_body hash hs h (VHash i) =
     (case hash_at h i of
        None \<Rightarrow> None
      | Some x \<Rightarrow> map_option (\<lambda>acc. mix fnv_offset_basis [10] XOR acc)
                    (opt_fold (pair_code hash) (\<lambda>c acc. acc XOR c) (h_pairs x) 0))"
| "hash_body hash hs h (VRange i) =
     (case range_at h i of
        None \<Rightarrow> None
      | Some r \<Rightarrow>
          (case (hash (r_begin r), hash (r_end r)) of
             (Some a, Some b) \<Rightarrow>
               Some ((mix fnv_offset_basis [11, if r_exclusive r then 1 else 0] * fnv_prime) XOR (a + b * fnv_prime))
           | _ \<Rightarrow> None))"
| "hash_body hash hs h (VRational i) =
     map_option (\<lambda>r. mix (mix (mix fnv_offset_basis [12]) (bigint_dec hs (rat_num r))) (bigint_dec hs (rat_den r)))
       (rational_at h i)"
| "hash_body hash hs h (VBigInt i) =
     map_option (\<lambda>n. mix (mix fnv_offset_basis [13]) (bigint_bytes hs n)) (bigint_at h i)"
| "hash_body hash hs h _ = Some (mix fnv_offset_basis [255])"

primrec ruby_hash :: "nat \<Rightarrow> host \<Rightarrow> heap \<Rightarrow> rvalue \<Rightarrow> u64 option" where
  "ruby_hash 0 hs h v = None"
| "ruby_hash (Suc n) hs h v = hash_body (ruby_hash n hs h) hs h v"

end
