(* ===== verification/Eql_Hash.thy ===== *)
theory Eql_Hash
  imports Ruby_Eq
begin

text \<open>
  \<open>eql?\<close> and hash codes on good values: \<open>eql?\<close> is total, symmetric and transitive, and equal values
  have equal codes. The interesting case is a hash inside a value: equality looks for every pair
  of one side in the other, the code is the XOR of the pairs' codes, and the two agree because the
  keys of a hash are pairwise different, so the pairs found are a bijection.
\<close>

primrec good :: "nat \<Rightarrow> host \<Rightarrow> heap \<Rightarrow> rvalue \<Rightarrow> bool" where
  "good 0 hs h v \<longleftrightarrow> False"
| "good (Suc n) hs h v \<longleftrightarrow>
     (case v of
        VArray i \<Rightarrow> (case array_at h i of None \<Rightarrow> False | Some xs \<Rightarrow> \<forall>x\<in>set xs. good n hs h x)
      | VHash i \<Rightarrow>
          (case hash_at h i of
             None \<Rightarrow> False
           | Some x \<Rightarrow> (\<forall>(k, v)\<in>set (h_pairs x). good n hs h k \<and> good n hs h v) \<and>
               sorted_wrt (\<lambda>a b. ruby_eql n hs h a b \<noteq> Some True) (List.map fst (h_pairs x)))
      | VRange i \<Rightarrow> (case range_at h i of None \<Rightarrow> False | Some r \<Rightarrow> good n hs h (r_begin r) \<and> good n hs h (r_end r))
      | VRational i \<Rightarrow> rational_at h i \<noteq> None
      | VBigInt i \<Rightarrow> bigint_at h i \<noteq> None
      | _ \<Rightarrow> True)"

section \<open>The short-circuit combinators\<close>

lemma opt_all_True: "opt_all p xs = Some True \<longleftrightarrow> (\<forall>x\<in>set xs. p x = Some True)"
  by (induction xs) (auto split: option.splits bool.splits)

lemma opt_all_total: "\<forall>x\<in>set xs. p x \<noteq> None \<Longrightarrow> opt_all p xs \<noteq> None"
  by (induction xs) (auto split: option.splits bool.splits)

lemma opt_any_value: "\<forall>x\<in>set xs. p x \<noteq> None \<Longrightarrow> opt_any p xs = Some (\<exists>x\<in>set xs. p x = Some True)"
proof (induction xs)
  case (Cons x xs)
  from Cons.prems obtain b where "p x = Some b" by auto
  with Cons show ?case by (cases b) simp_all
qed simp

lemma opt_and_True: "opt_and p q = Some True \<longleftrightarrow> p = Some True \<and> q = Some True"
  by (auto simp: opt_and_def split: option.splits bool.splits)

lemma opt_and_total: "p \<noteq> None \<Longrightarrow> q \<noteq> None \<Longrightarrow> opt_and p q \<noteq> None"
  by (auto simp: opt_and_def split: option.splits bool.splits)

section \<open>Partial equivalences\<close>

definition equates :: "(rvalue \<Rightarrow> rvalue \<Rightarrow> bool option) \<Rightarrow> rvalue set \<Rightarrow> bool" where
  "equates eq G \<longleftrightarrow>
     (\<forall>a\<in>G. \<forall>b\<in>G. eq a b \<noteq> None \<and> (eq a b = Some True \<longrightarrow> eq b a = Some True)) \<and>
     (\<forall>a\<in>G. \<forall>b\<in>G. \<forall>c\<in>G. eq a b = Some True \<longrightarrow> eq b c = Some True \<longrightarrow> eq a c = Some True)"

lemma equates_total: "equates eq G \<Longrightarrow> a \<in> G \<Longrightarrow> b \<in> G \<Longrightarrow> eq a b \<noteq> None"
  unfolding equates_def by blast

lemma pair_mem: "set ps \<subseteq> G \<times> G \<Longrightarrow> p \<in> set ps \<Longrightarrow> fst p \<in> G \<and> snd p \<in> G"
  by (metis mem_Times_iff subsetD)

lemma equates_sym: "equates eq G \<Longrightarrow> a \<in> G \<Longrightarrow> b \<in> G \<Longrightarrow> eq a b = Some True \<Longrightarrow> eq b a = Some True"
  unfolding equates_def by blast

lemma equates_trans:
  "equates eq G \<Longrightarrow> a \<in> G \<Longrightarrow> b \<in> G \<Longrightarrow> c \<in> G \<Longrightarrow> eq a b = Some True \<Longrightarrow> eq b c = Some True \<Longrightarrow> eq a c = Some True"
  unfolding equates_def by blast

text \<open>Two pairs match when both parts are equal; with distinct keys the matches form a bijection.\<close>

definition matches :: "(rvalue \<Rightarrow> rvalue \<Rightarrow> bool option) \<Rightarrow> rvalue \<times> rvalue \<Rightarrow> rvalue \<times> rvalue \<Rightarrow> bool" where
  "matches eq p q \<longleftrightarrow> eq (fst p) (fst q) = Some True \<and> eq (snd p) (snd q) = Some True"

definition good_pairs :: "(rvalue \<Rightarrow> rvalue \<Rightarrow> bool option) \<Rightarrow> rvalue set \<Rightarrow> (rvalue \<times> rvalue) list \<Rightarrow> bool" where
  "good_pairs eq G ps \<longleftrightarrow> set ps \<subseteq> G \<times> G \<and> sorted_wrt (\<lambda>a b. eq a b \<noteq> Some True) (List.map fst ps)"

lemma matching_bij:
  assumes eq: "equates eq G" and x: "good_pairs eq G xs" and y: "good_pairs eq G ys"
    and len: "length xs = length ys" and all: "\<forall>p\<in>set xs. \<exists>q\<in>set ys. matches eq p q"
  obtains f where "bij_betw f {..<length xs} {..<length xs}" and "\<forall>i<length xs. matches eq (xs ! i) (ys ! f i)"
proof -
  have "\<exists>j<length xs. matches eq (xs ! i) (ys ! j)" if "i < length xs" for i
    using all that len by (metis in_set_conv_nth nth_mem)
  then obtain f where f: "\<forall>i<length xs. f i < length xs \<and> matches eq (xs ! i) (ys ! f i)" by metis
  have mem: "fst (xs ! i) \<in> G" "fst (ys ! i) \<in> G" if "i < length xs" for i
    using that len pair_mem [of xs G "xs ! i"] pair_mem [of ys G "ys ! i"] x y by (simp_all add: good_pairs_def)
  have ne: "f i \<noteq> f j" if "i < j" "j < length xs" for i j
  proof
    assume e: "f i = f j"
    let ?k = "fst (ys ! f j)"
    have "eq (fst (xs ! i)) ?k = Some True" "eq (fst (xs ! j)) ?k = Some True"
      using spec [OF f, of i] spec [OF f, of j] that e by (simp_all add: matches_def)
    note k = this
    have "eq (fst (xs ! i)) (fst (xs ! j)) = Some True"
    proof (rule equates_trans [OF eq])
      have j: "f j < length xs" "i < length xs" using f that by auto
      show "fst (xs ! i) \<in> G" "?k \<in> G" "fst (xs ! j) \<in> G"
        using mem(1) [OF j(2)] mem(2) [OF j(1)] mem(1) [OF that(2)] by simp_all
      show "eq ?k (fst (xs ! j)) = Some True"
        by (rule equates_sym [OF eq mem(1) [OF that(2)] mem(2) [OF j(1)] k(2)])
      show "eq (fst (xs ! i)) ?k = Some True" by (fact k(1))
    qed
    moreover have "eq (fst (xs ! i)) (fst (xs ! j)) \<noteq> Some True"
      using sorted_wrt_nth_less [of "\<lambda>a b. eq a b \<noteq> Some True" "List.map fst xs" i j] x that
      by (simp add: good_pairs_def)
    ultimately show False by simp
  qed
  have "inj_on f {..<length xs}"
    by (rule inj_onI) (metis lessThan_iff linorder_neqE_nat ne)
  moreover have "f ` {..<length xs} \<subseteq> {..<length xs}" using f by auto
  ultimately have "bij_betw f {..<length xs} {..<length xs}"
    by (metis bij_betw_def endo_inj_surj finite_lessThan)
  with f that show ?thesis by blast
qed

lemma matching_sym:
  assumes eq: "equates eq G" and x: "good_pairs eq G xs" and y: "good_pairs eq G ys"
    and len: "length xs = length ys" and all: "\<forall>p\<in>set xs. \<exists>q\<in>set ys. matches eq p q"
  shows "\<forall>q\<in>set ys. \<exists>p\<in>set xs. matches eq q p"
proof
  obtain f where f: "bij_betw f {..<length xs} {..<length xs}" "\<forall>i<length xs. matches eq (xs ! i) (ys ! f i)"
    using matching_bij [OF assms] by blast
  fix q assume q: "q \<in> set ys"
  then obtain j where j: "j < length xs" "q = ys ! j" using len by (auto simp: in_set_conv_nth)
  have "f ` {..<length xs} = {..<length xs}" using f(1) by (simp add: bij_betw_def)
  with j(1) have "j \<in> f ` {..<length xs}" by simp
  then obtain i where i: "i < length xs" "f i = j" by auto
  have m: "fst (xs ! i) \<in> G \<and> snd (xs ! i) \<in> G" "fst q \<in> G \<and> snd q \<in> G"
    using i(1) q x y pair_mem [of xs G "xs ! i"] pair_mem [of ys G q] by (simp_all add: good_pairs_def)
  have "matches eq (xs ! i) q" using spec [OF f(2), of i] i j(2) by simp
  then have "matches eq q (xs ! i)"
    unfolding matches_def using m by (blast dest: equates_sym [OF eq])
  with i show "\<exists>p\<in>set xs. matches eq q p" by auto
qed

lemma matching_codes:
  assumes eq: "equates eq G" and x: "good_pairs eq G xs" and y: "good_pairs eq G ys"
    and len: "length xs = length ys" and all: "\<forall>p\<in>set xs. \<exists>q\<in>set ys. matches eq p q"
    and c: "\<And>p q. p \<in> set xs \<Longrightarrow> q \<in> set ys \<Longrightarrow> matches eq p q \<Longrightarrow> c p = c q"
  shows "mset (List.map c xs) = mset (List.map c ys)"
proof -
  obtain f where f: "bij_betw f {..<length xs} {..<length xs}" "\<forall>i<length xs. matches eq (xs ! i) (ys ! f i)"
    using matching_bij [OF eq x y len all] by blast
  let ?n = "length xs"
  have fr: "f i < ?n" if "i < ?n" for i using f(1) that by (auto simp: bij_betw_def)
  have code: "mset (List.map c zs) = image_mset (\<lambda>i. c (zs ! i)) (mset_set {..<length zs})" for zs :: "(rvalue \<times> rvalue) list"
  proof -
    have "List.map c zs = List.map (\<lambda>i. c (zs ! i)) [0..<length zs]"
      by (rule nth_equalityI) simp_all
    then show ?thesis by (metis atLeast0LessThan mset_map mset_upt)
  qed
  have "image_mset (\<lambda>i. c (xs ! i)) (mset_set {..<?n}) = image_mset (\<lambda>i. c (ys ! f i)) (mset_set {..<?n})"
    using f(2) len fr by (intro image_mset_cong c) auto
  also have "\<dots> = image_mset (\<lambda>j. c (ys ! j)) (image_mset f (mset_set {..<?n}))"
    by (simp add: multiset.map_comp comp_def)
  also have "image_mset f (mset_set {..<?n}) = mset_set {..<?n}"
    using f(1) by (metis bij_betw_def image_mset_mset_set)
  finally show ?thesis unfolding code len .
qed

section \<open>The composite arms\<close>

lemma array_eq_True:
  assumes "array_at h a = Some x" and "array_at h b = Some y"
  shows "array_eq eq h a b = Some True \<longleftrightarrow> a = b \<or> list_all2 (\<lambda>p q. eq p q = Some True) x y"
  using assms by (auto simp: array_eq_def opt_all_True list_all2_iff)

lemma array_eq_total:
  assumes "array_at h a = Some x" and "array_at h b = Some y" and "equates eq G" and "set x \<subseteq> G" and "set y \<subseteq> G"
  shows "array_eq eq h a b \<noteq> None"
proof -
  have "\<forall>pq\<in>set (zip x y). (case pq of (p, q) \<Rightarrow> eq p q) \<noteq> None"
  proof
    fix pq assume "pq \<in> set (zip x y)"
    then obtain p q where "pq = (p, q)" "p \<in> set x" "q \<in> set y"
      by (metis set_zip_leftD set_zip_rightD surj_pair)
    then show "(case pq of (p, q) \<Rightarrow> eq p q) \<noteq> None"
      using equates_total [OF assms(3), of p q] assms(4,5) by auto
  qed
  from opt_all_total [OF this] assms(1,2) show ?thesis by (auto simp: array_eq_def)
qed

definition pairs_eq :: "(rvalue \<Rightarrow> rvalue \<Rightarrow> bool option) \<Rightarrow> hash_obj \<Rightarrow> hash_obj \<Rightarrow> bool" where
  "pairs_eq eq x y \<longleftrightarrow>
     length (h_pairs x) = length (h_pairs y) \<and> (h_pairs x = [] \<or> h_by_identity x = h_by_identity y) \<and>
     (\<forall>p\<in>set (h_pairs x). \<exists>q\<in>set (h_pairs y). matches eq p q)"

lemma hash_eq_char:
  assumes "hash_at h a = Some x" and "hash_at h b = Some y" and "equates eq G"
    and "set (h_pairs x) \<subseteq> G \<times> G" and "set (h_pairs y) \<subseteq> G \<times> G"
  shows "hash_eq eq h a b \<noteq> None" and "hash_eq eq h a b = Some True \<longleftrightarrow> a = b \<or> pairs_eq eq x y"
proof -
  let ?m = "\<lambda>p q. opt_and (eq (fst p) (fst q)) (eq (snd p) (snd q))"
  have t: "\<forall>q\<in>set (h_pairs y). ?m p q \<noteq> None" if "p \<in> set (h_pairs x)" for p
    using pair_mem [OF assms(4) that] pair_mem [OF assms(5)]
    by (intro ballI opt_and_total equates_total [OF assms(3)]) simp_all
  have e: "hash_eq eq h a b =
      (if a = b then Some True
       else if length (h_pairs x) \<noteq> length (h_pairs y) then Some False
       else if h_pairs x \<noteq> [] \<and> h_by_identity x \<noteq> h_by_identity y then Some False
       else opt_all (\<lambda>p. opt_any (?m p) (h_pairs y)) (h_pairs x))"
    using assms(1,2) by (simp add: hash_eq_def case_prod_beta')
  have "opt_all (\<lambda>p. opt_any (?m p) (h_pairs y)) (h_pairs x) \<noteq> None"
    by (intro opt_all_total ballI) (simp add: opt_any_value t)
  then show "hash_eq eq h a b \<noteq> None" unfolding e by (simp only: split: if_split) blast
  have "opt_any (?m p) (h_pairs y) = Some True \<longleftrightarrow> (\<exists>q\<in>set (h_pairs y). matches eq p q)" if "p \<in> set (h_pairs x)" for p
    using opt_any_value [OF t [OF that]] by (simp add: opt_and_True matches_def)
  then show "hash_eq eq h a b = Some True \<longleftrightarrow> a = b \<or> pairs_eq eq x y"
    by (auto simp: e opt_all_True pairs_eq_def)
qed

lemma pairs_eq_sym:
  assumes "equates eq G" and "good_pairs eq G (h_pairs x)" and "good_pairs eq G (h_pairs y)" and "pairs_eq eq x y"
  shows "pairs_eq eq y x"
  using assms matching_sym [OF assms(1-3)] by (auto simp: pairs_eq_def)

lemma pairs_eq_trans:
  assumes eq: "equates eq G" and "set (h_pairs x) \<subseteq> G \<times> G" and "set (h_pairs y) \<subseteq> G \<times> G" and "set (h_pairs z) \<subseteq> G \<times> G"
    and xy: "pairs_eq eq x y" and yz: "pairs_eq eq y z"
  shows "pairs_eq eq x z"
proof -
  have "\<exists>r\<in>set (h_pairs z). matches eq p r" if p: "p \<in> set (h_pairs x)" for p
  proof -
    obtain q where q: "q \<in> set (h_pairs y)" "matches eq p q" using xy p by (auto simp: pairs_eq_def)
    obtain r where r: "r \<in> set (h_pairs z)" "matches eq q r" using yz q by (auto simp: pairs_eq_def)
    have "matches eq p r"
      using q(2) r(2) pair_mem [OF assms(2) p] pair_mem [OF assms(3) q(1)] pair_mem [OF assms(4) r(1)]
      unfolding matches_def by (blast intro: equates_trans [OF eq])
    with r show ?thesis by blast
  qed
  then show ?thesis using xy yz by (auto simp: pairs_eq_def)
qed

section \<open>Leaves\<close>

text \<open>What \<open>eql?\<close> compares of a value that is not composite.\<close>

definition norm_zero :: "f64 \<Rightarrow> f64" where
  "norm_zero f = (if f64_is_zero f then 0 else f)"

lemma f64_eql_norm: "f64_eql a b \<longleftrightarrow> norm_zero a = norm_zero b"
proof -
  have z: "f64_is_zero 0" by (simp add: f64_is_zero_def f64_exp_def f64_mant_def)
  have n: "\<not> (f64_is_zero f \<and> f64_is_nan f)" for f by (auto simp: f64_is_zero_def f64_is_nan_def)
  show ?thesis
    using z n [of a] n [of b] n [of 0] by (auto simp: f64_eql_def f64_eq_def norm_zero_def)
qed

definition enc_code :: "encoding_tag \<Rightarrow> int" where
  "enc_code t = (case t of Utf8 \<Rightarrow> 0 | UsAscii \<Rightarrow> 1 | Binary \<Rightarrow> 2 | Other n \<Rightarrow> 3 + uint n)"

lemma enc_code_inj: "enc_code s = enc_code t \<longleftrightarrow> s = t"
proof -
  have "0 \<le> uint n" for n :: u8 by simp
  moreover have "3 + uint n \<noteq> 0" "3 + uint n \<noteq> 1" "3 + uint n \<noteq> 2" for n :: u8
    using uint_ge_0 [of n] by linarith+
  ultimately show ?thesis
    by (cases s; cases t) (auto simp: enc_code_def word_uint_eq_iff dest: sym)
qed

fun leaf_key :: "heap \<Rightarrow> rvalue \<Rightarrow> (nat \<times> int \<times> int \<times> bytes) option" where
  "leaf_key h (VInt n) = Some (0, sint n, 0, [])"
| "leaf_key h (VBigInt i) = map_option (\<lambda>n. (1, n, 0, [])) (bigint_at h i)"
| "leaf_key h (VFloat f) = Some (2, uint (norm_zero f), 0, [])"
| "leaf_key h (VRational i) = map_option (\<lambda>r. (3, rat_num r, rat_den r, [])) (rational_at h i)"
| "leaf_key h (VStr s) = Some (4, if all_ascii (content s) then -1 else enc_code (encoding s), 0, content s)"
| "leaf_key h (VSym s) = Some (5, int s, 0, [])"
| "leaf_key h (VBool b) = Some (6, if b then 1 else 0, 0, [])"
| "leaf_key h VNil = Some (7, 0, 0, [])"
| "leaf_key h (VClass c) = Some (8, int c, 0, [])"
| "leaf_key h (VObject i) = Some (9, int i, 0, [])"
| "leaf_key h (VBlock i) = Some (10, int i, 0, [])"
| "leaf_key h (VBoundMethod i) = Some (11, int i, 0, [])"
| "leaf_key h (VRegex r) = Some (12, uint (rx_options r), 0, rx_source r)"
| "leaf_key h _ = None"

lemma str_eq_key:
  "str_eq a b \<longleftrightarrow> content a = content b \<and>
     (if all_ascii (content a) then -1 else enc_code (encoding a)) =
     (if all_ascii (content b) then -1 else enc_code (encoding b))"
  by (auto simp: str_eq_def enc_code_inj)

text \<open>\<open>eql?\<close> on good values, in terms of the level below.\<close>

lemma eql_different:
  "leaf_key h a \<noteq> None \<Longrightarrow> leaf_key h b \<noteq> None \<Longrightarrow>
     ruby_eql (Suc n) hs h a b = Some (leaf_key h a = leaf_key h b)"
  by (cases a; cases b)
    (auto simp: eql_body_def eq_body_def numeric_mismatch_def f64_eql_norm str_eq_key bigint_eq_def
      rational_eq_def sint_i64_eq_iff [symmetric] word_uint_eq_iff [symmetric] split: option.splits)

lemma eql_composite:
  "ruby_eql (Suc n) hs h (VArray i) b = (case b of VArray j \<Rightarrow> array_eq (ruby_eql n hs h) h i j | _ \<Rightarrow> Some False)"
  "ruby_eql (Suc n) hs h (VHash i) b = (case b of VHash j \<Rightarrow> hash_eq (ruby_eql n hs h) h i j | _ \<Rightarrow> Some False)"
  "ruby_eql (Suc n) hs h (VRange i) b = (case b of VRange j \<Rightarrow> range_eq (ruby_eql n hs h) h i j | _ \<Rightarrow> Some False)"
  "ruby_eql (Suc n) hs h (VUnboundMethod i) b = Some False"
  "ruby_eql (Suc n) hs h (VCurriedProc i) b = Some False"
  by (simp_all add: eql_body_def eq_body_def numeric_mismatch_def split: rvalue.splits)

lemma eql_leaf_other:
  "leaf_key h a \<noteq> None \<Longrightarrow> leaf_key h b = None \<Longrightarrow> good (Suc n) hs h b \<Longrightarrow>
     ruby_eql (Suc n) hs h a b = Some False"
  by (cases a; cases b) (auto simp: eql_body_def eq_body_def numeric_mismatch_def)

fun composite :: "rvalue \<Rightarrow> bool" where
  "composite (VArray _) = True" | "composite (VHash _) = True" | "composite (VRange _) = True"
| "composite (VUnboundMethod _) = True" | "composite (VCurriedProc _) = True" | "composite _ = False"

lemma good_leaf: "good (Suc n) hs h a \<Longrightarrow> leaf_key h a \<noteq> None \<longleftrightarrow> \<not> composite a"
  by (cases a) auto

text \<open>What a good composite value is made of.\<close>

abbreviation good_set :: "nat \<Rightarrow> host \<Rightarrow> heap \<Rightarrow> rvalue set" where
  "good_set n hs h \<equiv> {v. good n hs h v}"

lemma good_array: "good (Suc n) hs h (VArray i) \<longleftrightarrow> (\<exists>xs. array_at h i = Some xs \<and> set xs \<subseteq> good_set n hs h)"
  by (auto split: option.splits)

lemma good_hash:
  "good (Suc n) hs h (VHash i) \<longleftrightarrow> (\<exists>x. hash_at h i = Some x \<and> good_pairs (ruby_eql n hs h) (good_set n hs h) (h_pairs x))"
  by (auto simp: good_pairs_def split: option.splits)

lemma good_range:
  "good (Suc n) hs h (VRange i) \<longleftrightarrow> (\<exists>r. range_at h i = Some r \<and> r_begin r \<in> good_set n hs h \<and> r_end r \<in> good_set n hs h)"
  by (auto split: option.splits)

declare good.simps(2) [simp del]

lemma range_eq_char:
  assumes "range_at h a = Some x" and "range_at h b = Some y" and "equates eq G"
    and "r_begin x \<in> G" "r_end x \<in> G" "r_begin y \<in> G" "r_end y \<in> G"
  shows "range_eq eq h a b \<noteq> None" and "range_eq eq h a b = Some True \<longleftrightarrow>
    a = b \<or> (r_exclusive x = r_exclusive y \<and> eq (r_begin x) (r_begin y) = Some True \<and> eq (r_end x) (r_end y) = Some True)"
proof -
  have "opt_and (eq (r_begin x) (r_begin y)) (eq (r_end x) (r_end y)) \<noteq> None"
    using assms by (intro opt_and_total equates_total [OF assms(3)])
  with assms(1,2) show "range_eq eq h a b \<noteq> None" by (auto simp: range_eq_def)
  show "range_eq eq h a b = Some True \<longleftrightarrow>
    a = b \<or> (r_exclusive x = r_exclusive y \<and> eq (r_begin x) (r_begin y) = Some True \<and> eq (r_end x) (r_end y) = Some True)"
    using assms(1,2) by (auto simp: range_eq_def opt_and_True)
qed

section \<open>The induction on the depth\<close>

text \<open>The three composite relations, over an equality of the parts.\<close>

definition arr_rel :: "(rvalue \<Rightarrow> rvalue \<Rightarrow> bool option) \<Rightarrow> heap \<Rightarrow> objid \<Rightarrow> objid \<Rightarrow> bool" where
  "arr_rel eq h i j \<longleftrightarrow> i = j \<or> (\<exists>x y. array_at h i = Some x \<and> array_at h j = Some y \<and>
     list_all2 (\<lambda>p q. eq p q = Some True) x y)"

definition hash_rel :: "(rvalue \<Rightarrow> rvalue \<Rightarrow> bool option) \<Rightarrow> heap \<Rightarrow> objid \<Rightarrow> objid \<Rightarrow> bool" where
  "hash_rel eq h i j \<longleftrightarrow> i = j \<or> (\<exists>x y. hash_at h i = Some x \<and> hash_at h j = Some y \<and> pairs_eq eq x y)"

definition range_rel :: "(rvalue \<Rightarrow> rvalue \<Rightarrow> bool option) \<Rightarrow> heap \<Rightarrow> objid \<Rightarrow> objid \<Rightarrow> bool" where
  "range_rel eq h i j \<longleftrightarrow> i = j \<or> (\<exists>x y. range_at h i = Some x \<and> range_at h j = Some y \<and>
     r_exclusive x = r_exclusive y \<and> eq (r_begin x) (r_begin y) = Some True \<and> eq (r_end x) (r_end y) = Some True)"

definition good_arr :: "rvalue set \<Rightarrow> heap \<Rightarrow> objid \<Rightarrow> bool" where
  "good_arr G h i \<longleftrightarrow> (\<exists>xs. array_at h i = Some xs \<and> set xs \<subseteq> G)"

definition good_hsh :: "(rvalue \<Rightarrow> rvalue \<Rightarrow> bool option) \<Rightarrow> rvalue set \<Rightarrow> heap \<Rightarrow> objid \<Rightarrow> bool" where
  "good_hsh eq G h i \<longleftrightarrow> (\<exists>x. hash_at h i = Some x \<and> good_pairs eq G (h_pairs x))"

definition good_rng :: "rvalue set \<Rightarrow> heap \<Rightarrow> objid \<Rightarrow> bool" where
  "good_rng G h i \<longleftrightarrow> (\<exists>r. range_at h i = Some r \<and> r_begin r \<in> G \<and> r_end r \<in> G)"

lemma arr_rel_sym: "equates eq G \<Longrightarrow> good_arr G h i \<Longrightarrow> good_arr G h j \<Longrightarrow> arr_rel eq h i j \<Longrightarrow> arr_rel eq h j i"
proof -
  assume eq: "equates eq G" and g: "good_arr G h i" "good_arr G h j" and r: "arr_rel eq h i j"
  show ?thesis
  proof (cases "i = j")
    case False
    with r obtain x y where xy: "array_at h i = Some x" "array_at h j = Some y"
      "list_all2 (\<lambda>p q. eq p q = Some True) x y" by (auto simp: arr_rel_def)
    with g have G: "set x \<subseteq> G" "set y \<subseteq> G" by (auto simp: good_arr_def)
    have "eq (y ! k) (x ! k) = Some True" if "k < length y" for k
    proof (rule equates_sym [OF eq])
      have k: "k < length x" using that xy(3) by (simp add: list_all2_lengthD)
      show "x ! k \<in> G" "y ! k \<in> G" using G that k by auto
      show "eq (x ! k) (y ! k) = Some True" using xy(3) k by (simp add: list_all2_conv_all_nth)
    qed
    then have "list_all2 (\<lambda>p q. eq p q = Some True) y x"
      using xy(3) by (simp add: list_all2_conv_all_nth)
    with xy show ?thesis by (auto simp: arr_rel_def)
  qed (simp add: arr_rel_def)
qed

lemma arr_rel_trans:
  assumes eq: "equates eq G" and g: "good_arr G h i" "good_arr G h j" "good_arr G h k"
    and r: "arr_rel eq h i j" "arr_rel eq h j k"
  shows "arr_rel eq h i k"
proof (cases "i = j \<or> j = k")
  case False
  with r obtain x y z where xy: "array_at h i = Some x" "array_at h j = Some y" "array_at h k = Some z"
    "list_all2 (\<lambda>p q. eq p q = Some True) x y" "list_all2 (\<lambda>p q. eq p q = Some True) y z"
    by (auto simp: arr_rel_def)
  with g have G: "set x \<subseteq> G" "set y \<subseteq> G" "set z \<subseteq> G" by (auto simp: good_arr_def)
  have "eq (x ! m) (z ! m) = Some True" if m: "m < length x" for m
  proof (rule equates_trans [OF eq])
    have l: "m < length y" "m < length z" using m xy(4,5) by (simp_all add: list_all2_lengthD)
    show "x ! m \<in> G" "y ! m \<in> G" "z ! m \<in> G" using G m l by auto
    show "eq (x ! m) (y ! m) = Some True" "eq (y ! m) (z ! m) = Some True"
      using xy(4,5) m l by (simp_all add: list_all2_conv_all_nth)
  qed
  then have "list_all2 (\<lambda>p q. eq p q = Some True) x z"
    using xy(4,5) by (simp add: list_all2_conv_all_nth)
  with xy show ?thesis by (auto simp: arr_rel_def)
qed (use r in auto)

lemma hash_rel_sym:
  assumes eq: "equates eq G" and g: "good_hsh eq G h i" "good_hsh eq G h j" and r: "hash_rel eq h i j"
  shows "hash_rel eq h j i"
  using g r pairs_eq_sym [OF eq] by (auto simp: hash_rel_def good_hsh_def)

lemma hash_rel_trans:
  assumes eq: "equates eq G" and g: "good_hsh eq G h i" "good_hsh eq G h j" "good_hsh eq G h k"
    and r: "hash_rel eq h i j" "hash_rel eq h j k"
  shows "hash_rel eq h i k"
proof (cases "i = j \<or> j = k")
  case False
  obtain x y z where xyz: "hash_at h i = Some x" "hash_at h j = Some y" "hash_at h k = Some z"
    and G: "set (h_pairs x) \<subseteq> G \<times> G" "set (h_pairs y) \<subseteq> G \<times> G" "set (h_pairs z) \<subseteq> G \<times> G"
    using g by (auto simp: good_hsh_def good_pairs_def)
  then have "pairs_eq eq x y" "pairs_eq eq y z" using r False by (auto simp: hash_rel_def)
  then have "pairs_eq eq x z" by (rule pairs_eq_trans [OF eq G])
  with xyz show ?thesis by (simp add: hash_rel_def)
qed (use r in auto)

lemma range_rel_sym:
  assumes eq: "equates eq G" and g: "good_rng G h i" "good_rng G h j" and r: "range_rel eq h i j"
  shows "range_rel eq h j i"
  using g r equates_sym [OF eq] by (auto simp: range_rel_def good_rng_def)

lemma range_rel_trans:
  assumes eq: "equates eq G" and g: "good_rng G h i" "good_rng G h j" "good_rng G h k"
    and r: "range_rel eq h i j" "range_rel eq h j k"
  shows "range_rel eq h i k"
proof (cases "i = j \<or> j = k")
  case False
  obtain x y z where xyz: "range_at h i = Some x" "range_at h j = Some y" "range_at h k = Some z"
    and G: "r_begin x \<in> G" "r_begin y \<in> G" "r_begin z \<in> G" "r_end x \<in> G" "r_end y \<in> G" "r_end z \<in> G"
    using g by (auto simp: good_rng_def)
  with r False have e: "r_exclusive x = r_exclusive z"
    "eq (r_begin x) (r_begin y) = Some True" "eq (r_begin y) (r_begin z) = Some True"
    "eq (r_end x) (r_end y) = Some True" "eq (r_end y) (r_end z) = Some True"
    by (auto simp: range_rel_def)
  from equates_trans [OF eq G(1-3) e(2,3)] equates_trans [OF eq G(4-6) e(4,5)] e(1) xyz
  show ?thesis by (simp add: range_rel_def)
qed (use r in auto)

text \<open>\<open>eql?\<close> at the next depth as a relation.\<close>

definition eql_rel :: "(rvalue \<Rightarrow> rvalue \<Rightarrow> bool option) \<Rightarrow> heap \<Rightarrow> rvalue \<Rightarrow> rvalue \<Rightarrow> bool" where
  "eql_rel eq h a b \<longleftrightarrow>
     (case a of
        VArray i \<Rightarrow> (case b of VArray j \<Rightarrow> arr_rel eq h i j | _ \<Rightarrow> False)
      | VHash i \<Rightarrow> (case b of VHash j \<Rightarrow> hash_rel eq h i j | _ \<Rightarrow> False)
      | VRange i \<Rightarrow> (case b of VRange j \<Rightarrow> range_rel eq h i j | _ \<Rightarrow> False)
      | _ \<Rightarrow> leaf_key h a \<noteq> None \<and> leaf_key h a = leaf_key h b)"

lemma eql_step:
  assumes eq: "equates (ruby_eql n hs h) (good_set n hs h)"
    and a: "good (Suc n) hs h a" and b: "good (Suc n) hs h b"
  shows "ruby_eql (Suc n) hs h a b = Some (eql_rel (ruby_eql n hs h) h a b)"
proof (cases "composite a")
  case False
  then have ka: "leaf_key h a \<noteq> None" using good_leaf [OF a] by simp
  have "eql_rel (ruby_eql n hs h) h a b \<longleftrightarrow> leaf_key h a = leaf_key h b"
    using False ka by (cases a) (simp_all add: eql_rel_def)
  moreover have "ruby_eql (Suc n) hs h a b = Some (leaf_key h a = leaf_key h b)"
  proof (cases "composite b")
    case True
    then have "leaf_key h b = None" using good_leaf [OF b] by blast
    then show ?thesis using eql_leaf_other [OF ka _ b] ka by simp
  next
    case False
    then show ?thesis using eql_different [OF ka] good_leaf [OF b] by simp
  qed
  ultimately show ?thesis by simp
next
  case True
  have tf: "x = Some (y = Some True)" if "x = y" "y \<noteq> None" for x y :: "bool option"
    using that by auto
  from True show ?thesis
  proof (cases a)
    case (VArray i)
    then obtain x where x: "array_at h i = Some x" "set x \<subseteq> good_set n hs h" using a by (auto simp: good_array)
    show ?thesis
    proof (cases b)
      case (VArray j)
      then obtain y where y: "array_at h j = Some y" "set y \<subseteq> good_set n hs h" using b by (auto simp: good_array)
      have "arr_rel (ruby_eql n hs h) h i j \<longleftrightarrow> array_eq (ruby_eql n hs h) h i j = Some True"
        using array_eq_True [OF x(1) y(1)] x y by (auto simp: arr_rel_def)
      then show ?thesis
        using array_eq_total [OF x(1) y(1) eq x(2) y(2)] \<open>a = VArray i\<close> VArray
        by (simp only: eql_composite eql_rel_def rvalue.simps) (rule tf, simp_all)
    qed (simp_all only: VArray eql_composite eql_rel_def rvalue.simps)
  next
    case (VHash i)
    then obtain x where x: "hash_at h i = Some x" "good_pairs (ruby_eql n hs h) (good_set n hs h) (h_pairs x)"
      using a by (auto simp: good_hash)
    show ?thesis
    proof (cases b)
      case (VHash j)
      then obtain y where y: "hash_at h j = Some y" "good_pairs (ruby_eql n hs h) (good_set n hs h) (h_pairs y)"
        using b by (auto simp: good_hash)
      note hc = hash_eq_char [OF x(1) y(1) eq x(2) [unfolded good_pairs_def, THEN conjunct1]
          y(2) [unfolded good_pairs_def, THEN conjunct1]]
      have "hash_rel (ruby_eql n hs h) h i j \<longleftrightarrow> hash_eq (ruby_eql n hs h) h i j = Some True"
        using hc(2) x y by (auto simp: hash_rel_def)
      then show ?thesis
        using hc(1) \<open>a = VHash i\<close> VHash
        by (simp only: eql_composite eql_rel_def rvalue.simps) (rule tf, simp_all)
    qed (simp_all only: VHash eql_composite eql_rel_def rvalue.simps)
  next
    case (VRange i)
    then obtain x where x: "range_at h i = Some x" "r_begin x \<in> good_set n hs h" "r_end x \<in> good_set n hs h"
      using a by (auto simp: good_range)
    show ?thesis
    proof (cases b)
      case (VRange j)
      then obtain y where y: "range_at h j = Some y" "r_begin y \<in> good_set n hs h" "r_end y \<in> good_set n hs h"
        using b by (auto simp: good_range)
      note rc = range_eq_char [OF x(1) y(1) eq x(2,3) y(2,3)]
      have "range_rel (ruby_eql n hs h) h i j \<longleftrightarrow> range_eq (ruby_eql n hs h) h i j = Some True"
        using rc(2) x y by (auto simp: range_rel_def)
      then show ?thesis
        using rc(1) \<open>a = VRange i\<close> VRange
        by (simp only: eql_composite eql_rel_def rvalue.simps) (rule tf, simp_all)
    qed (simp_all only: VRange eql_composite eql_rel_def rvalue.simps)
  qed (simp_all add: eql_composite eql_rel_def del: ruby_eql.simps)
qed

lemma good_arrD: "good (Suc n) hs h (VArray i) \<Longrightarrow> good_arr (good_set n hs h) h i"
  and good_hshD: "good (Suc n) hs h (VHash i) \<Longrightarrow> good_hsh (ruby_eql n hs h) (good_set n hs h) h i"
  and good_rngD: "good (Suc n) hs h (VRange i) \<Longrightarrow> good_rng (good_set n hs h) h i"
  by (simp_all add: good_array good_hash good_range good_arr_def good_hsh_def good_rng_def)

lemma eql_rel_sym:
  assumes eq: "equates (ruby_eql n hs h) (good_set n hs h)"
    and g: "good (Suc n) hs h a" "good (Suc n) hs h b" and r: "eql_rel (ruby_eql n hs h) h a b"
  shows "eql_rel (ruby_eql n hs h) h b a"
proof (cases "composite a")
  case True
  then consider i j where "a = VArray i" "b = VArray j" | i j where "a = VHash i" "b = VHash j"
    | i j where "a = VRange i" "b = VRange j"
    using r by (cases a; simp add: eql_rel_def split: rvalue.splits)
  then show ?thesis
  proof cases
    case 1
    with arr_rel_sym [OF eq good_arrD good_arrD] g r show ?thesis by (simp add: eql_rel_def)
  next
    case 2
    with hash_rel_sym [OF eq good_hshD good_hshD] g r show ?thesis by (simp add: eql_rel_def)
  next
    case 3
    with range_rel_sym [OF eq good_rngD good_rngD] g r show ?thesis by (simp add: eql_rel_def)
  qed
next
  case False
  then have "leaf_key h a = leaf_key h b" "leaf_key h b \<noteq> None" using r by (cases a; simp add: eql_rel_def)+
  moreover from this have "\<not> composite b" by (cases b) auto
  ultimately show ?thesis by (cases b) (simp_all add: eql_rel_def)
qed

lemma eql_rel_trans:
  assumes eq: "equates (ruby_eql n hs h) (good_set n hs h)"
    and g: "good (Suc n) hs h a" "good (Suc n) hs h b" "good (Suc n) hs h c"
    and r: "eql_rel (ruby_eql n hs h) h a b" "eql_rel (ruby_eql n hs h) h b c"
  shows "eql_rel (ruby_eql n hs h) h a c"
proof (cases "composite a")
  case True
  then consider i j k where "a = VArray i" "b = VArray j" "c = VArray k"
    | i j k where "a = VHash i" "b = VHash j" "c = VHash k"
    | i j k where "a = VRange i" "b = VRange j" "c = VRange k"
    using r by (cases a; simp add: eql_rel_def split: rvalue.splits)
  then show ?thesis
  proof cases
    case 1
    with arr_rel_trans [OF eq good_arrD good_arrD good_arrD, of i j k] g r show ?thesis by (simp add: eql_rel_def)
  next
    case 2
    with hash_rel_trans [OF eq good_hshD good_hshD good_hshD, of i j k] g r show ?thesis by (simp add: eql_rel_def)
  next
    case 3
    with range_rel_trans [OF eq good_rngD good_rngD good_rngD, of i j k] g r show ?thesis by (simp add: eql_rel_def)
  qed
next
  case False
  then have ab: "leaf_key h a = leaf_key h b" "leaf_key h b \<noteq> None" using r(1) by (cases a; simp add: eql_rel_def)+
  then have "\<not> composite b" by (cases b) auto
  then have "leaf_key h b = leaf_key h c" using r(2) by (cases b) (simp_all add: eql_rel_def)
  then show ?thesis using ab False by (cases a) (simp_all add: eql_rel_def)
qed

lemma eql_equates: "equates (ruby_eql n hs h) (good_set n hs h)"
proof (induction n)
  case (Suc n)
  note st = eql_step [OF Suc]
  show ?case
    unfolding equates_def
  proof (intro conjI ballI impI)
    fix a b assume g: "a \<in> good_set (Suc n) hs h" "b \<in> good_set (Suc n) hs h"
    then show "ruby_eql (Suc n) hs h a b \<noteq> None" using st [of a b] by simp
    assume "ruby_eql (Suc n) hs h a b = Some True"
    then have "eql_rel (ruby_eql n hs h) h a b" using g st [of a b] by simp
    then show "ruby_eql (Suc n) hs h b a = Some True"
      using eql_rel_sym [OF Suc] g st [of b a] by simp
  next
    fix a b c assume g: "a \<in> good_set (Suc n) hs h" "b \<in> good_set (Suc n) hs h" "c \<in> good_set (Suc n) hs h"
      and r: "ruby_eql (Suc n) hs h a b = Some True" "ruby_eql (Suc n) hs h b c = Some True"
    then have "eql_rel (ruby_eql n hs h) h a b" "eql_rel (ruby_eql n hs h) h b c"
      using st [of a b] st [of b c] by simp_all
    then show "ruby_eql (Suc n) hs h a c = Some True"
      using eql_rel_trans [OF Suc, of a b c] g st [of a c] by simp
  qed
qed (simp add: equates_def)

section \<open>Equal values have equal codes\<close>

lemma opt_fold_map:
  "opt_fold f g xs a =
     (if None \<in> set (List.map f xs) then None else Some (fold g (List.map the (List.map f xs)) a))"
proof -
  have "None \<in> set (List.map f xs) \<longleftrightarrow> \<not> (\<forall>x\<in>set xs. f x \<noteq> None)" by (force simp: image_iff)
  then show ?thesis by (simp only: opt_fold_def fold_map comp_def not_not if_cancel split: if_split) simp
qed

lemma opt_fold_cong: "List.map f xs = List.map f ys \<Longrightarrow> opt_fold f g xs a = opt_fold f g ys a"
  by (simp only: opt_fold_map)

lemma opt_fold_xor_cong:
  fixes f :: "'b \<Rightarrow> u64 option"
  assumes "mset (List.map f xs) = mset (List.map f ys)"
  shows "opt_fold f (\<lambda>c acc. acc XOR c) xs a = opt_fold f (\<lambda>c acc. acc XOR c) ys a"
proof -
  have s: "set (List.map f xs) = set (List.map f ys)" using assms by (rule mset_eq_setD)
  have m: "mset (List.map the (List.map f xs)) = mset (List.map the (List.map f ys))"
    using assms by (simp only: mset_map [of the])
  have "fold (\<lambda>c acc. acc XOR c) (List.map the (List.map f xs)) = fold (\<lambda>c acc. acc XOR c) (List.map the (List.map f ys))"
    by (rule fold_multiset_equiv [OF _ m]) (auto simp: fun_eq_iff xor_ac_words)
  with s show ?thesis by (simp only: opt_fold_map)
qed

lemma good_hash_defined: "good n hs h v \<Longrightarrow> ruby_hash n hs h v \<noteq> None"
proof (induction n arbitrary: v)
  case (Suc n)
  have pc: "pair_code (ruby_hash n hs h) p \<noteq> None" if "fst p \<in> good_set n hs h \<and> snd p \<in> good_set n hs h" for p
    using that Suc.IH [of "fst p"] Suc.IH [of "snd p"] by (auto simp: pair_code_def)
  show ?case
  proof (cases v)
    case (VArray i)
    with Suc.prems obtain xs where "array_at h i = Some xs" "set xs \<subseteq> good_set n hs h" by (auto simp: good_array)
    with VArray Suc.IH show ?thesis by (auto simp: opt_fold_def)
  next
    case (VHash i)
    with Suc.prems obtain x where x: "hash_at h i = Some x" "good_pairs (ruby_eql n hs h) (good_set n hs h) (h_pairs x)"
      by (auto simp: good_hash)
    then have "\<forall>p\<in>set (h_pairs x). pair_code (ruby_hash n hs h) p \<noteq> None"
      using pc pair_mem [of "h_pairs x" "good_set n hs h"] unfolding good_pairs_def by blast
    with x VHash show ?thesis by (simp add: opt_fold_def)
  next
    case (VRange i)
    with Suc.prems obtain r where r: "range_at h i = Some r" "good n hs h (r_begin r)" "good n hs h (r_end r)"
      by (auto simp: good_range)
    with VRange Suc.IH [of "r_begin r"] Suc.IH [of "r_end r"] show ?thesis by auto
  qed (use Suc.prems in \<open>auto simp: good.simps\<close>)
qed simp

lemma leaf_same_code:
  assumes "leaf_key h a = leaf_key h b" and "leaf_key h a \<noteq> None"
  shows "ruby_hash (Suc n) hs h a = ruby_hash (Suc n) hs h b"
proof (cases a)
  case (VFloat f)
  then show ?thesis using assms by (cases b) (auto simp: norm_zero_def word_uint_eq_iff [symmetric])
next
  case (VStr s)
  then show ?thesis
    using assms by (cases b) (auto simp: str_hash_def Let_def enc_code_inj split: if_splits)
next
  case (VBigInt i)
  then show ?thesis using assms by (cases b) auto
next
  case (VRational i)
  then show ?thesis using assms by (cases b) auto
qed (use assms in \<open>cases b; auto simp: sint_i64_eq_iff [symmetric] split: if_splits\<close>)+

lemma eql_same_code:
  "good n hs h a \<Longrightarrow> good n hs h b \<Longrightarrow> ruby_eql n hs h a b = Some True \<Longrightarrow>
     ruby_hash n hs h a = ruby_hash n hs h b"
proof (induction n arbitrary: a b)
  case (Suc n)
  let ?E = "ruby_eql n hs h" and ?H = "ruby_hash n hs h" and ?G = "good_set n hs h"
  have r: "eql_rel ?E h a b"
    using eql_step [OF eql_equates Suc.prems(1,2)] Suc.prems(3) by simp
  have same: "?H p = ?H q" if "p \<in> ?G" "q \<in> ?G" "?E p q = Some True" for p q
    using Suc.IH that by simp
  show ?case
  proof (cases "composite a")
    case False
    then have "leaf_key h a = leaf_key h b" "leaf_key h a \<noteq> None"
      using r by (cases a; simp add: eql_rel_def)+
    then show ?thesis by (rule leaf_same_code)
  next
    case True
    then consider i j where "a = VArray i" "b = VArray j" | i j where "a = VHash i" "b = VHash j"
      | i j where "a = VRange i" "b = VRange j"
      using r by (cases a; simp add: eql_rel_def split: rvalue.splits)
    then show ?thesis
    proof cases
      case 1
      obtain x y where xy: "array_at h i = Some x" "array_at h j = Some y" "set x \<subseteq> ?G" "set y \<subseteq> ?G"
        using Suc.prems(1,2) 1 by (auto simp: good_array)
      show ?thesis
      proof (cases "i = j")
        case False
        with r 1 xy have l: "list_all2 (\<lambda>p q. ?E p q = Some True) x y" by (auto simp: eql_rel_def arr_rel_def)
        have "List.map ?H x = List.map ?H y"
        proof (rule nth_equalityI)
          show "length (List.map ?H x) = length (List.map ?H y)" using l by (simp add: list_all2_lengthD)
          fix k assume "k < length (List.map ?H x)"
          then have k: "k < length x" "k < length y" using l by (simp_all add: list_all2_lengthD)
          have "?H (x ! k) = ?H (y ! k)"
          proof (rule same)
            show "x ! k \<in> ?G" "y ! k \<in> ?G" using xy(3,4) k nth_mem by blast+
            show "?E (x ! k) (y ! k) = Some True" using l k by (simp add: list_all2_conv_all_nth)
          qed
          with k show "List.map ?H x ! k = List.map ?H y ! k" by simp
        qed
        with 1 xy show ?thesis by (simp add: opt_fold_cong [of ?H x y])
      qed (use 1 in simp)
    next
      case 2
      obtain x y where xy: "hash_at h i = Some x" "hash_at h j = Some y"
        "good_pairs ?E ?G (h_pairs x)" "good_pairs ?E ?G (h_pairs y)"
        using Suc.prems(1,2) 2 by (auto simp: good_hash)
      show ?thesis
      proof (cases "i = j")
        case False
        with r 2 xy have p: "pairs_eq ?E x y" by (auto simp: eql_rel_def hash_rel_def)
        have "mset (List.map (pair_code ?H) (h_pairs x)) = mset (List.map (pair_code ?H) (h_pairs y))"
        proof (rule matching_codes [OF eql_equates xy(3,4)])
          fix p q assume pq: "p \<in> set (h_pairs x)" "q \<in> set (h_pairs y)" "matches ?E p q"
          have "fst p \<in> ?G \<and> snd p \<in> ?G" "fst q \<in> ?G \<and> snd q \<in> ?G"
            using pair_mem [of "h_pairs x" ?G p] pair_mem [of "h_pairs y" ?G q] pq(1,2) xy(3,4)
            unfolding good_pairs_def by blast+
          then show "pair_code ?H p = pair_code ?H q"
            using pq(3) same [of "fst p" "fst q"] same [of "snd p" "snd q"] by (simp add: matches_def pair_code_def)
        qed (use p in \<open>simp_all add: pairs_eq_def\<close>)
        with 2 xy show ?thesis by (simp add: opt_fold_xor_cong [of "pair_code ?H" "h_pairs x" "h_pairs y"])
      qed (use 2 in simp)
    next
      case 3
      obtain x y where xy: "range_at h i = Some x" "range_at h j = Some y" "r_begin x \<in> ?G" "r_end x \<in> ?G"
        "r_begin y \<in> ?G" "r_end y \<in> ?G"
        using Suc.prems(1,2) 3 by (auto simp: good_range)
      show ?thesis
      proof (cases "i = j")
        case False
        with r 3 xy have "r_exclusive x = r_exclusive y" "?E (r_begin x) (r_begin y) = Some True"
          "?E (r_end x) (r_end y) = Some True" by (auto simp: eql_rel_def range_rel_def)
        with 3 xy same [of "r_begin x" "r_begin y"] same [of "r_end x" "r_end y"] show ?thesis by simp
      qed (use 3 in simp)
    qed
  qed
qed simp

end
