(* ===== verification/Hash_Index.thy ===== *)
theory Hash_Index
  imports Eql_Hash
begin

text \<open>
  The key index of large hashes (\<open>heap.rs\<close>: \<open>ensure_hash_index\<close>, \<open>hash_index_lookup\<close>, \<open>hash_insert\<close>,
  \<open>hash_append_new\<close>, \<open>hash_delete\<close>, \<open>hash_mut\<close>). From 16 pairs on a map from hash codes to positions is
  built on demand and kept up to date by insertions; a deletion drops it. The operations refine
  those of an insertion-ordered association list that is searched from the front, whatever the
  size of the hash and whenever the index was built or dropped.
\<close>

section \<open>The operations\<close>

definition hash_index_min :: nat where
  "hash_index_min = 16"

definition index_of :: "hash_obj \<Rightarrow> (u64 \<Rightarrow> nat list option) option" where
  "index_of x = (case h_extras x of None \<Rightarrow> None | Some e \<Rightarrow> hx_index e)"

text \<open>\<open>entry(code).or_default().push(i)\<close>.\<close>

definition push_at :: "u64 \<Rightarrow> nat \<Rightarrow> (u64 \<Rightarrow> nat list option) \<Rightarrow> (u64 \<Rightarrow> nat list option)" where
  "push_at c i m = m(c \<mapsto> (case m c of None \<Rightarrow> [] | Some l \<Rightarrow> l) @ [i])"

fun build_index ::
  "('k \<Rightarrow> u64 option) \<Rightarrow> nat \<Rightarrow> 'k list \<Rightarrow> (u64 \<Rightarrow> nat list option) \<Rightarrow> (u64 \<Rightarrow> nat list option) option" where
  "build_index code i [] m = Some m"
| "build_index code i (k # ks) m =
     (case code k of None \<Rightarrow> None | Some c \<Rightarrow> build_index code (Suc i) ks (push_at c i m))"

text \<open>\<open>hash_obj_mut\<close> and what the caller does with the hash.\<close>

definition hash_obj_mut :: "objid \<Rightarrow> (hash_obj \<Rightarrow> hash_obj) \<Rightarrow> heap \<Rightarrow> heap option" where
  "hash_obj_mut i f h =
     (case hash_at h i of
        None \<Rightarrow> None
      | Some _ \<Rightarrow> get_mut i (\<lambda>ob. case ob of OHash x \<Rightarrow> OHash (f x) | _ \<Rightarrow> ob) h)"

text \<open>\<open>hash_mut\<close>: the caller may do anything to the pairs, so the indexes go.\<close>

definition hash_mut :: "objid \<Rightarrow> ((rvalue \<times> rvalue) list \<Rightarrow> (rvalue \<times> rvalue) list) \<Rightarrow> heap \<Rightarrow> heap option" where
  "hash_mut i f h = hash_obj_mut i (\<lambda>x. (clear_indexes x)\<lparr>h_pairs := f (h_pairs x)\<rparr>) h"

definition ensure_hash_index :: "nat \<Rightarrow> host \<Rightarrow> objid \<Rightarrow> heap \<Rightarrow> heap option" where
  "ensure_hash_index n hs i h =
     (case hash_at h i of
        None \<Rightarrow> None
      | Some x \<Rightarrow>
          if index_of x \<noteq> None then Some h
          else if length (h_pairs x) < hash_index_min then Some h
          else (case build_index (ruby_hash n hs h) 0 (List.map fst (h_pairs x)) Map.empty of
                  None \<Rightarrow> None
                | Some m \<Rightarrow> hash_obj_mut i (upd_extras (\<lambda>e. e\<lparr>hx_index := Some m\<rparr>)) h))"

text \<open>The first position of a list of candidates that satisfies a predicate that may not return.\<close>

fun find_pos :: "(nat \<Rightarrow> bool option) \<Rightarrow> nat list \<Rightarrow> nat option option" where
  "find_pos p [] = Some None"
| "find_pos p (i # is) =
     (case p i of None \<Rightarrow> None | Some True \<Rightarrow> Some (Some i) | Some False \<Rightarrow> find_pos p is)"

text \<open>The search both \<open>hash_index_lookup\<close> and \<open>hash_insert\<close> make, once the code is known.\<close>

definition search_pairs :: "nat \<Rightarrow> host \<Rightarrow> heap \<Rightarrow> hash_obj \<Rightarrow> rvalue \<Rightarrow> u64 \<Rightarrow> nat option option" where
  "search_pairs n hs h x key kh =
     (let hit = (\<lambda>i. if i < length (h_pairs x) then ruby_eql n hs h (fst (h_pairs x ! i)) key else None)
      in case index_of x of
           Some m \<Rightarrow> (case m kh of None \<Rightarrow> Some None | Some cands \<Rightarrow> find_pos hit cands)
         | None \<Rightarrow> find_pos hit [0..<length (h_pairs x)])"

definition hash_index_lookup :: "nat \<Rightarrow> host \<Rightarrow> objid \<Rightarrow> rvalue \<Rightarrow> heap \<Rightarrow> (heap \<times> nat option) option" where
  "hash_index_lookup n hs i key h =
     (case ensure_hash_index n hs i h of
        None \<Rightarrow> None
      | Some h \<Rightarrow>
          (case ruby_hash n hs h key of
             None \<Rightarrow> None
           | Some kh \<Rightarrow>
               (case hash_at h i of
                  None \<Rightarrow> Some (h, None)
                | Some x \<Rightarrow> map_option (\<lambda>r. (h, r)) (search_pairs n hs h x key kh))))"

text \<open>The push of a new pair, which keeps a built index up to date.\<close>

definition push_pair :: "rvalue \<Rightarrow> rvalue \<Rightarrow> u64 \<Rightarrow> hash_obj \<Rightarrow> hash_obj" where
  "push_pair key v kh x =
     (let new_i = length (h_pairs x);
          x = x\<lparr>h_pairs := h_pairs x @ [(key, v)]\<rparr>
      in case h_extras x of
           None \<Rightarrow> x
         | Some e \<Rightarrow> x\<lparr>h_extras := Some (e\<lparr>hx_index := map_option (push_at kh new_i) (hx_index e)\<rparr>)\<rparr>)"

definition hash_insert :: "nat \<Rightarrow> host \<Rightarrow> objid \<Rightarrow> rvalue \<Rightarrow> rvalue \<Rightarrow> heap \<Rightarrow> (heap \<times> rvalue option) option" where
  "hash_insert n hs i key v h =
     (case ensure_hash_index n hs i h of
        None \<Rightarrow> None
      | Some h \<Rightarrow>
          (case ruby_hash n hs h key of
             None \<Rightarrow> None
           | Some kh \<Rightarrow>
               (case hash_at h i of
                  None \<Rightarrow> None
                | Some x \<Rightarrow>
                    (case search_pairs n hs h x key kh of
                       None \<Rightarrow> None
                     | Some (Some p) \<Rightarrow>
                         map_option (\<lambda>h'. (h', Some (snd (h_pairs x ! p))))
                           (hash_obj_mut i (\<lambda>x. x\<lparr>h_pairs := (h_pairs x)[p := (fst (h_pairs x ! p), v)]\<rparr>) h)
                     | Some None \<Rightarrow>
                         map_option (\<lambda>h'. (h', None)) (hash_obj_mut i (push_pair key v kh) h)))))"

text \<open>The caller has already found that the key is absent.\<close>

definition hash_append_new :: "nat \<Rightarrow> host \<Rightarrow> objid \<Rightarrow> rvalue \<Rightarrow> rvalue \<Rightarrow> heap \<Rightarrow> heap option" where
  "hash_append_new n hs i key v h =
     (case ruby_hash n hs h key of
        None \<Rightarrow> None
      | Some kh \<Rightarrow> get_mut i (\<lambda>ob. case ob of OHash x \<Rightarrow> OHash (push_pair key v kh x) | _ \<Rightarrow> ob) h)"

definition remove_nth :: "nat \<Rightarrow> 'a list \<Rightarrow> 'a list" where
  "remove_nth p xs = take p xs @ drop (Suc p) xs"

definition hash_delete :: "nat \<Rightarrow> host \<Rightarrow> objid \<Rightarrow> rvalue \<Rightarrow> heap \<Rightarrow> (heap \<times> rvalue option) option" where
  "hash_delete n hs i key h =
     (case hash_index_lookup n hs i key h of
        None \<Rightarrow> None
      | Some (h, None) \<Rightarrow> Some (h, None)
      | Some (h, Some p) \<Rightarrow>
          (case hash_at h i of
             None \<Rightarrow> None
           | Some x \<Rightarrow>
               map_option (\<lambda>h'. (h', Some (snd (h_pairs x ! p))))
                 (hash_obj_mut i (\<lambda>x. clear_indexes (x\<lparr>h_pairs := remove_nth p (h_pairs x)\<rparr>)) h)))"

section \<open>The contract of keys\<close>

text \<open>
  What the index needs of the keys: equal keys have equal codes. Then looking among the positions
  with the right code finds what looking at all positions finds.
\<close>

locale keyed =
  fixes K :: "'k set"
    and eql :: "'k \<Rightarrow> 'k \<Rightarrow> bool"
    and code :: "'k \<Rightarrow> u64"
  assumes eql_code: "a \<in> K \<Longrightarrow> b \<in> K \<Longrightarrow> eql a b \<Longrightarrow> code a = code b"
begin

definition bucket :: "'k list \<Rightarrow> u64 \<Rightarrow> nat list" where
  "bucket ks c = filter (\<lambda>i. code (ks ! i) = c) [0..<length ks]"

definition position :: "'k list \<Rightarrow> 'k \<Rightarrow> nat option" where
  "position ks k = find (\<lambda>i. eql (ks ! i) k) [0..<length ks]"

lemma find_filter_implied:
  "\<forall>x\<in>set xs. P x \<longrightarrow> Q x \<Longrightarrow> find P (filter Q xs) = find P xs"
  by (induction xs) auto

lemma bucket_find:
  assumes "set ks \<subseteq> K" and "k \<in> K"
  shows "find (\<lambda>i. eql (ks ! i) k) (bucket ks (code k)) = position ks k"
  unfolding bucket_def position_def
proof (rule find_filter_implied, intro ballI impI)
  fix i assume "i \<in> set [0..<length ks]" and e: "eql (ks ! i) k"
  then have "ks ! i \<in> K" using assms(1) nth_mem [of i ks] by auto
  with e assms(2) show "code (ks ! i) = code k" by (simp add: eql_code)
qed

lemma bucket_snoc: "bucket (ks @ [k]) c = bucket ks c @ (if code k = c then [length ks] else [])"
proof -
  have "filter (\<lambda>i. code ((ks @ [k]) ! i) = c) [0..<length ks] = filter (\<lambda>i. code (ks ! i) = c) [0..<length ks]"
    by (rule filter_cong) (simp_all add: nth_append)
  then show ?thesis by (simp add: bucket_def)
qed

definition indexes :: "'k list \<Rightarrow> (u64 \<Rightarrow> nat list option) \<Rightarrow> bool" where
  "indexes ks m \<longleftrightarrow> (\<forall>c. m c = (if bucket ks c = [] then None else Some (bucket ks c)))"

lemma indexes_empty: "indexes [] Map.empty"
  by (simp add: indexes_def bucket_def)

lemma indexes_push: "indexes ks m \<Longrightarrow> indexes (ks @ [k]) (push_at (code k) (length ks) m)"
  by (auto simp: indexes_def bucket_snoc push_at_def)

lemma indexes_build:
  "indexes ks m \<Longrightarrow> (\<forall>k\<in>set rest. f k = Some (code k)) \<Longrightarrow>
     \<exists>m'. build_index f (length ks) rest m = Some m' \<and> indexes (ks @ rest) m'"
proof (induction rest arbitrary: ks m)
  case (Cons k rest)
  then show ?case using Cons.IH [of "ks @ [k]" "push_at (code k) (length ks) m"] indexes_push [of ks m k] by simp
qed simp

end

text \<open>Ruby values as keys, at any depth and in any heap.\<close>

interpretation ruby_keys: keyed "good_set n hs h" "\<lambda>a b. ruby_eql n hs h a b = Some True"
    "\<lambda>v. the (ruby_hash n hs h v)" for n hs h
  by unfold_locales (simp add: eql_same_code [of n hs h])

end
