(* ===== verification/Hash_Spec.thy ===== *)
theory Hash_Spec
  imports Hash_Index
begin

text \<open>
  What the hash operations promise: they refine an insertion-ordered association list searched
  from the front. The keys must be good values whose contents lie outside the hash itself, which is
  said by asking that they are good in a heap from which the hash has been taken away.
\<close>

section \<open>Values do not depend on the rest of the heap\<close>

definition extends_heap :: "heap \<Rightarrow> heap \<Rightarrow> bool" where
  "extends_heap h h' \<longleftrightarrow> (\<forall>i ob. get h i = Some ob \<longrightarrow> get h' i = Some ob)"

lemma extends_heapD: "extends_heap h h' \<Longrightarrow> get h i = Some ob \<Longrightarrow> get h' i = Some ob"
  by (simp add: extends_heap_def)

lemma extends_reads:
  assumes "extends_heap h h'"
  shows "array_at h i = Some x \<Longrightarrow> array_at h' i = Some x"
    and "hash_at h i = Some y \<Longrightarrow> hash_at h' i = Some y"
    and "range_at h i = Some z \<Longrightarrow> range_at h' i = Some z"
    and "bigint_at h i = Some n \<Longrightarrow> bigint_at h' i = Some n"
    and "rational_at h i = Some r \<Longrightarrow> rational_at h' i = Some r"
  by (auto simp: array_at_def hash_at_def range_at_def bigint_at_def rational_at_def
      dest!: extends_heapD [OF assms] split: option.splits heap_obj.splits)

lemma extends_leaf_key:
  "extends_heap h h' \<Longrightarrow> leaf_key h a \<noteq> None \<Longrightarrow> leaf_key h' a = leaf_key h a"
  by (cases a) (auto simp: extends_reads)

text \<open>The relations of \<open>eql?\<close> over an equality that agrees on the parts.\<close>

lemma matches_cong:
  "\<forall>a\<in>G. \<forall>b\<in>G. eq' a b = eq a b \<Longrightarrow> p \<in> G \<times> G \<Longrightarrow> q \<in> G \<times> G \<Longrightarrow> matches eq' p q = matches eq p q"
  by (simp add: matches_def mem_Times_iff)

lemma pairs_eq_cong:
  assumes agree: "\<forall>a\<in>G. \<forall>b\<in>G. eq' a b = eq a b"
    and x: "set (h_pairs x) \<subseteq> G \<times> G" and y: "set (h_pairs y) \<subseteq> G \<times> G"
  shows "pairs_eq eq' x y = pairs_eq eq x y"
proof -
  have "(\<exists>q\<in>set (h_pairs y). matches eq' p q) = (\<exists>q\<in>set (h_pairs y). matches eq p q)"
    if "p \<in> set (h_pairs x)" for p
    using that x y matches_cong [OF agree] by (meson subsetD)
  then show ?thesis by (simp add: pairs_eq_def)
qed

lemma extends_arr_rel:
  assumes e: "extends_heap h h'" and agree: "\<forall>a\<in>G. \<forall>b\<in>G. eq' a b = eq a b"
    and "good_arr G h i" and "good_arr G h j"
  shows "arr_rel eq' h' i j = arr_rel eq h i j"
proof -
  obtain x y where xy: "array_at h i = Some x" "set x \<subseteq> G" "array_at h j = Some y" "set y \<subseteq> G"
    using assms(3,4) by (auto simp: good_arr_def)
  have "list_all2 (\<lambda>p q. eq' p q = Some True) x y = list_all2 (\<lambda>p q. eq p q = Some True) x y"
    by (rule list.rel_cong) (use xy agree in \<open>auto simp: subset_iff\<close>)
  then show ?thesis using xy extends_reads(1) [OF e] by (simp add: arr_rel_def)
qed

lemma extends_hash_rel:
  assumes e: "extends_heap h h'" and agree: "\<forall>a\<in>G. \<forall>b\<in>G. eq' a b = eq a b"
    and "good_hsh eq G h i" and "good_hsh eq G h j"
  shows "hash_rel eq' h' i j = hash_rel eq h i j"
proof -
  obtain x y where xy: "hash_at h i = Some x" "set (h_pairs x) \<subseteq> G \<times> G" "hash_at h j = Some y" "set (h_pairs y) \<subseteq> G \<times> G"
    using assms(3,4) by (auto simp: good_hsh_def good_pairs_def)
  then show ?thesis
    using extends_reads(2) [OF e] pairs_eq_cong [OF agree xy(2,4)] by (simp add: hash_rel_def)
qed

lemma extends_range_rel:
  assumes e: "extends_heap h h'" and agree: "\<forall>a\<in>G. \<forall>b\<in>G. eq' a b = eq a b"
    and "good_rng G h i" and "good_rng G h j"
  shows "range_rel eq' h' i j = range_rel eq h i j"
  using assms extends_reads(3) [OF e] by (auto simp: good_rng_def range_rel_def)

lemma extends_eql_rel:
  assumes e: "extends_heap h h'"
    and agree: "\<forall>a\<in>good_set n hs h. \<forall>b\<in>good_set n hs h. ruby_eql n hs h' a b = ruby_eql n hs h a b"
    and g: "good (Suc n) hs h a" "good (Suc n) hs h b"
  shows "eql_rel (ruby_eql n hs h') h' a b = eql_rel (ruby_eql n hs h) h a b"
proof (cases "composite a")
  case True
  then show ?thesis
    using g extends_arr_rel [OF e agree good_arrD good_arrD] extends_hash_rel [OF e agree good_hshD good_hshD]
      extends_range_rel [OF e agree good_rngD good_rngD]
    by (cases a; cases b) (simp_all add: eql_rel_def del: good.simps)
next
  case False
  then have a: "leaf_key h a \<noteq> None" "leaf_key h' a = leaf_key h a"
    using good_leaf [OF g(1)] extends_leaf_key [OF e] by blast+
  have "leaf_key h' b = leaf_key h b"
  proof (cases "composite b")
    case False
    then show ?thesis using good_leaf [OF g(2)] extends_leaf_key [OF e] by blast
  next
    case True
    then show ?thesis by (cases b) simp_all
  qed
  with False a show ?thesis by (cases a) (simp_all add: eql_rel_def)
qed

text \<open>Good values read the same in every larger heap, at every depth.\<close>

lemma extends_good_step:
  assumes e: "extends_heap h h'" and IH: "\<And>v. good n hs h v \<Longrightarrow> good n hs h' v"
    and agree: "\<forall>a\<in>good_set n hs h. \<forall>b\<in>good_set n hs h. ruby_eql n hs h' a b = ruby_eql n hs h a b"
    and g: "good (Suc n) hs h v"
  shows "good (Suc n) hs h' v"
proof (cases v)
  case (VHash i)
  then obtain x where x: "hash_at h i = Some x" "good_pairs (ruby_eql n hs h) (good_set n hs h) (h_pairs x)"
    using g by (auto simp: good_hash)
  have mem: "fst p \<in> good_set n hs h \<and> snd p \<in> good_set n hs h" if "p \<in> set (h_pairs x)" for p
    using pair_mem [OF _ that] x(2) unfolding good_pairs_def by blast
  then have "set (h_pairs x) \<subseteq> good_set n hs h' \<times> good_set n hs h'"
    using IH by (auto simp: mem_Times_iff)
  moreover have "sorted_wrt (\<lambda>a b. ruby_eql n hs h' a b \<noteq> Some True) (List.map fst (h_pairs x))"
  proof (rule sorted_wrt_mono_rel [of _ "\<lambda>a b. ruby_eql n hs h a b \<noteq> Some True"])
    fix a b assume "a \<in> set (List.map fst (h_pairs x))" "b \<in> set (List.map fst (h_pairs x))"
    then have "a \<in> good_set n hs h" "b \<in> good_set n hs h" using mem by auto
    moreover assume "ruby_eql n hs h a b \<noteq> Some True"
    ultimately show "ruby_eql n hs h' a b \<noteq> Some True" using agree by simp
  qed (use x(2) good_pairs_def in blast)
  ultimately have "good_pairs (ruby_eql n hs h') (good_set n hs h') (h_pairs x)" by (simp add: good_pairs_def)
  with VHash extends_reads(2) [OF e x(1)] show ?thesis by (simp only: good_hash) blast
next
  case (VArray i)
  with g extends_reads(1) [OF e] IH show ?thesis by (fastforce simp: good_array simp del: good.simps)
next
  case (VRange i)
  with g extends_reads(3) [OF e] IH show ?thesis by (fastforce simp: good_range simp del: good.simps)
next
  case (VBigInt i)
  with g extends_reads(4) [OF e] show ?thesis by (auto simp: good.simps)
next
  case (VRational i)
  with g extends_reads(5) [OF e] show ?thesis by (auto simp: good.simps)
qed (use g in \<open>simp_all add: good.simps\<close>)

lemma extends_values:
  assumes e: "extends_heap h h'"
  shows "(\<forall>v. good n hs h v \<longrightarrow> good n hs h' v) \<and>
         (\<forall>a\<in>good_set n hs h. \<forall>b\<in>good_set n hs h. ruby_eql n hs h' a b = ruby_eql n hs h a b)"
proof (induction n)
  case (Suc n)
  then have IH: "\<And>v. good n hs h v \<Longrightarrow> good n hs h' v"
    and agree: "\<forall>a\<in>good_set n hs h. \<forall>b\<in>good_set n hs h. ruby_eql n hs h' a b = ruby_eql n hs h a b"
    by blast+
  have g: "good (Suc n) hs h' v" if "good (Suc n) hs h v" for v
    by (rule extends_good_step [OF e IH agree that])
  have "ruby_eql (Suc n) hs h' a b = ruby_eql (Suc n) hs h a b"
    if "good (Suc n) hs h a" "good (Suc n) hs h b" for a b
    using eql_step [OF eql_equates that] eql_step [OF eql_equates g [OF that(1)] g [OF that(2)]]
      extends_eql_rel [OF e agree that] by simp
  with g show ?case by (simp del: good.simps ruby_eql.simps)
qed simp

lemmas extends_good = extends_values [THEN conjunct1, THEN spec, THEN mp]

lemma extends_eql:
  "extends_heap h h' \<Longrightarrow> good n hs h a \<Longrightarrow> good n hs h b \<Longrightarrow> ruby_eql n hs h' a b = ruby_eql n hs h a b"
  using extends_values [of h h' n hs] by simp

lemma opt_fold_agree:
  "\<forall>x\<in>set xs. f' x = f x \<Longrightarrow> opt_fold f' g xs a = opt_fold f g xs a"
  by (rule trans [OF opt_fold_map trans [OF _ opt_fold_map [symmetric]]]) (simp cong: list.map_cong)

lemma extends_hash: "extends_heap h h' \<Longrightarrow> good n hs h v \<Longrightarrow> ruby_hash n hs h' v = ruby_hash n hs h v"
proof (induction n arbitrary: v)
  case (Suc n)
  note e = Suc.prems(1) and g = Suc.prems(2)
  have IH: "\<forall>v\<in>good_set n hs h. ruby_hash n hs h' v = ruby_hash n hs h v" using Suc.IH [OF e] by simp
  show ?case
  proof (cases v)
    case (VArray i)
    with g obtain xs where xs: "array_at h i = Some xs" "set xs \<subseteq> good_set n hs h" by (auto simp: good_array)
    then have "\<forall>x\<in>set xs. ruby_hash n hs h' x = ruby_hash n hs h x" using IH by blast
    with VArray xs extends_reads(1) [OF e xs(1)] show ?thesis by (simp add: opt_fold_agree)
  next
    case (VHash i)
    with g obtain x where x: "hash_at h i = Some x" "good_pairs (ruby_eql n hs h) (good_set n hs h) (h_pairs x)"
      by (auto simp: good_hash)
    then have "\<forall>p\<in>set (h_pairs x). pair_code (ruby_hash n hs h') p = pair_code (ruby_hash n hs h) p"
      using IH pair_mem [of "h_pairs x" "good_set n hs h"] by (simp add: good_pairs_def pair_code_def)
    note o = opt_fold_agree [OF this]
    show ?thesis using VHash x extends_reads(2) [OF e x(1)] by (simp add: o)
  next
    case (VRange i)
    with g obtain r where r: "range_at h i = Some r" "r_begin r \<in> good_set n hs h" "r_end r \<in> good_set n hs h"
      by (auto simp: good_range)
    with VRange IH extends_reads(3) [OF e r(1)] show ?thesis by auto
  next
    case (VBigInt i)
    with g extends_reads(4) [OF e] show ?thesis by (auto simp: good.simps)
  next
    case (VRational i)
    with g extends_reads(5) [OF e] show ?thesis by (auto simp: good.simps)
  qed simp_all
qed simp

section \<open>The reference\<close>

text \<open>An association list searched from the front, over an equality of keys.\<close>

fun assoc_pos :: "('k \<Rightarrow> 'k \<Rightarrow> bool) \<Rightarrow> 'k \<Rightarrow> ('k \<times> 'v) list \<Rightarrow> nat option" where
  "assoc_pos e k [] = None"
| "assoc_pos e k ((a, _) # ps) = (if e a k then Some 0 else map_option Suc (assoc_pos e k ps))"

fun assoc_get :: "('k \<Rightarrow> 'k \<Rightarrow> bool) \<Rightarrow> 'k \<Rightarrow> ('k \<times> 'v) list \<Rightarrow> 'v option" where
  "assoc_get e k [] = None"
| "assoc_get e k ((a, b) # ps) = (if e a k then Some b else assoc_get e k ps)"

text \<open>An update keeps the key object that is there.\<close>

fun assoc_put :: "('k \<Rightarrow> 'k \<Rightarrow> bool) \<Rightarrow> 'k \<Rightarrow> 'v \<Rightarrow> ('k \<times> 'v) list \<Rightarrow> ('k \<times> 'v) list" where
  "assoc_put e k v [] = [(k, v)]"
| "assoc_put e k v ((a, b) # ps) = (if e a k then (a, v) # ps else (a, b) # assoc_put e k v ps)"

fun assoc_del :: "('k \<Rightarrow> 'k \<Rightarrow> bool) \<Rightarrow> 'k \<Rightarrow> ('k \<times> 'v) list \<Rightarrow> ('k \<times> 'v) list" where
  "assoc_del e k [] = []"
| "assoc_del e k ((a, b) # ps) = (if e a k then ps else (a, b) # assoc_del e k ps)"

lemma find_map_option: "find P (List.map f xs) = map_option f (find (P \<circ> f) xs)"
  by (induction xs) auto

lemma find_upt_Suc:
  "find P [0..<Suc n] = (if P 0 then Some 0 else map_option Suc (find (P \<circ> Suc) [0..<n]))"
  by (simp only: upt_conv_Cons [of 0 "Suc n"] zero_less_Suc map_Suc_upt [symmetric] find.simps find_map_option)

lemma assoc_pos_find:
  "assoc_pos e k ps = find (\<lambda>i. e (List.map fst ps ! i) k) [0..<length ps]"
  by (induction e k ps rule: assoc_pos.induct) (simp_all add: find_upt_Suc comp_def del: upt_Suc)

lemma assoc_pos_None: "assoc_pos e k ps = None \<longleftrightarrow> (\<forall>p\<in>set ps. \<not> e (fst p) k)"
  by (induction e k ps rule: assoc_pos.induct) auto

lemma assoc_at:
  assumes "assoc_pos e k ps = Some p"
  shows "p < length ps" and "assoc_get e k ps = Some (snd (ps ! p))"
    and "assoc_put e k v ps = ps[p := (fst (ps ! p), v)]" and "assoc_del e k ps = remove_nth p ps"
    and "e (fst (ps ! p)) k"
  using assms by (induction e k ps arbitrary: p rule: assoc_pos.induct)
    (auto simp: remove_nth_def split: if_splits)

lemma assoc_absent:
  assumes "assoc_pos e k ps = None"
  shows "assoc_get e k ps = None" and "assoc_put e k v ps = ps @ [(k, v)]" and "assoc_del e k ps = ps"
  using assms by (induction e k ps rule: assoc_pos.induct) (auto split: if_splits)

lemma find_pos_total:
  "\<forall>i\<in>set is. p i \<noteq> None \<Longrightarrow> find_pos p is = Some (find (\<lambda>i. p i = Some True) is)"
proof (induction "is")
  case (Cons i "is")
  from Cons.prems obtain b where "p i = Some b" by auto
  with Cons show ?case by (cases b) simp_all
qed simp

section \<open>What a hash stands for\<close>

text \<open>
  \<open>h0\<close> is a heap without the hash, in which the keys are good; in \<open>h\<close> the hash holds the pairs \<open>ps\<close>
  and its index, if it has one, is the index of its keys.
\<close>

abbreviation key_eq :: "nat \<Rightarrow> host \<Rightarrow> heap \<Rightarrow> rvalue \<Rightarrow> rvalue \<Rightarrow> bool" where
  "key_eq n hs h \<equiv> \<lambda>a b. ruby_eql n hs h a b = Some True"

definition keys_ok :: "nat \<Rightarrow> host \<Rightarrow> heap \<Rightarrow> (rvalue \<times> rvalue) list \<Rightarrow> bool" where
  "keys_ok n hs h0 ps \<longleftrightarrow>
     (\<forall>p\<in>set ps. good n hs h0 (fst p)) \<and> sorted_wrt (\<lambda>a b. \<not> key_eq n hs h0 a b) (List.map fst ps)"

definition hash_rep :: "nat \<Rightarrow> host \<Rightarrow> heap \<Rightarrow> objid \<Rightarrow> heap \<Rightarrow> (rvalue \<times> rvalue) list \<Rightarrow> bool" where
  "hash_rep n hs h0 i h ps \<longleftrightarrow>
     get h0 i = None \<and> extends_heap h0 h \<and> keys_ok n hs h0 ps \<and>
     (\<exists>x. hash_at h i = Some x \<and> h_pairs x = ps \<and>
        (\<forall>m. index_of x = Some m \<longrightarrow> ruby_keys.indexes n hs h0 (List.map fst ps) m))"

lemma hash_rep_at:
  assumes "hash_rep n hs h0 i h ps"
  obtains x where "hash_at h i = Some x" and "h_pairs x = ps"
    and "\<forall>m. index_of x = Some m \<longrightarrow> ruby_keys.indexes n hs h0 (List.map fst ps) m"
  using assms unfolding hash_rep_def by blast

lemma hash_repD:
  assumes "hash_rep n hs h0 i h ps"
  shows "get h0 i = None" and "extends_heap h0 h" and "keys_ok n hs h0 ps"
  using assms by (simp_all add: hash_rep_def)

text \<open>A change of the hash, whatever it is, leaves the rest of the heap alone.\<close>

lemma get_barrier: "get (barrier i h) j = get h j"
  by (simp add: get_def barrier_def)

lemma hash_at_Some: "hash_at h i = Some x \<longleftrightarrow> get h i = Some (OHash x)"
  by (auto simp: hash_at_def split: option.splits heap_obj.splits)

lemma hash_obj_mut_shape:
  assumes x: "hash_at h i = Some x"
  obtains h' where "hash_obj_mut i f h = Some h'" and "hash_at h' i = Some (f x)"
    and "\<forall>j. j \<noteq> i \<longrightarrow> get h' j = get h j"
    and "get_mut i (\<lambda>ob. case ob of OHash x \<Rightarrow> OHash (f x) | _ \<Rightarrow> ob) h = Some h'"
proof -
  have g: "get h i = Some (OHash x)" using x by (simp add: hash_at_Some)
  then have i: "i < length (hslots h)" by (simp add: get_def split: if_splits)
  let ?h = "(barrier i h)\<lparr>hslots := (hslots (barrier i h))[i := Live (OHash (f x))]\<rparr>"
  have len: "hslots (barrier i h) = hslots h" by (simp add: barrier_def)
  have m: "get_mut i (\<lambda>ob. case ob of OHash x \<Rightarrow> OHash (f x) | _ \<Rightarrow> ob) h = Some ?h"
    using g by (simp add: get_mut_def get_barrier Let_def)
  show thesis
  proof (rule that)
    show "hash_obj_mut i f h = Some ?h" using m x by (simp add: hash_obj_mut_def)
    show "hash_at ?h i = Some (f x)" using i by (simp add: hash_at_Some get_def len)
    show "\<forall>j. j \<noteq> i \<longrightarrow> get ?h j = get h j" by (simp add: get_def len)
  qed (fact m)
qed

lemma extends_off:
  "get h0 i = None \<Longrightarrow> extends_heap h0 h \<Longrightarrow> \<forall>j. j \<noteq> i \<longrightarrow> get h' j = get h j \<Longrightarrow> extends_heap h0 h'"
  unfolding extends_heap_def by (metis option.distinct(1))

lemma hash_rep_update:
  assumes r: "hash_rep n hs h0 i h ps" and off: "\<forall>j. j \<noteq> i \<longrightarrow> get h' j = get h j"
    and x: "hash_at h' i = Some x" and k: "keys_ok n hs h0 (h_pairs x)"
    and m: "\<And>m. index_of x = Some m \<Longrightarrow> ruby_keys.indexes n hs h0 (List.map fst (h_pairs x)) m"
  shows "hash_rep n hs h0 i h' (h_pairs x)"
  using extends_off [OF hash_repD(1,2) [OF r] off] hash_repD(1) [OF r] x k m
  unfolding hash_rep_def by blast

section \<open>The operations refine the reference\<close>

lemma keys_okD:
  assumes "keys_ok n hs h0 ps"
  shows "p \<in> set ps \<Longrightarrow> good n hs h0 (fst p)" and "set (List.map fst ps) \<subseteq> good_set n hs h0"
  using assms by (auto simp: keys_ok_def)

lemma position_assoc: "ruby_keys.position n hs h0 (List.map fst ps) k = assoc_pos (key_eq n hs h0) k ps"
  by (simp add: ruby_keys.position_def assoc_pos_find)

text \<open>Building the index changes nothing but the index.\<close>

lemma ensure_index_ok:
  assumes r: "hash_rep n hs h0 i h ps"
  obtains h' where "ensure_hash_index n hs i h = Some h'" and "hash_rep n hs h0 i h' ps"
proof -
  obtain x where x: "hash_at h i = Some x" "h_pairs x = ps" using hash_rep_at [OF r] by metis
  show thesis
  proof (cases "index_of x \<noteq> None \<or> length ps < hash_index_min")
    case True
    then have "ensure_hash_index n hs i h = Some h" using x by (auto simp: ensure_hash_index_def)
    then show thesis using that r by blast
  next
    case False
    note kd = keys_okD [OF hash_repD(3) [OF r]]
    have "\<forall>k\<in>set (List.map fst ps). ruby_hash n hs h k = Some (the (ruby_hash n hs h0 k))"
      using kd(1) extends_hash [OF hash_repD(2) [OF r]] good_hash_defined by fastforce
    from ruby_keys.indexes_build [OF ruby_keys.indexes_empty this]
    obtain m where m: "build_index (ruby_hash n hs h) 0 (List.map fst ps) Map.empty = Some m"
      "ruby_keys.indexes n hs h0 (List.map fst ps) m" by auto
    obtain h' where h': "hash_obj_mut i (upd_extras (\<lambda>e. e\<lparr>hx_index := Some m\<rparr>)) h = Some h'"
      "hash_at h' i = Some (upd_extras (\<lambda>e. e\<lparr>hx_index := Some m\<rparr>) x)" "\<forall>j. j \<noteq> i \<longrightarrow> get h' j = get h j"
      by (rule hash_obj_mut_shape [OF x(1)])
    have "hash_rep n hs h0 i h' (h_pairs (upd_extras (\<lambda>e. e\<lparr>hx_index := Some m\<rparr>) x))"
    proof (rule hash_rep_update [OF r h'(3,2)])
      fix m' assume "index_of (upd_extras (\<lambda>e. e\<lparr>hx_index := Some m\<rparr>) x) = Some m'"
      then have "m' = m" by (simp add: index_of_def upd_extras_def)
      then show "ruby_keys.indexes n hs h0 (List.map fst (h_pairs (upd_extras (\<lambda>e. e\<lparr>hx_index := Some m\<rparr>) x))) m'"
        using m(2) x(2) by (simp only: upd_extras_pairs)
    qed (use x(2) hash_repD(3) [OF r] in \<open>simp only: upd_extras_pairs\<close>)
    then have "hash_rep n hs h0 i h' ps" using x(2) by (simp only: upd_extras_pairs)
    moreover have "ensure_hash_index n hs i h = Some h'"
      using False x m(1) h'(1) by (auto simp: ensure_hash_index_def)
    ultimately show thesis using that by blast
  qed
qed

text \<open>With or without the index, the search finds the first equal key.\<close>

lemma search_ok:
  assumes r: "hash_rep n hs h0 i h ps" and x: "hash_at h i = Some x" and k: "good n hs h0 key"
    and kh: "ruby_hash n hs h key = Some kh"
  shows "search_pairs n hs h x key kh = Some (assoc_pos (key_eq n hs h0) key ps)"
proof -
  note kd = keys_okD [OF hash_repD(3) [OF r]] and e = hash_repD(2) [OF r]
  have xp: "h_pairs x = ps" and xm: "\<forall>m. index_of x = Some m \<longrightarrow> ruby_keys.indexes n hs h0 (List.map fst ps) m"
    using hash_rep_at [OF r] x by (metis option.inject)+
  let ?hit = "\<lambda>i. if i < length ps then ruby_eql n hs h (fst (ps ! i)) key else None"
  have hit: "?hit j = ruby_eql n hs h0 (List.map fst ps ! j) key \<and> ?hit j \<noteq> None" if "j < length ps" for j
    using that kd(1) [OF nth_mem [OF that]] extends_eql [OF e _ k] equates_total [OF eql_equates] k by simp
  have go: "find_pos ?hit js = Some (find (\<lambda>i. key_eq n hs h0 (List.map fst ps ! i) key) js)"
    if "\<forall>j\<in>set js. j < length ps" for js
  proof -
    have "find (\<lambda>i. ?hit i = Some True) js = find (\<lambda>i. key_eq n hs h0 (List.map fst ps ! i) key) js"
      by (rule find_cong) (use that hit in auto)
    then show ?thesis using find_pos_total [of js ?hit] that hit by metis
  qed
  have code: "kh = the (ruby_hash n hs h0 key)" using kh extends_hash [OF e k] by simp
  show ?thesis
  proof (cases "index_of x")
    case None
    then show ?thesis using go [of "[0..<length ps]"] unfolding search_pairs_def Let_def xp
      by (simp add: assoc_pos_find)
  next
    case (Some m)
    let ?b = "ruby_keys.bucket n hs h0 (List.map fst ps) kh"
    have bf: "find (\<lambda>i. key_eq n hs h0 (List.map fst ps ! i) key) ?b = assoc_pos (key_eq n hs h0) key ps"
      using ruby_keys.bucket_find [of "List.map fst ps" n hs h0 key] kd(2) k code by (simp add: position_assoc)
    have "m kh = (if ?b = [] then None else Some ?b)" using xm Some by (simp add: ruby_keys.indexes_def)
    moreover have "\<forall>j\<in>set ?b. j < length ps" by (simp add: ruby_keys.bucket_def)
    ultimately show ?thesis using Some bf go [of ?b] unfolding search_pairs_def Let_def xp by auto
  qed
qed

lemma lookup_ok:
  assumes r: "hash_rep n hs h0 i h ps" and k: "good n hs h0 key"
  obtains h' where "hash_index_lookup n hs i key h = Some (h', assoc_pos (key_eq n hs h0) key ps)"
    and "hash_rep n hs h0 i h' ps"
proof -
  obtain h' where h': "ensure_hash_index n hs i h = Some h'" "hash_rep n hs h0 i h' ps"
    by (rule ensure_index_ok [OF r])
  obtain x where x: "hash_at h' i = Some x" by (rule hash_rep_at [OF h'(2)])
  obtain kh where kh: "ruby_hash n hs h' key = Some kh"
    using extends_hash [OF hash_repD(2) [OF h'(2)] k] good_hash_defined [OF k] by auto
  have "hash_index_lookup n hs i key h = Some (h', assoc_pos (key_eq n hs h0) key ps)"
    using h'(1) x kh search_ok [OF h'(2) x k kh] by (simp add: hash_index_lookup_def)
  with h'(2) show thesis using that by blast
qed

lemma keys_ok_push:
  assumes "keys_ok n hs h0 ps" and "good n hs h0 key" and "assoc_pos (key_eq n hs h0) key ps = None"
  shows "keys_ok n hs h0 (ps @ [(key, v)])"
  using assms by (auto simp: keys_ok_def sorted_wrt_append assoc_pos_None)

lemma remove_nth_simps [simp]:
  "remove_nth p [] = []" "remove_nth 0 (x # xs) = xs" "remove_nth (Suc p) (x # xs) = x # remove_nth p xs"
  by (simp_all add: remove_nth_def)

lemma set_remove_nth: "x \<in> set (remove_nth p xs) \<Longrightarrow> x \<in> set xs"
  by (auto simp: remove_nth_def dest: in_set_takeD in_set_dropD)

lemma sorted_remove_nth: "sorted_wrt P xs \<Longrightarrow> sorted_wrt P (remove_nth p xs)"
proof (induction xs arbitrary: p)
  case (Cons x xs)
  then show ?case by (cases p) (auto dest: set_remove_nth)
qed simp

lemma map_remove_nth: "List.map f (remove_nth p xs) = remove_nth p (List.map f xs)"
  by (simp add: remove_nth_def take_map drop_map)

lemma keys_ok_remove: "keys_ok n hs h0 ps \<Longrightarrow> keys_ok n hs h0 (remove_nth p ps)"
  by (simp add: keys_ok_def map_remove_nth sorted_remove_nth) (blast dest: set_remove_nth)

lemma push_ok:
  assumes r: "hash_rep n hs h0 i h ps" and k: "good n hs h0 key" and new: "assoc_pos (key_eq n hs h0) key ps = None"
    and x: "hash_at h i = Some x" and code: "kh = the (ruby_hash n hs h0 key)"
    and off: "\<forall>j. j \<noteq> i \<longrightarrow> get h' j = get h j" and x': "hash_at h' i = Some (push_pair key v kh x)"
  shows "hash_rep n hs h0 i h' (ps @ [(key, v)])"
proof -
  have xp: "h_pairs x = ps" and ix: "\<forall>m. index_of x = Some m \<longrightarrow> ruby_keys.indexes n hs h0 (List.map fst ps) m"
    using hash_rep_at [OF r] x by (metis option.inject)+
  have pp: "h_pairs (push_pair key v kh x) = ps @ [(key, v)]"
    using xp by (simp add: push_pair_def Let_def split: option.splits)
  have "hash_rep n hs h0 i h' (h_pairs (push_pair key v kh x))"
  proof (rule hash_rep_update [OF r off x'])
    show "keys_ok n hs h0 (h_pairs (push_pair key v kh x))" using keys_ok_push [OF hash_repD(3) [OF r] k new] pp by simp
    fix m assume "index_of (push_pair key v kh x) = Some m"
    then obtain m0 where m0: "index_of x = Some m0" "m = push_at kh (length (List.map fst ps)) m0"
      using xp by (auto simp: index_of_def push_pair_def Let_def split: option.splits)
    with ix have "ruby_keys.indexes n hs h0 (List.map fst ps) m0" by blast
    then show "ruby_keys.indexes n hs h0 (List.map fst (h_pairs (push_pair key v kh x))) m"
      using ruby_keys.indexes_push [of n hs h0 "List.map fst ps" m0 key] m0(2) code pp by simp
  qed
  with pp show ?thesis by simp
qed

lemma insert_ok:
  assumes r: "hash_rep n hs h0 i h ps" and k: "good n hs h0 key"
  obtains h' where "hash_insert n hs i key v h = Some (h', assoc_get (key_eq n hs h0) key ps)"
    and "hash_rep n hs h0 i h' (assoc_put (key_eq n hs h0) key v ps)"
proof -
  obtain h1 where h1: "ensure_hash_index n hs i h = Some h1" "hash_rep n hs h0 i h1 ps"
    by (rule ensure_index_ok [OF r])
  obtain x where x: "hash_at h1 i = Some x" "h_pairs x = ps"
    and ix: "\<forall>m. index_of x = Some m \<longrightarrow> ruby_keys.indexes n hs h0 (List.map fst ps) m"
    by (rule hash_rep_at [OF h1(2)])
  obtain kh where kh: "ruby_hash n hs h1 key = Some kh"
    using extends_hash [OF hash_repD(2) [OF h1(2)] k] good_hash_defined [OF k] by auto
  note s = search_ok [OF h1(2) x(1) k kh] and kok = hash_repD(3) [OF r]
  show thesis
  proof (cases "assoc_pos (key_eq n hs h0) key ps")
    case None
    obtain h' where h': "hash_obj_mut i (push_pair key v kh) h1 = Some h'" "hash_at h' i = Some (push_pair key v kh x)"
      "\<forall>j. j \<noteq> i \<longrightarrow> get h' j = get h1 j"
      by (rule hash_obj_mut_shape [OF x(1)])
    have code: "kh = the (ruby_hash n hs h0 key)" using kh extends_hash [OF hash_repD(2) [OF h1(2)] k] by simp
    have "hash_rep n hs h0 i h' (ps @ [(key, v)])" by (rule push_ok [OF h1(2) k None x(1) code h'(3,2)])
    moreover have "hash_insert n hs i key v h = Some (h', assoc_get (key_eq n hs h0) key ps)"
      using h1(1) kh x s None h'(1) assoc_absent [OF None] by (simp add: hash_insert_def)
    ultimately show thesis using that assoc_absent(2) [OF None] by simp
  next
    case (Some p)
    note at = assoc_at [OF Some]
    let ?f = "\<lambda>x. x\<lparr>h_pairs := (h_pairs x)[p := (fst (h_pairs x ! p), v)]\<rparr>"
    obtain h' where h': "hash_obj_mut i ?f h1 = Some h'" "hash_at h' i = Some (?f x)"
      "\<forall>j. j \<noteq> i \<longrightarrow> get h' j = get h1 j"
      by (rule hash_obj_mut_shape [OF x(1)])
    have pp: "h_pairs (?f x) = assoc_put (key_eq n hs h0) key v ps" using x(2) at(3) by simp
    have keys: "List.map fst (h_pairs (?f x)) = List.map fst ps"
      using x(2) at(1) list_update_id [of "List.map fst ps" p] by (simp add: map_update del: list_update_id)
    have "hash_rep n hs h0 i h' (h_pairs (?f x))"
    proof (rule hash_rep_update [OF h1(2) h'(3,2)])
      show "keys_ok n hs h0 (h_pairs (?f x))"
        using kok x(2) at(1) keys by (auto simp: keys_ok_def dest!: set_update_subset_insert [THEN subsetD])
      fix m assume "index_of (?f x) = Some m"
      then have "index_of x = Some m" by (simp add: index_of_def)
      then show "ruby_keys.indexes n hs h0 (List.map fst (h_pairs (?f x))) m" using ix keys by simp
    qed
    moreover have "hash_insert n hs i key v h = Some (h', assoc_get (key_eq n hs h0) key ps)"
      using h1(1) kh x s Some h'(1) at(2) by (simp add: hash_insert_def)
    ultimately show thesis using that pp by simp
  qed
qed

lemma append_ok:
  assumes r: "hash_rep n hs h0 i h ps" and k: "good n hs h0 key" and new: "assoc_pos (key_eq n hs h0) key ps = None"
  obtains h' where "hash_append_new n hs i key v h = Some h'"
    and "hash_rep n hs h0 i h' (ps @ [(key, v)])"
proof -
  obtain x where x: "hash_at h i = Some x" by (rule hash_rep_at [OF r])
  obtain kh where kh: "ruby_hash n hs h key = Some kh" and code: "kh = the (ruby_hash n hs h0 key)"
    using extends_hash [OF hash_repD(2) [OF r] k] good_hash_defined [OF k] by auto
  obtain h' where h': "hash_at h' i = Some (push_pair key v kh x)" "\<forall>j. j \<noteq> i \<longrightarrow> get h' j = get h j"
    "get_mut i (\<lambda>ob. case ob of OHash x \<Rightarrow> OHash (push_pair key v kh x) | _ \<Rightarrow> ob) h = Some h'"
    by (rule hash_obj_mut_shape [OF x(1)])
  have "hash_rep n hs h0 i h' (ps @ [(key, v)])" by (rule push_ok [OF r k new x code h'(2,1)])
  then show thesis using that kh h'(3) by (simp add: hash_append_new_def)
qed

lemma index_of_clear: "index_of (clear_indexes x) = None"
  by (simp add: index_of_def clear_indexes_def split: option.splits)

lemma delete_ok:
  assumes r: "hash_rep n hs h0 i h ps" and k: "good n hs h0 key"
  obtains h' where "hash_delete n hs i key h = Some (h', assoc_get (key_eq n hs h0) key ps)"
    and "hash_rep n hs h0 i h' (assoc_del (key_eq n hs h0) key ps)"
proof -
  obtain h1 where h1: "hash_index_lookup n hs i key h = Some (h1, assoc_pos (key_eq n hs h0) key ps)"
    "hash_rep n hs h0 i h1 ps"
    by (rule lookup_ok [OF r k])
  show thesis
  proof (cases "assoc_pos (key_eq n hs h0) key ps")
    case None
    then show thesis using that h1 assoc_absent [OF None] by (simp add: hash_delete_def)
  next
    case (Some p)
    note at = assoc_at [OF Some]
    obtain x where x: "hash_at h1 i = Some x" "h_pairs x = ps" by (rule hash_rep_at [OF h1(2)])
    let ?f = "\<lambda>x. clear_indexes (x\<lparr>h_pairs := remove_nth p (h_pairs x)\<rparr>)"
    obtain h' where h': "hash_obj_mut i ?f h1 = Some h'" "hash_at h' i = Some (?f x)"
      "\<forall>j. j \<noteq> i \<longrightarrow> get h' j = get h1 j"
      by (rule hash_obj_mut_shape [OF x(1)])
    have "hash_rep n hs h0 i h' (h_pairs (?f x))"
      by (rule hash_rep_update [OF h1(2) h'(3,2)])
        (use keys_ok_remove [OF hash_repD(3) [OF r]] x(2) in \<open>simp_all add: index_of_clear\<close>)
    moreover have "hash_delete n hs i key h = Some (h', assoc_get (key_eq n hs h0) key ps)"
      using h1(1) x Some h'(1) at(2) by (simp add: hash_delete_def)
    ultimately show thesis using that x(2) at(4) by simp
  qed
qed

text \<open>Any other mutation goes through \<open>hash_mut\<close>, after which the index is rebuilt when needed.\<close>

lemma mutate_ok:
  assumes r: "hash_rep n hs h0 i h ps" and k: "keys_ok n hs h0 (f ps)"
  obtains h' where "hash_mut i f h = Some h'" and "hash_rep n hs h0 i h' (f ps)"
proof -
  obtain x where x: "hash_at h i = Some x" "h_pairs x = ps" by (rule hash_rep_at [OF r])
  let ?f = "\<lambda>x. (clear_indexes x)\<lparr>h_pairs := f (h_pairs x)\<rparr>"
  obtain h' where h': "hash_obj_mut i ?f h = Some h'" "hash_at h' i = Some (?f x)"
    "\<forall>j. j \<noteq> i \<longrightarrow> get h' j = get h j"
    by (rule hash_obj_mut_shape [OF x(1)])
  have "index_of (?f x) = index_of (clear_indexes x)" by (simp add: index_of_def)
  then have "hash_rep n hs h0 i h' (h_pairs (?f x))"
    by (intro hash_rep_update [OF r h'(3,2)]) (use k x(2) in \<open>simp_all add: index_of_clear\<close>)
  then show thesis using that h'(1) x(2) by (simp add: hash_mut_def)
qed

section \<open>Runs\<close>

datatype hash_op = Lookup rvalue | Insert rvalue rvalue | Delete rvalue | Append rvalue rvalue
  | Mutate "(rvalue \<times> rvalue) list \<Rightarrow> (rvalue \<times> rvalue) list"

datatype hash_result = At "nat option" | Was "rvalue option" | Done

definition do_op :: "nat \<Rightarrow> host \<Rightarrow> objid \<Rightarrow> hash_op \<Rightarrow> heap \<Rightarrow> (heap \<times> hash_result) option" where
  "do_op n hs i p h =
     (case p of
        Lookup k \<Rightarrow> map_option (map_prod id At) (hash_index_lookup n hs i k h)
      | Insert k v \<Rightarrow> map_option (map_prod id Was) (hash_insert n hs i k v h)
      | Delete k \<Rightarrow> map_option (map_prod id Was) (hash_delete n hs i k h)
      | Append k v \<Rightarrow> map_option (\<lambda>h. (h, Done)) (hash_append_new n hs i k v h)
      | Mutate f \<Rightarrow> map_option (\<lambda>h. (h, Done)) (hash_mut i f h))"

fun do_ops :: "nat \<Rightarrow> host \<Rightarrow> objid \<Rightarrow> hash_op list \<Rightarrow> heap \<Rightarrow> (heap \<times> hash_result list) option" where
  "do_ops n hs i [] h = Some (h, [])"
| "do_ops n hs i (p # ps) h =
     (case do_op n hs i p h of
        None \<Rightarrow> None
      | Some (h, r) \<Rightarrow> map_option (map_prod id ((#) r)) (do_ops n hs i ps h))"

fun ref_op :: "(rvalue \<Rightarrow> rvalue \<Rightarrow> bool) \<Rightarrow> hash_op \<Rightarrow> (rvalue \<times> rvalue) list \<Rightarrow> (rvalue \<times> rvalue) list \<times> hash_result" where
  "ref_op e (Lookup k) ps = (ps, At (assoc_pos e k ps))"
| "ref_op e (Insert k v) ps = (assoc_put e k v ps, Was (assoc_get e k ps))"
| "ref_op e (Delete k) ps = (assoc_del e k ps, Was (assoc_get e k ps))"
| "ref_op e (Append k v) ps = (ps @ [(k, v)], Done)"
| "ref_op e (Mutate f) ps = (f ps, Done)"

fun ref_ops :: "(rvalue \<Rightarrow> rvalue \<Rightarrow> bool) \<Rightarrow> hash_op list \<Rightarrow> (rvalue \<times> rvalue) list \<Rightarrow> (rvalue \<times> rvalue) list \<times> hash_result list" where
  "ref_ops e [] ps = (ps, [])"
| "ref_ops e (p # rest) ps =
     (case ref_op e p ps of (ps, r) \<Rightarrow> map_prod id ((#) r) (ref_ops e rest ps))"

text \<open>
  What a caller must respect: keys are good values that do not lead back to the hash, an append is
  for a key that is absent, and a mutation leaves pairwise different keys.
\<close>

fun op_ok :: "nat \<Rightarrow> host \<Rightarrow> heap \<Rightarrow> hash_op \<Rightarrow> (rvalue \<times> rvalue) list \<Rightarrow> bool" where
  "op_ok n hs h0 (Lookup k) ps \<longleftrightarrow> good n hs h0 k"
| "op_ok n hs h0 (Insert k v) ps \<longleftrightarrow> good n hs h0 k"
| "op_ok n hs h0 (Delete k) ps \<longleftrightarrow> good n hs h0 k"
| "op_ok n hs h0 (Append k v) ps \<longleftrightarrow> good n hs h0 k \<and> assoc_pos (key_eq n hs h0) k ps = None"
| "op_ok n hs h0 (Mutate f) ps \<longleftrightarrow> keys_ok n hs h0 (f ps)"

fun ops_ok :: "nat \<Rightarrow> host \<Rightarrow> heap \<Rightarrow> hash_op list \<Rightarrow> (rvalue \<times> rvalue) list \<Rightarrow> bool" where
  "ops_ok n hs h0 [] ps \<longleftrightarrow> True"
| "ops_ok n hs h0 (p # rest) ps \<longleftrightarrow>
     op_ok n hs h0 p ps \<and> ops_ok n hs h0 rest (fst (ref_op (key_eq n hs h0) p ps))"

lemma op_refines:
  assumes r: "hash_rep n hs h0 i h ps" and ok: "op_ok n hs h0 p ps"
  obtains h' where "do_op n hs i p h = Some (h', snd (ref_op (key_eq n hs h0) p ps))"
    and "hash_rep n hs h0 i h' (fst (ref_op (key_eq n hs h0) p ps))"
proof (cases p)
  case (Lookup k)
  with ok lookup_ok [OF r, of k] that show thesis by (auto simp: do_op_def)
next
  case (Insert k v)
  with ok insert_ok [OF r, of k v] that show thesis by (auto simp: do_op_def)
next
  case (Delete k)
  with ok delete_ok [OF r, of k] that show thesis by (auto simp: do_op_def)
next
  case (Append k v)
  with ok append_ok [OF r, of k v] that show thesis by (auto simp: do_op_def)
next
  case (Mutate f)
  with ok mutate_ok [OF r, of f] that show thesis by (auto simp: do_op_def)
qed

lemma run_refines:
  "hash_rep n hs h0 i h ps \<Longrightarrow> ops_ok n hs h0 ops ps \<Longrightarrow>
     \<exists>h'. do_ops n hs i ops h = Some (h', snd (ref_ops (key_eq n hs h0) ops ps)) \<and>
          hash_rep n hs h0 i h' (fst (ref_ops (key_eq n hs h0) ops ps))"
proof (induction ops arbitrary: h ps)
  case (Cons p ops)
  obtain h1 where h1: "do_op n hs i p h = Some (h1, snd (ref_op (key_eq n hs h0) p ps))"
    "hash_rep n hs h0 i h1 (fst (ref_op (key_eq n hs h0) p ps))"
    using op_refines [OF Cons.prems(1)] Cons.prems(2) by auto
  with Cons.IH [OF h1(2)] Cons.prems(2) show ?case by (force split: prod.splits)
qed simp

section \<open>The properties\<close>

definition without :: "objid \<Rightarrow> heap \<Rightarrow> heap" where
  "without i h = h\<lparr>hslots := (hslots h)[i := Dead]\<rparr>"

lemma get_without: "get (without i h) j = (if j = i then None else get h j)"
  by (simp add: get_def without_def)

lemma hash_rep_start:
  "hash_at h i = Some x \<Longrightarrow> index_of x = None \<Longrightarrow> keys_ok n hs (without i h) (h_pairs x) \<Longrightarrow>
     hash_rep n hs (without i h) i h (h_pairs x)"
  by (simp add: hash_rep_def extends_heap_def get_without)

text \<open>C9. A hash behaves as an insertion-ordered association list searched from the front: for every
  sequence of \<open>hash_index_lookup\<close>, \<open>hash_insert\<close>, \<open>hash_delete\<close>, \<open>hash_append_new\<close> and arbitrary
  mutations through \<open>hash_mut\<close>, every operation returns, with the result the list gives, and the
  pairs at the end are those of the list; every other object of the heap is left as it was. So the
  key index, which is built when a hash of sixteen pairs is searched, extended by insertions and
  dropped by deletions and mutations, is invisible. The keys have to be values that are not nested
  too deep, do not lead back to the hash, and are not mutated meanwhile.\<close>

theorem hash_refines:
  assumes "hash_at h i = Some x" and "index_of x = None" and "keys_ok n hs (without i h) (h_pairs x)"
    and "ops_ok n hs (without i h) ops (h_pairs x)"
  shows "\<exists>h' x'. do_ops n hs i ops h = Some (h', snd (ref_ops (key_eq n hs (without i h)) ops (h_pairs x))) \<and>
    hash_at h' i = Some x' \<and> h_pairs x' = fst (ref_ops (key_eq n hs (without i h)) ops (h_pairs x)) \<and>
    (\<forall>j ob. j = i \<or> get h j \<noteq> Some ob \<or> get h' j = Some ob)"
proof -
  obtain h' where h': "do_ops n hs i ops h = Some (h', snd (ref_ops (key_eq n hs (without i h)) ops (h_pairs x)))"
    "hash_rep n hs (without i h) i h' (fst (ref_ops (key_eq n hs (without i h)) ops (h_pairs x)))"
    using run_refines [OF hash_rep_start [OF assms(1-3)] assms(4)] by blast
  obtain x' where "hash_at h' i = Some x'" "h_pairs x' = fst (ref_ops (key_eq n hs (without i h)) ops (h_pairs x))"
    by (rule hash_rep_at [OF h'(2)])
  moreover have "\<forall>j ob. j = i \<or> get h j \<noteq> Some ob \<or> get h' j = Some ob"
  proof (intro allI)
    fix j ob
    show "j = i \<or> get h j \<noteq> Some ob \<or> get h' j = Some ob"
      using extends_heapD [OF hash_repD(2) [OF h'(2)], of j ob] get_without [of i h j] by (cases "j = i") auto
  qed
  ultimately show ?thesis using h'(1) by blast
qed

lemma hash_refines_witness:
  "\<forall>hs. \<exists>h' x'.
     do_ops 1 hs 0 [Insert (VInt 1) (VSym 5), Insert (VFloat 0) VNil, Insert (VInt 1) (VSym 6),
         Lookup (VFloat 0x8000000000000000), Delete (VInt 1), Lookup (VFloat 0)]
       (fst (alloc (OHash (with_pairs [])) (heap_new None))) =
       Some (h', [Was None, Was None, Was (Some (VSym 5)), At (Some 1), Was (Some (VSym 6)), At (Some 0)]) \<and>
     hash_at h' 0 = Some x' \<and> h_pairs x' = [(VFloat 0, VNil)]"
proof
  fix hs
  let ?h = "fst (alloc (OHash (with_pairs [])) (heap_new None))"
  let ?ops = "[Insert (VInt 1) (VSym 5), Insert (VFloat 0) VNil, Insert (VInt 1) (VSym 6),
      Lookup (VFloat 0x8000000000000000), Delete (VInt 1), Lookup (VFloat 0)]"
  have x: "hash_at ?h 0 = Some (with_pairs [])"
    by (simp add: alloc_def heap_new_def Let_def hash_at_def get_def)
  have e: "key_eq 1 hs h0 (VInt a) (VInt b) = (a = b)" "key_eq 1 hs h0 (VFloat f) (VFloat g) = f64_eql f g"
    "\<not> key_eq 1 hs h0 (VInt a) (VFloat g)" "\<not> key_eq 1 hs h0 (VFloat f) (VInt b)" for h0 a b f g
    by (simp_all add: eql_body_def eq_body_def numeric_mismatch_def)
  have f: "f64_eql 0 0x8000000000000000" "f64_eql 0 0"
    by code_simp+
  show "\<exists>h' x'. do_ops 1 hs 0 ?ops ?h =
       Some (h', [Was None, Was None, Was (Some (VSym 5)), At (Some 1), Was (Some (VSym 6)), At (Some 0)]) \<and>
     hash_at h' 0 = Some x' \<and> h_pairs x' = [(VFloat 0, VNil)]"
    using hash_refines [OF x, of 1 hs ?ops] e f
    by (simp add: index_of_def with_pairs_def keys_ok_def good.simps del: ruby_eql.simps) blast
qed

text \<open>C22. Values that \<open>eql?\<close> equates have the same hash code, whatever they are nested in: arrays
  and ranges part by part, hashes regardless of the order of their pairs, strings across encodings
  when they are ASCII, the two zeros, a NaN with itself. It holds for values nested less deep than
  the recursion limit in which every hash has pairwise different keys.\<close>

theorem eql_values_hash_alike:
  assumes "good n hs h a" and "good n hs h b" and "ruby_eql n hs h a b = Some True"
  shows "ruby_hash n hs h a = ruby_hash n hs h b \<and> ruby_hash n hs h a \<noteq> None"
  using eql_same_code [OF assms] good_hash_defined [OF assms(1)] by blast

text \<open>Two hashes with the same pairs in different orders, one keyed by strings of different encodings.\<close>

definition two_hashes :: heap where
  "two_hashes = (let s = (\<lambda>e. VStr \<lparr>content = [97], encoding = e\<rparr>)
     in fst (alloc (OHash (with_pairs [(VInt 3, VNil), (s UsAscii, VInt 7)]))
       (fst (alloc (OHash (with_pairs [(s Utf8, VInt 7), (VInt 3, VNil)])) (heap_new None)))))"

lemma two_hashes_at:
  "hash_at two_hashes 0 = Some (with_pairs [(VStr \<lparr>content = [97], encoding = Utf8\<rparr>, VInt 7), (VInt 3, VNil)])"
  "hash_at two_hashes 1 = Some (with_pairs [(VInt 3, VNil), (VStr \<lparr>content = [97], encoding = UsAscii\<rparr>, VInt 7)])"
  by (simp_all add: two_hashes_def alloc_def heap_new_def Let_def hash_at_def get_def)

lemma eql_values_hash_alike_witness:
  "\<forall>hs. ruby_hash 2 hs two_hashes (VHash 0) = ruby_hash 2 hs two_hashes (VHash 1) \<and>
     ruby_hash 2 hs two_hashes (VHash 0) \<noteq> None"
proof
  fix hs
  have e: "ruby_eql 1 hs two_hashes (VStr s) (VStr t) = Some (str_eq s t)"
    "ruby_eql 1 hs two_hashes (VInt a) (VInt b) = Some (a = b)" "ruby_eql 1 hs two_hashes VNil VNil = Some True"
    "ruby_eql 1 hs two_hashes (VStr s) (VInt b) = Some False" "ruby_eql 1 hs two_hashes (VInt a) (VStr t) = Some False"
    "ruby_eql 1 hs two_hashes (VInt a) VNil = Some False" for s t a b
    by (simp_all add: eql_body_def eq_body_def numeric_mismatch_def)
  have a: "all_ascii [97]" by code_simp
  have "good 2 hs two_hashes (VHash 0)" "good 2 hs two_hashes (VHash 1)"
    by (simp_all add: numeral_2_eq_2 good.simps two_hashes_at [unfolded One_nat_def] with_pairs_def e [unfolded One_nat_def] del: ruby_eql.simps)
  moreover have "ruby_eql 2 hs two_hashes (VHash 0) (VHash 1) = Some True"
    by (simp add: numeral_2_eq_2 eql_composite hash_eq_def two_hashes_at [unfolded One_nat_def] with_pairs_def opt_and_def
        e [unfolded One_nat_def] str_eq_def a del: ruby_eql.simps)
  ultimately show "ruby_hash 2 hs two_hashes (VHash 0) = ruby_hash 2 hs two_hashes (VHash 1) \<and>
     ruby_hash 2 hs two_hashes (VHash 0) \<noteq> None"
    by (rule eql_values_hash_alike)
qed

end
