(* ===== verification/Unwind_Model.thy ===== *)
theory Unwind_Model
  imports Heap_Gc Class_Lookup
begin

text \<open>
  Control transfers that leave code early (\<open>vm/raise.rs\<close>, \<open>vm/step.rs\<close>, \<open>vm.rs\<close>): exceptions unwinding
  to a rescue or ensure handler, \<open>break\<close> and \<open>next\<close> out of loops, and returns and block breaks that
  pop frames, each of which runs the \<open>ensure\<close> bodies it crosses. An ensure body is entered by a jump;
  the transfer is parked meanwhile with the coordinates of the body and resumed by \<open>EndEnsure\<close> at
  the body's tail.

  The Rust \<open>Vec\<close>s that are only pushed and popped (frames, operands, handlers, loop and begin
  baselines, pending transfers) are lists whose head is the top; \<open>trunc n\<close> is \<open>truncate(n)\<close>. The index of the top frame is
  the number of frames below it. A panic is \<open>Panic\<close>, an \<open>Err(trap)\<close> is \<open>Trapped\<close> with the state it
  leaves behind.
\<close>

section \<open>Stacks\<close>

definition trunc :: "nat \<Rightarrow> 'a list \<Rightarrow> 'a list" where
  "trunc n xs = drop (length xs - n) xs"

lemma length_trunc [simp]: "length (trunc n xs) = min n (length xs)"
  by (simp add: trunc_def)

lemma trunc_all [simp]: "length xs \<le> n \<Longrightarrow> trunc n xs = xs"
  by (simp add: trunc_def)

lemma trunc_trunc [simp]: "trunc m (trunc n xs) = trunc (min m n) xs"
  by (cases "n \<le> length xs"; cases "m \<le> length xs") (auto simp: trunc_def min_def)

text \<open>\<open>get(k)\<close>, counted from the bottom, and \<open>first\<close>.\<close>

definition at_depth :: "nat \<Rightarrow> 'a list \<Rightarrow> 'a option" where
  "at_depth k xs = (if k < length xs then Some (xs ! (length xs - 1 - k)) else None)"

definition bottom :: "'a list \<Rightarrow> 'a option" where
  "bottom xs = (if xs = [] then None else Some (last xs))"

section \<open>The state\<close>

text \<open>What a \<open>rescue\<close> names: a constant, or a local holding classes (\<open>rescue *list\<close>).\<close>

datatype filter_spec = NoFilter | SymFilter symid | SplatLocal nat

datatype rescue_filter = OneClass classid | AnyOf "classid list"

record handler =
  hd_ip :: nat
  hd_stack :: nat
  hd_bind :: "nat option"
  hd_ensure :: bool
  hd_loops :: nat
  hd_begins :: nat
  hd_filter :: filter_spec

record begin_baseline =
  bb_rescues :: nat
  bb_loops :: nat
  bb_loop_stacks :: nat
  bb_bang :: rvalue

record frame_aux =
  ax_rescues :: "handler list"
  ax_loops :: "nat list"
  ax_loop_stacks :: "nat list"
  ax_begins :: "begin_baseline list"

datatype frame_locals = InArena nat | InCell cellid

record uframe =
  uf_proto :: nat
  uf_ip :: nat
  uf_locals :: frame_locals
  uf_base :: nat
  uf_class_body :: bool
  uf_swap :: "rvalue option"
  uf_block :: bool
  uf_lambda :: bool
  uf_match :: "nat option option"
  uf_aux :: "frame_aux option"
  uf_pending_yield :: bool
  uf_own_start :: nat
  uf_dm_share :: bool
  uf_outer_start :: nat
  uf_outer_cell :: "cellid option"
  uf_outer_rest :: "outer_chain option"

text \<open>Where a parked transfer waits.\<close>

record suspend_coord =
  sc_frame :: nat
  sc_rescues :: nat
  sc_stack :: nat
  sc_loops :: nat
  sc_seq :: nat

datatype transfer_kind = BreakWith rvalue | NextIter

record loop_transfer =
  lt_kind :: transfer_kind
  lt_ip :: nat
  lt_rescues :: nat
  lt_loops :: nat
  lt_stack :: nat
  lt_suspended :: "suspend_coord option"

datatype walk_origin = MethodReturnSignal cellid | BlockOrigin

record method_break =
  mb_value :: rvalue
  mb_target :: nat
  mb_suspended :: "suspend_coord option"
  mb_origin :: walk_origin

text \<open>
  The part of the \<open>Vm\<close> the transfers read and write. \<open>bang\<close> is the global \<open>$!\<close>; a regex match is
  its identity. The visibilities of class bodies are numbers, they are only pushed and popped.
\<close>

record uvm =
  ufs :: "uframe list"
  ostack :: "rvalue list"
  arena :: "rvalue list"
  uworld :: world
  uheap :: heap
  loop_transfers :: "loop_transfer list"
  method_breaks :: "method_break list"
  signals :: u8
  break_signaled :: bool
  method_return :: "rvalue option"
  method_return_locals :: "cellid option"
  bang :: rvalue
  class_stack :: "classid list"
  visibility_stack :: "nat list"
  module_function_stack :: "bool list"
  last_match :: "nat option"
  dm_share_depth :: nat
  dispatch_depths :: "nat list"
  kept_block :: "nat \<times> nat"
  suspend_seq :: nat
  last_uncaught :: "rvalue option"

datatype trap = Uncaught rvalue | AlreadyCaught

datatype 'a outcome = Panic | Fine 'a | Trapped trap 'a

text \<open>
  What the transfers ask of the rest of the program: the class hierarchy, which class is the carrier
  of \<open>throw\<close> (named \<open>RubyrsThrowSignal\<close>), the class a name resolves to in the scope of a proto, the
  class of fibers, which classes are eigenclasses by their name or target, and the exception object
  built from a raised value that is not one (which allocates and may run Ruby code).
\<close>

record uenv =
  ue_graph :: class_graph
  ue_throw_name :: "classid \<Rightarrow> bool"
  ue_sym_filter :: "nat \<Rightarrow> symid \<Rightarrow> rescue_filter option"
  ue_fiber_class :: classid
  ue_eigenclass :: "classid \<Rightarrow> bool"
  ue_build_exception :: "rvalue \<Rightarrow> uvm \<Rightarrow> rvalue \<times> uvm"

section \<open>Frames\<close>

definition no_aux :: frame_aux where
  "no_aux = \<lparr>ax_rescues = [], ax_loops = [], ax_loop_stacks = [], ax_begins = []\<rparr>"

text \<open>\<open>aux_mut\<close> creates the box on first use; a missing box reads as an empty one.\<close>

definition aux_of :: "uframe \<Rightarrow> frame_aux" where
  "aux_of f = (case uf_aux f of None \<Rightarrow> no_aux | Some a \<Rightarrow> a)"

definition aux_mut :: "(frame_aux \<Rightarrow> frame_aux) \<Rightarrow> uframe \<Rightarrow> uframe" where
  "aux_mut g f = f\<lparr>uf_aux := Some (g (aux_of f))\<rparr>"

abbreviation rescues :: "uframe \<Rightarrow> handler list" where
  "rescues f \<equiv> ax_rescues (aux_of f)"

definition rescues_len :: "uframe \<Rightarrow> nat" where
  "rescues_len f = (case uf_aux f of None \<Rightarrow> 0 | Some a \<Rightarrow> length (ax_rescues a))"

definition loop_depth :: "uframe \<Rightarrow> nat" where
  "loop_depth f = (case uf_aux f of None \<Rightarrow> 0 | Some a \<Rightarrow> length (ax_loops a))"

definition begin_depth :: "uframe \<Rightarrow> nat" where
  "begin_depth f = (case uf_aux f of None \<Rightarrow> 0 | Some a \<Rightarrow> length (ax_begins a))"

text \<open>The handlers left after some were popped; without a box there is nothing to pop.\<close>

definition set_rescues :: "handler list \<Rightarrow> uframe \<Rightarrow> uframe" where
  "set_rescues hs f = (case uf_aux f of None \<Rightarrow> f | Some a \<Rightarrow> f\<lparr>uf_aux := Some (a\<lparr>ax_rescues := hs\<rparr>)\<rparr>)"

lemma len_rescues [simp]: "rescues_len f = length (rescues f)"
  and len_loops [simp]: "loop_depth f = length (ax_loops (aux_of f))"
  and len_begins [simp]: "begin_depth f = length (ax_begins (aux_of f))"
  by (simp_all add: rescues_len_def loop_depth_def begin_depth_def aux_of_def no_aux_def split: option.splits)

definition outer_cell_for :: "uframe \<Rightarrow> nat \<Rightarrow> cellid option" where
  "outer_cell_for f slot =
     (if uf_own_start f \<le> slot then None
      else if uf_outer_start f \<le> slot \<and> uf_outer_cell f \<noteq> None then uf_outer_cell f
      else map_option (\<lambda>ch. chain_owner_cell ch slot) (uf_outer_rest f))"

text \<open>A read of a local; out of the bounds of the arena or of the own cell is a panic.\<close>

definition frame_local_get :: "uframe \<Rightarrow> uvm \<Rightarrow> nat \<Rightarrow> rvalue option" where
  "frame_local_get f s slot =
     (case uf_locals f of
        InArena base \<Rightarrow> (if base + slot < length (arena s) then Some (arena s ! (base + slot)) else None)
      | InCell c \<Rightarrow>
          (case outer_cell_for f slot of
             Some oc \<Rightarrow> Some (if slot < length (cell (uworld s) oc) then cell (uworld s) oc ! slot else VNil)
           | None \<Rightarrow> (if slot < length (cell (uworld s) c) then Some (cell (uworld s) c ! slot) else None)))"

section \<open>Signals and pending transfers\<close>

text \<open>The mask the dispatch loop tests instead of the three conditions.\<close>

definition signal_mask :: "uvm \<Rightarrow> u8" where
  "signal_mask s =
     (if method_return s \<noteq> None then 1 else 0) OR
     (push_bit 1 (if break_signaled s then 1 else 0)) OR
     (push_bit 2 (if method_breaks s \<noteq> [] then 1 else 0))"

definition sync_signals :: "uvm \<Rightarrow> uvm" where
  "sync_signals s = s\<lparr>signals := signal_mask s\<rparr>"

definition next_suspend_seq :: "uvm \<Rightarrow> nat" where
  "next_suspend_seq s = suspend_seq s + 1"

text \<open>\<open>retain\<close> with the same condition on the coordinates of both kinds; \<open>none\<close> is for the others.\<close>

definition keeps :: "bool \<Rightarrow> (suspend_coord \<Rightarrow> bool) \<Rightarrow> suspend_coord option \<Rightarrow> bool" where
  "keeps none p c = (case c of None \<Rightarrow> none | Some sc \<Rightarrow> p sc)"

definition retain :: "bool \<Rightarrow> (suspend_coord \<Rightarrow> bool) \<Rightarrow> uvm \<Rightarrow> uvm" where
  "retain none p s =
     s\<lparr>loop_transfers := filter (\<lambda>t. keeps none p (lt_suspended t)) (loop_transfers s),
       method_breaks := filter (\<lambda>m. keeps none p (mb_suspended m)) (method_breaks s)\<rparr>"

definition cancel_dead :: "nat \<Rightarrow> uvm \<Rightarrow> uvm" where
  "cancel_dead n s =
     (if loop_transfers s = [] \<and> method_breaks s = [] then s
      else sync_signals (retain True (\<lambda>sc. sc_frame sc < n) s))"

definition take_method_return :: "uvm \<Rightarrow> rvalue option \<times> uvm" where
  "take_method_return s =
     (let v = method_return s;
          s = s\<lparr>method_return := None\<rparr>;
          s = (if v \<noteq> None then retain False (\<lambda>_. True) s else s);
          s = sync_signals s
      in (v, s\<lparr>method_return_locals := None\<rparr>))"

section \<open>Exceptions\<close>

text \<open>\<open>real_class_of\<close> of a raised object; another value has no class here.\<close>

definition exc_class :: "uenv \<Rightarrow> uvm \<Rightarrow> rvalue \<Rightarrow> classid option option" where
  "exc_class e s exc =
     (case exc of
        VObject i \<Rightarrow>
          (case get (uheap s) i of
             Some (OInstance o') \<Rightarrow> Some (Some (i_class o'))
           | Some (OTypedData d) \<Rightarrow> Some (Some (td_class d))
           | Some (OFiber _) \<Rightarrow> Some (Some (ue_fiber_class e))
           | _ \<Rightarrow> None)
      | _ \<Rightarrow> Some None)"

text \<open>\<open>class_chain_has_name\<close> for the name of the \<open>throw\<close> carrier, over at most all classes.\<close>

fun chain_has :: "nat \<Rightarrow> class_graph \<Rightarrow> (classid \<Rightarrow> bool) \<Rightarrow> classid \<Rightarrow> bool" where
  "chain_has 0 g p c = False"
| "chain_has (Suc n) g p c =
     (p c \<or> (case superclass (cinfo g c) of None \<Rightarrow> False | Some d \<Rightarrow> chain_has n g p d))"

definition is_throw_class :: "uenv \<Rightarrow> classid \<Rightarrow> bool" where
  "is_throw_class e = chain_has (Suc (length (ue_graph e))) (ue_graph e) (ue_throw_name e)"

text \<open>
  \<open>resolve_rescue_filter\<close>, when an exception is in flight: the outer \<open>None\<close> is a panic, the inner one
  a filter that names no class. The cache of resolved names is transparent and left out.
\<close>

definition splat_filter :: "heap \<Rightarrow> rvalue \<Rightarrow> rescue_filter option option" where
  "splat_filter h v =
     (case v of
        VArray i \<Rightarrow>
          (case get h i of
             Some (OArray a) \<Rightarrow>
               Some (Some (AnyOf (List.map_filter (\<lambda>v. case v of VClass c \<Rightarrow> Some c | _ \<Rightarrow> None) (a_elems a))))
           | _ \<Rightarrow> None)
      | VClass c \<Rightarrow> Some (Some (OneClass c))
      | _ \<Rightarrow> Some None)"

definition resolve_filter :: "uenv \<Rightarrow> uvm \<Rightarrow> uframe \<Rightarrow> filter_spec \<Rightarrow> rescue_filter option option" where
  "resolve_filter e s f spec =
     (case spec of
        NoFilter \<Rightarrow> Some None
      | SplatLocal slot \<Rightarrow> Option.bind (frame_local_get f s slot) (splat_filter (uheap s))
      | SymFilter name \<Rightarrow> Some (ue_sym_filter e (uf_proto f) name))"

text \<open>A carrier of \<open>throw\<close> is only caught by a filter that is itself that class or narrower.\<close>

definition filter_ok :: "uenv \<Rightarrow> classid \<Rightarrow> classid \<Rightarrow> bool" where
  "filter_ok e cls f \<longleftrightarrow> class_is_a (ue_graph e) cls f \<and> (\<not> is_throw_class e cls \<or> is_throw_class e f)"

definition handler_matches :: "uenv \<Rightarrow> classid option \<Rightarrow> uvm \<Rightarrow> uframe \<Rightarrow> handler \<Rightarrow> bool option" where
  "handler_matches e cls s f h =
     (if hd_ensure h then Some True
      else case resolve_filter e s f (hd_filter h) of
             None \<Rightarrow> None
           | Some None \<Rightarrow> Some False
           | Some (Some (OneClass c)) \<Rightarrow> Some (case cls of None \<Rightarrow> False | Some k \<Rightarrow> filter_ok e k c)
           | Some (Some (AnyOf cs)) \<Rightarrow> Some (case cls of None \<Rightarrow> False | Some k \<Rightarrow> \<exists>c\<in>set cs. filter_ok e k c))"

text \<open>Handlers are popped until one matches; the ones passed over are gone.\<close>

fun pop_until :: "(handler \<Rightarrow> bool option) \<Rightarrow> handler list \<Rightarrow> (handler option \<times> handler list) option" where
  "pop_until m [] = Some (None, [])"
| "pop_until m (h # hs) =
     (case m h of None \<Rightarrow> None | Some True \<Rightarrow> Some (Some h, hs) | Some False \<Rightarrow> pop_until m hs)"

definition upd_top :: "(uframe \<Rightarrow> uframe) \<Rightarrow> uvm \<Rightarrow> uvm" where
  "upd_top g s = (case ufs s of [] \<Rightarrow> s | f # fs \<Rightarrow> s\<lparr>ufs := g f # fs\<rparr>)"

text \<open>The sweep when a handler of the top frame matched: walks parked above it are abandoned.\<close>

definition escape_sweep :: "nat \<Rightarrow> nat \<Rightarrow> uvm \<Rightarrow> uvm" where
  "escape_sweep fidx remaining s =
     sync_signals (retain True (\<lambda>sc. sc_frame sc \<noteq> fidx \<or> sc_rescues sc \<le> remaining) s)"

text \<open>\<open>rescue => e\<close>: the store to the local, to the arena, the own cell or the captured one.\<close>

definition bind_exc :: "nat \<Rightarrow> rvalue \<Rightarrow> uframe \<Rightarrow> uvm \<Rightarrow> uvm option" where
  "bind_exc slot exc f s =
     (case uf_locals f of
        InArena base \<Rightarrow>
          if base + slot < length (arena s) then Some (s\<lparr>arena := (arena s)[base + slot := exc]\<rparr>) else None
      | InCell c \<Rightarrow>
          (case outer_cell_for f slot of
             Some oc \<Rightarrow> Some (s\<lparr>uworld := cell_store oc slot exc (uworld s)\<rparr>)
           | None \<Rightarrow>
               let t = cell (uworld s) c
               in if slot < length t
                  then Some (s\<lparr>uworld := (uworld s)\<lparr>cells := (cells (uworld s))[c := t[slot := exc]]\<rparr>\<rparr>)
                  else None))"

text \<open>
  The jump to a matched handler. An ensure handler gets the exception on the operand stack and a
  synthetic begin baseline with the \<open>$!\<close> to restore when the body is left by a transfer.
\<close>

definition saved_bang :: "handler \<Rightarrow> uframe \<Rightarrow> uvm \<Rightarrow> rvalue" where
  "saved_bang h f s =
     (case at_depth (hd_begins h) (ax_begins (aux_of f)) of Some b \<Rightarrow> bb_bang b | None \<Rightarrow> bang s)"

definition handler_aux :: "handler \<Rightarrow> rvalue \<Rightarrow> frame_aux \<Rightarrow> frame_aux" where
  "handler_aux h saved a =
     (let a = a\<lparr>ax_loops := trunc (hd_loops h) (ax_loops a), ax_loop_stacks := trunc (hd_loops h) (ax_loop_stacks a),
                ax_begins := trunc (hd_begins h) (ax_begins a)\<rparr>
      in if hd_ensure h
         then a\<lparr>ax_begins := \<lparr>bb_rescues = length (ax_rescues a), bb_loops = length (ax_loops a),
                  bb_loop_stacks = length (ax_loop_stacks a), bb_bang = saved\<rparr> # ax_begins a\<rparr>
         else a)"

definition enter_handler :: "handler \<Rightarrow> rvalue \<Rightarrow> uvm \<Rightarrow> uvm option" where
  "enter_handler h exc s =
     (case ufs s of
        [] \<Rightarrow> None
      | f # fs \<Rightarrow>
          let s = escape_sweep (length fs) (rescues_len f) s;
              s = s\<lparr>ostack := trunc (hd_stack h) (ostack s)\<rparr>;
              saved = saved_bang h f s;
              f = aux_mut (handler_aux h saved) (f\<lparr>uf_ip := hd_ip h\<rparr>);
              s = s\<lparr>ufs := f # fs\<rparr>
          in map_option (\<lambda>s. s\<lparr>bang := exc\<rparr>)
               (if hd_ensure h then Some (s\<lparr>ostack := exc # ostack s\<rparr>)
                else case hd_bind h of Some slot \<Rightarrow> bind_exc slot exc f s | None \<Rightarrow> Some s))"

text \<open>What every pop of a frame does.\<close>

definition release_locals :: "frame_locals \<Rightarrow> uvm \<Rightarrow> uvm" where
  "release_locals l s = (case l of InArena base \<Rightarrow> s\<lparr>arena := take base (arena s)\<rparr> | InCell _ \<Rightarrow> s)"

definition pop_dm_share :: "uframe \<Rightarrow> uvm \<Rightarrow> uvm" where
  "pop_dm_share f s = (if uf_dm_share f then s\<lparr>dm_share_depth := dm_share_depth s - 1\<rparr> else s)"

definition restore_match :: "uframe \<Rightarrow> uvm \<Rightarrow> uvm" where
  "restore_match f s = (case uf_match f of None \<Rightarrow> s | Some saved \<Rightarrow> s\<lparr>last_match := saved\<rparr>)"

definition pop_class_body :: "uframe \<Rightarrow> uvm \<Rightarrow> uvm" where
  "pop_class_body f s =
     (if uf_class_body f
      then s\<lparr>class_stack := tl (class_stack s), visibility_stack := tl (visibility_stack s),
             module_function_stack := tl (module_function_stack s)\<rparr>
      else s)"

text \<open>The pop of a frame an exception passes through.\<close>

definition unwind_pop :: "uframe \<Rightarrow> uframe list \<Rightarrow> uvm \<Rightarrow> uvm" where
  "unwind_pop f fs s =
     (let s = s\<lparr>ufs := fs\<rparr>;
          s = cancel_dead (length fs) s;
          s = pop_dm_share f s;
          s = s\<lparr>ostack := trunc (uf_base f) (ostack s)\<rparr>;
          s = restore_match f s;
          s = pop_class_body f s
      in release_locals (uf_locals f) s)"

text \<open>What each of them leaves alone.\<close>

lemma release_locals_sel [simp]:
  "ufs (release_locals l s) = ufs s" "ostack (release_locals l s) = ostack s"
  "uworld (release_locals l s) = uworld s" "uheap (release_locals l s) = uheap s"
  "loop_transfers (release_locals l s) = loop_transfers s"
  "method_breaks (release_locals l s) = method_breaks s" "signals (release_locals l s) = signals s"
  "break_signaled (release_locals l s) = break_signaled s"
  "method_return (release_locals l s) = method_return s" "bang (release_locals l s) = bang s"
  "class_stack (release_locals l s) = class_stack s" "suspend_seq (release_locals l s) = suspend_seq s"
  "dispatch_depths (release_locals l s) = dispatch_depths s"
  by (simp_all add: release_locals_def split: frame_locals.splits)

lemma pop_dm_share_sel [simp]:
  "ufs (pop_dm_share f s) = ufs s" "ostack (pop_dm_share f s) = ostack s"
  "arena (pop_dm_share f s) = arena s" "uworld (pop_dm_share f s) = uworld s"
  "uheap (pop_dm_share f s) = uheap s" "loop_transfers (pop_dm_share f s) = loop_transfers s"
  "method_breaks (pop_dm_share f s) = method_breaks s" "signals (pop_dm_share f s) = signals s"
  "break_signaled (pop_dm_share f s) = break_signaled s"
  "method_return (pop_dm_share f s) = method_return s" "bang (pop_dm_share f s) = bang s"
  "class_stack (pop_dm_share f s) = class_stack s" "suspend_seq (pop_dm_share f s) = suspend_seq s"
  "dispatch_depths (pop_dm_share f s) = dispatch_depths s"
  by (simp_all add: pop_dm_share_def)

lemma restore_match_sel [simp]:
  "ufs (restore_match f s) = ufs s" "ostack (restore_match f s) = ostack s"
  "arena (restore_match f s) = arena s" "uworld (restore_match f s) = uworld s"
  "uheap (restore_match f s) = uheap s" "loop_transfers (restore_match f s) = loop_transfers s"
  "method_breaks (restore_match f s) = method_breaks s" "signals (restore_match f s) = signals s"
  "break_signaled (restore_match f s) = break_signaled s"
  "method_return (restore_match f s) = method_return s" "bang (restore_match f s) = bang s"
  "class_stack (restore_match f s) = class_stack s" "suspend_seq (restore_match f s) = suspend_seq s"
  "dispatch_depths (restore_match f s) = dispatch_depths s"
  by (simp_all add: restore_match_def split: option.splits)

lemma pop_class_body_sel [simp]:
  "ufs (pop_class_body f s) = ufs s" "ostack (pop_class_body f s) = ostack s"
  "arena (pop_class_body f s) = arena s" "uworld (pop_class_body f s) = uworld s"
  "uheap (pop_class_body f s) = uheap s" "loop_transfers (pop_class_body f s) = loop_transfers s"
  "method_breaks (pop_class_body f s) = method_breaks s" "signals (pop_class_body f s) = signals s"
  "break_signaled (pop_class_body f s) = break_signaled s"
  "method_return (pop_class_body f s) = method_return s" "bang (pop_class_body f s) = bang s"
  "suspend_seq (pop_class_body f s) = suspend_seq s"
  "dispatch_depths (pop_class_body f s) = dispatch_depths s"
  by (simp_all add: pop_class_body_def)

lemma sync_signals_sel [simp]:
  "ufs (sync_signals s) = ufs s" "ostack (sync_signals s) = ostack s" "arena (sync_signals s) = arena s"
  "uworld (sync_signals s) = uworld s" "uheap (sync_signals s) = uheap s"
  "loop_transfers (sync_signals s) = loop_transfers s" "method_breaks (sync_signals s) = method_breaks s"
  "break_signaled (sync_signals s) = break_signaled s" "method_return (sync_signals s) = method_return s"
  "bang (sync_signals s) = bang s" "class_stack (sync_signals s) = class_stack s"
  "suspend_seq (sync_signals s) = suspend_seq s" "dispatch_depths (sync_signals s) = dispatch_depths s"
  by (simp_all add: sync_signals_def)

lemma retain_sel [simp]:
  "ufs (retain b p s) = ufs s" "ostack (retain b p s) = ostack s" "arena (retain b p s) = arena s"
  "uworld (retain b p s) = uworld s" "uheap (retain b p s) = uheap s" "signals (retain b p s) = signals s"
  "break_signaled (retain b p s) = break_signaled s" "method_return (retain b p s) = method_return s"
  "bang (retain b p s) = bang s" "class_stack (retain b p s) = class_stack s"
  "suspend_seq (retain b p s) = suspend_seq s" "dispatch_depths (retain b p s) = dispatch_depths s"
  by (simp_all add: retain_def)

lemma cancel_dead_sel [simp]:
  "ufs (cancel_dead n s) = ufs s" "ostack (cancel_dead n s) = ostack s" "arena (cancel_dead n s) = arena s"
  "uworld (cancel_dead n s) = uworld s" "uheap (cancel_dead n s) = uheap s"
  "break_signaled (cancel_dead n s) = break_signaled s" "method_return (cancel_dead n s) = method_return s"
  "bang (cancel_dead n s) = bang s" "class_stack (cancel_dead n s) = class_stack s"
  "suspend_seq (cancel_dead n s) = suspend_seq s" "dispatch_depths (cancel_dead n s) = dispatch_depths s"
  by (simp_all add: cancel_dead_def)

lemma escape_sweep_sel [simp]:
  "ufs (escape_sweep i r s) = ufs s" "ostack (escape_sweep i r s) = ostack s"
  "arena (escape_sweep i r s) = arena s" "uworld (escape_sweep i r s) = uworld s"
  "uheap (escape_sweep i r s) = uheap s" "break_signaled (escape_sweep i r s) = break_signaled s"
  "method_return (escape_sweep i r s) = method_return s" "bang (escape_sweep i r s) = bang s"
  "class_stack (escape_sweep i r s) = class_stack s" "suspend_seq (escape_sweep i r s) = suspend_seq s"
  "dispatch_depths (escape_sweep i r s) = dispatch_depths s"
  by (simp_all add: escape_sweep_def)

lemma frames_unwind_pop [simp]: "ufs (unwind_pop f fs s) = fs"
  by (simp add: unwind_pop_def Let_def)

text \<open>
  The walk from the raising frame outwards. \<open>cls\<close> is the class of the exception, computed once. The
  message of an uncaught exception is not modelled.
\<close>

function unwind_loop :: "uenv \<Rightarrow> classid option \<Rightarrow> rvalue \<Rightarrow> uvm \<Rightarrow> uvm outcome" where
  "unwind_loop e cls exc s =
     (case ufs s of
        [] \<Rightarrow> Panic
      | f # fs \<Rightarrow>
          (case pop_until (handler_matches e cls s f) (rescues f) of
             None \<Rightarrow> Panic
           | Some (Some h, hs) \<Rightarrow>
               (case enter_handler h exc (s\<lparr>ufs := set_rescues hs f # fs\<rparr>) of None \<Rightarrow> Panic | Some s \<Rightarrow> Fine s)
           | Some (None, hs) \<Rightarrow>
               let s = unwind_pop f fs s
               in if fs = [] then Trapped (Uncaught exc) (s\<lparr>last_uncaught := Some exc\<rparr>)
                  else unwind_loop e cls exc s))"
  by pat_completeness auto
termination
  by (relation "measure (\<lambda>(e, cls, exc, s). length (ufs s))") auto

declare unwind_loop.simps [simp del]

text \<open>
  An exception supersedes every transfer that is not parked. The recording of the cause and of the
  backtrace on the exception object, between the sweep and the walk, is not modelled.
\<close>

definition unwind_with_exception :: "uenv \<Rightarrow> rvalue \<Rightarrow> uvm \<Rightarrow> uvm outcome" where
  "unwind_with_exception e exc s =
     (let s = sync_signals (retain False (\<lambda>_. True) s)
      in case exc_class e s exc of None \<Rightarrow> Panic | Some cls \<Rightarrow> unwind_loop e cls exc s)"

section \<open>A new machine\<close>

text \<open>The transfer state of a new \<open>Vm\<close>.\<close>

definition new_uvm :: uvm where
  "new_uvm = \<lparr>ufs = [], ostack = [], arena = [], uworld = \<lparr>cells = [], classes = []\<rparr>, uheap = heap_new None,
     loop_transfers = [], method_breaks = [], signals = 0, break_signaled = False, method_return = None,
     method_return_locals = None, bang = VNil, class_stack = [], visibility_stack = [], module_function_stack = [],
     last_match = None, dm_share_depth = 0, dispatch_depths = [], kept_block = (0, 0), suspend_seq = 0,
     last_uncaught = None\<rparr>"

text \<open>A method frame or block frame as a call pushes it, and surroundings without classes.\<close>

definition new_frame :: "bool \<Rightarrow> nat \<Rightarrow> uframe" where
  "new_frame block base = \<lparr>uf_proto = 0, uf_ip = 0, uf_locals = InArena 0, uf_base = base, uf_class_body = False,
     uf_swap = None, uf_block = block, uf_lambda = False, uf_match = None, uf_aux = None, uf_pending_yield = False,
     uf_own_start = 0, uf_dm_share = False, uf_outer_start = 0, uf_outer_cell = None, uf_outer_rest = None\<rparr>"

definition bare_env :: uenv where
  "bare_env = \<lparr>ue_graph = [], ue_throw_name = (\<lambda>_. False), ue_sym_filter = (\<lambda>_ _. None), ue_fiber_class = 0,
     ue_eigenclass = (\<lambda>_. False), ue_build_exception = (\<lambda>v s. (v, s))\<rparr>"

end
