(* ===== verification/Unwind_Ops.thy ===== *)
theory Unwind_Ops
  imports Unwind_Model
begin

text \<open>
  The transfers that are not exceptions, and the instructions that start, park and resume them:
  \<open>begin_loop_transfer\<close>, \<open>continue_loop_transfer\<close>, \<open>begin_method_break\<close>, \<open>continue_method_break\<close>
  (\<open>vm/raise.rs\<close>) and the handler, loop, \<open>EndEnsure\<close>, \<open>Raise\<close> and \<open>Return\<close> arms of \<open>vm/step.rs\<close>.
\<close>

section \<open>break and next\<close>

text \<open>Handlers above a depth are popped up to the first ensure; a rescue is passed over.\<close>

fun pop_ensure :: "nat \<Rightarrow> handler list \<Rightarrow> handler option \<times> handler list" where
  "pop_ensure n [] = (None, [])"
| "pop_ensure n (h # hs) =
     (if Suc (length hs) \<le> n then (None, h # hs)
      else if hd_ensure h then (Some h, hs)
      else pop_ensure n hs)"

text \<open>The begin baselines opened inside the target loop are dropped; the last one restores \<open>$!\<close>.\<close>

fun pop_begins :: "nat \<Rightarrow> begin_baseline list \<Rightarrow> rvalue option \<Rightarrow> begin_baseline list \<times> rvalue option" where
  "pop_begins n [] r = ([], r)"
| "pop_begins n (b # bs) r = (if n < bb_loops b then pop_begins n bs (Some (bb_bang b)) else (b # bs, r))"

definition restore_bang :: "rvalue option \<Rightarrow> uvm \<Rightarrow> uvm" where
  "restore_bang v s = (case v of None \<Rightarrow> s | Some v \<Rightarrow> s\<lparr>bang := v\<rparr>)"

lemma restore_bang_sel [simp]:
  "ufs (restore_bang v s) = ufs s" "ostack (restore_bang v s) = ostack s"
  "arena (restore_bang v s) = arena s" "uworld (restore_bang v s) = uworld s"
  "uheap (restore_bang v s) = uheap s" "loop_transfers (restore_bang v s) = loop_transfers s"
  "method_breaks (restore_bang v s) = method_breaks s" "signals (restore_bang v s) = signals s"
  "break_signaled (restore_bang v s) = break_signaled s"
  "method_return (restore_bang v s) = method_return s" "class_stack (restore_bang v s) = class_stack s"
  "suspend_seq (restore_bang v s) = suspend_seq s" "dispatch_depths (restore_bang v s) = dispatch_depths s"
  by (simp_all add: restore_bang_def split: option.splits)

definition continue_loop_transfer :: "uvm \<Rightarrow> uvm outcome" where
  "continue_loop_transfer s =
     (case (loop_transfers s, ufs s) of
        (t # ts, f # fs) \<Rightarrow>
          (case pop_ensure (lt_rescues t) (rescues f) of
             (Some h, hs) \<Rightarrow>
               let f = (set_rescues hs f)\<lparr>uf_ip := hd_ip h\<rparr>;
                   coord = \<lparr>sc_frame = length fs, sc_rescues = length hs, sc_stack = hd_stack h,
                     sc_loops = loop_depth f, sc_seq = next_suspend_seq s\<rparr>
               in Fine (s\<lparr>ufs := f # fs, ostack := trunc (hd_stack h) (ostack s), suspend_seq := next_suspend_seq s,
                    loop_transfers := t\<lparr>lt_suspended := Some coord\<rparr> # ts\<rparr>)
           | (None, hs) \<Rightarrow>
               let f = aux_mut (\<lambda>a. a\<lparr>ax_loops := trunc (lt_loops t + 1) (ax_loops a),
                     ax_loop_stacks := trunc (lt_loops t + 1) (ax_loop_stacks a)\<rparr>) (set_rescues hs f);
                   (bs, saved) = pop_begins (lt_loops t) (ax_begins (aux_of f)) None;
                   f = (aux_mut (\<lambda>a. a\<lparr>ax_begins := bs\<rparr>) f)\<lparr>uf_ip := lt_ip t\<rparr>;
                   s = s\<lparr>loop_transfers := ts, ostack := trunc (lt_stack t) (ostack s), ufs := f # fs\<rparr>;
                   s = restore_bang saved s
               in Fine (case lt_kind t of BreakWith v \<Rightarrow> s\<lparr>ostack := v # ostack s\<rparr> | NextIter \<Rightarrow> s))
      | _ \<Rightarrow> Panic)"

text \<open>
  A new transfer cancels the walks parked in ensure bodies that it leaves: those above its target's
  handlers, and those parked when the target loop was already open.
\<close>

definition begin_loop_transfer :: "transfer_kind \<Rightarrow> nat \<Rightarrow> nat \<Rightarrow> uvm \<Rightarrow> uvm outcome" where
  "begin_loop_transfer kind target_ip target_rescues s =
     (case ufs s of
        [] \<Rightarrow> Panic
      | f # fs \<Rightarrow>
          (case ax_loop_stacks (aux_of f) of
             [] \<Rightarrow> Panic
           | target_stack # _ \<Rightarrow>
               let target_loop = loop_depth f - 1;
                   s = sync_signals (retain True (\<lambda>sc. sc_frame sc \<noteq> length fs \<or>
                         (sc_rescues sc \<le> target_rescues \<and> sc_loops sc \<le> target_loop)) s);
                   t = \<lparr>lt_kind = kind, lt_ip = target_ip, lt_rescues = target_rescues, lt_loops = target_loop,
                     lt_stack = target_stack, lt_suspended = None\<rparr>
               in continue_loop_transfer (s\<lparr>loop_transfers := t # loop_transfers s\<rparr>)))"

section \<open>Returns and block breaks\<close>

text \<open>What the pop of a frame restores of \<open>$!\<close>: the value saved at its outermost open begin.\<close>

definition entry_bang :: "uframe \<Rightarrow> rvalue option" where
  "entry_bang f = map_option bb_bang (bottom (ax_begins (aux_of f)))"

text \<open>An intermediate frame: its ensures have run and its value is dropped.\<close>

definition break_pop :: "uframe \<Rightarrow> uframe list \<Rightarrow> uvm \<Rightarrow> uvm" where
  "break_pop f fs s =
     (let s = pop_dm_share f (s\<lparr>ufs := fs\<rparr>);
          s = s\<lparr>ostack := trunc (uf_base f) (ostack s)\<rparr>;
          s = pop_class_body f (restore_match f s);
          s = restore_bang (entry_bang f) s
      in release_locals (uf_locals f) s)"

text \<open>The landing: the value goes to the caller, or the class of a class body, or a replacement.\<close>

definition break_land :: "method_break \<Rightarrow> uframe \<Rightarrow> uframe list \<Rightarrow> uvm \<Rightarrow> uvm outcome" where
  "break_land mb f fs s =
     (let s = pop_dm_share f (s\<lparr>ufs := fs\<rparr>);
          s = s\<lparr>ostack := trunc (uf_base f) (ostack s)\<rparr>;
          s = restore_match f s
      in if uf_class_body f \<and> class_stack s = [] then Panic
         else let v = (if uf_class_body f then VClass (hd (class_stack s))
                       else case uf_swap f of Some r \<Rightarrow> r | None \<Rightarrow> mb_value mb);
                  s = pop_class_body f s;
                  s = s\<lparr>ostack := v # ostack s\<rparr>;
                  s = restore_bang (entry_bang f) s
              in Fine (release_locals (uf_locals f) s))"

lemma frames_break_pop [simp]: "ufs (break_pop f fs s) = fs"
  by (simp add: break_pop_def Let_def)

function continue_walk :: "uvm \<Rightarrow> uvm outcome" where
  "continue_walk s =
     (case (method_breaks s, ufs s) of
        (mb # mbs, f # fs) \<Rightarrow>
          (case pop_ensure 0 (rescues f) of
             (Some h, hs) \<Rightarrow>
               let f = (set_rescues hs f)\<lparr>uf_ip := hd_ip h\<rparr>;
                   st = trunc (hd_stack h) (ostack s);
                   coord = \<lparr>sc_frame = length fs, sc_rescues = length hs, sc_stack = length st,
                     sc_loops = loop_depth f, sc_seq = next_suspend_seq s\<rparr>
               in Fine (s\<lparr>ufs := f # fs, ostack := st, suspend_seq := next_suspend_seq s,
                    method_breaks := mb\<lparr>mb_suspended := Some coord\<rparr> # mbs\<rparr>)
           | (None, _) \<Rightarrow>
               if length fs = mb_target mb then break_land mb f fs (sync_signals (s\<lparr>method_breaks := mbs\<rparr>))
               else continue_walk (break_pop f fs s))
      | _ \<Rightarrow> Panic)"
  by pat_completeness auto
termination
  by (relation "measure (\<lambda>s. length (ufs s))") (auto dest: arg_cong [where f = length])

declare continue_walk.simps [simp del]

definition continue_method_break :: "uvm \<Rightarrow> uvm outcome" where
  "continue_method_break s =
     continue_walk (case method_breaks s of [] \<Rightarrow> s | mb # mbs \<Rightarrow> s\<lparr>method_breaks := mb\<lparr>mb_suspended := None\<rparr> # mbs\<rparr>)"

definition begin_method_break :: "rvalue \<Rightarrow> nat \<Rightarrow> walk_origin \<Rightarrow> uvm \<Rightarrow> uvm outcome" where
  "begin_method_break v target orig s =
     (let s = retain False (\<lambda>sc. sc_frame sc < target) s;
          mb = \<lparr>mb_value = v, mb_target = target, mb_suspended = None, mb_origin = orig\<rparr>;
          s = sync_signals (s\<lparr>method_breaks := mb # method_breaks s\<rparr>)
      in continue_method_break s)"

section \<open>Instructions\<close>

text \<open>
  A jump offset is relative to the instruction pointer, which the dispatcher has advanced. Compiled
  offsets stay inside the code.
\<close>

definition jump_target :: "uframe \<Rightarrow> int \<Rightarrow> nat" where
  "jump_target f off = nat (int (uf_ip f) + off)"

definition push_handler :: "int \<Rightarrow> nat option \<Rightarrow> bool \<Rightarrow> filter_spec \<Rightarrow> uvm \<Rightarrow> uvm outcome" where
  "push_handler off slot ensure filt s =
     (case ufs s of
        [] \<Rightarrow> Panic
      | f # fs \<Rightarrow>
          let h = \<lparr>hd_ip = jump_target f off, hd_stack = length (ostack s), hd_bind = slot, hd_ensure = ensure,
                hd_loops = loop_depth f, hd_begins = begin_depth f, hd_filter = filt\<rparr>
          in Fine (s\<lparr>ufs := aux_mut (\<lambda>a. a\<lparr>ax_rescues := h # ax_rescues a\<rparr>) f # fs\<rparr>))"

definition op_push_rescue :: "int \<Rightarrow> nat \<Rightarrow> bool \<Rightarrow> symid \<Rightarrow> uvm \<Rightarrow> uvm outcome" where
  "op_push_rescue off slot bind name = push_handler off (if bind then Some slot else None) False (SymFilter name)"

definition op_push_rescue_splat :: "int \<Rightarrow> nat \<Rightarrow> bool \<Rightarrow> nat \<Rightarrow> uvm \<Rightarrow> uvm outcome" where
  "op_push_rescue_splat off slot bind src = push_handler off (if bind then Some slot else None) False (SplatLocal src)"

definition op_push_ensure :: "int \<Rightarrow> uvm \<Rightarrow> uvm outcome" where
  "op_push_ensure off = push_handler off None True NoFilter"

text \<open>\<open>PopRescue\<close> and \<open>PopEnsure\<close>.\<close>

definition op_pop_handler :: "uvm \<Rightarrow> uvm outcome" where
  "op_pop_handler s =
     (case ufs s of [] \<Rightarrow> Panic | f # fs \<Rightarrow> Fine (s\<lparr>ufs := set_rescues (tl (rescues f)) f # fs\<rparr>))"

definition op_enter_begin :: "uvm \<Rightarrow> uvm outcome" where
  "op_enter_begin s =
     (case ufs s of
        [] \<Rightarrow> Panic
      | f # fs \<Rightarrow>
          Fine (s\<lparr>ufs := aux_mut (\<lambda>a. a\<lparr>ax_begins := \<lparr>bb_rescues = length (ax_rescues a),
              bb_loops = length (ax_loops a), bb_loop_stacks = length (ax_loop_stacks a), bb_bang = bang s\<rparr>
              # ax_begins a\<rparr>) f # fs\<rparr>))"

definition op_exit_begin :: "uvm \<Rightarrow> uvm outcome" where
  "op_exit_begin s =
     (case ufs s of
        [] \<Rightarrow> Panic
      | f # fs \<Rightarrow>
          (case ax_begins (aux_of f) of
             [] \<Rightarrow> Panic
           | b # bs \<Rightarrow> Fine (s\<lparr>ufs := aux_mut (\<lambda>a. a\<lparr>ax_begins := bs\<rparr>) f # fs, bang := bb_bang b\<rparr>)))"

text \<open>\<open>retry\<close>: \<open>TruncateRescuesToBeginBaseline\<close>.\<close>

definition op_retry :: "uvm \<Rightarrow> uvm outcome" where
  "op_retry s =
     (case ufs s of
        [] \<Rightarrow> Panic
      | f # fs \<Rightarrow>
          (case ax_begins (aux_of f) of
             [] \<Rightarrow> Panic
           | b # _ \<Rightarrow>
               Fine (s\<lparr>ufs := aux_mut (\<lambda>a. a\<lparr>ax_rescues := trunc (bb_rescues b) (ax_rescues a),
                   ax_loops := trunc (bb_loops b) (ax_loops a),
                   ax_loop_stacks := trunc (bb_loop_stacks b) (ax_loop_stacks a)\<rparr>) f # fs\<rparr>)))"

definition op_enter_loop :: "uvm \<Rightarrow> uvm outcome" where
  "op_enter_loop s =
     (case ufs s of
        [] \<Rightarrow> Panic
      | f # fs \<Rightarrow>
          Fine (s\<lparr>ufs := aux_mut (\<lambda>a. a\<lparr>ax_loops := length (ax_rescues a) # ax_loops a,
              ax_loop_stacks := length (ostack s) # ax_loop_stacks a\<rparr>) f # fs\<rparr>))"

definition op_exit_loop :: "uvm \<Rightarrow> uvm outcome" where
  "op_exit_loop s =
     (case ufs s of
        [] \<Rightarrow> Panic
      | f # fs \<Rightarrow>
          if ax_loops (aux_of f) = [] \<or> ax_loop_stacks (aux_of f) = [] then Panic
          else Fine (s\<lparr>ufs := aux_mut (\<lambda>a. a\<lparr>ax_loops := tl (ax_loops a),
                 ax_loop_stacks := tl (ax_loop_stacks a)\<rparr>) f # fs\<rparr>))"

definition op_break_loop :: "int \<Rightarrow> uvm \<Rightarrow> uvm outcome" where
  "op_break_loop off s =
     (case ufs s of
        [] \<Rightarrow> Panic
      | f # fs \<Rightarrow>
          (case (ax_loops (aux_of f), ostack s) of
             (target # _, v # vs) \<Rightarrow>
               begin_loop_transfer (BreakWith v) (jump_target f off) target (s\<lparr>ostack := vs\<rparr>)
           | _ \<Rightarrow> Panic))"

definition op_next_loop :: "int \<Rightarrow> uvm \<Rightarrow> uvm outcome" where
  "op_next_loop off s =
     (case ufs s of
        [] \<Rightarrow> Panic
      | f # fs \<Rightarrow>
          (case ax_loops (aux_of f) of
             target # _ \<Rightarrow> begin_loop_transfer NextIter (jump_target f off) target s
           | [] \<Rightarrow> Panic))"

text \<open>\<open>Op::Break\<close> marks the loop that a native iterator drives.\<close>

definition op_break :: "uvm \<Rightarrow> uvm" where
  "op_break s = sync_signals (s\<lparr>break_signaled := True\<rparr>)"

definition normalize_exception :: "uenv \<Rightarrow> rvalue \<Rightarrow> uvm \<Rightarrow> rvalue \<times> uvm" where
  "normalize_exception e v s = (case v of VObject _ \<Rightarrow> (v, s) | _ \<Rightarrow> ue_build_exception e v s)"

text \<open>
  The tail of \<open>Op::Raise\<close> and of \<open>EndEnsure\<close>: when the exception left the frames of the innermost
  \<open>dispatch_until\<close>, its native driver is told.
\<close>

definition boundary_check :: "uvm outcome \<Rightarrow> uvm outcome" where
  "boundary_check r =
     (case r of
        Fine s \<Rightarrow>
          (case dispatch_depths s of
             d # _ \<Rightarrow> if length (ufs s) \<le> d then Trapped AlreadyCaught s else Fine s
           | [] \<Rightarrow> Fine s)
      | _ \<Rightarrow> r)"

text \<open>
  \<open>do_raise_value\<close>: without a value the current \<open>$!\<close> is raised again. The string of the exception
  raised when there is none is an argument.
\<close>

definition do_raise_value :: "uenv \<Rightarrow> rvalue \<Rightarrow> rvalue \<Rightarrow> uvm \<Rightarrow> uvm outcome" where
  "do_raise_value e unhandled v s =
     (let v = (if v = VNil then (if bang s \<noteq> VNil then bang s else unhandled) else v)
      in case normalize_exception e v s of
           (exc, s) \<Rightarrow> boundary_check (unwind_with_exception e exc s))"

definition matches_here :: "uvm \<Rightarrow> suspend_coord \<Rightarrow> bool" where
  "matches_here s sc \<longleftrightarrow>
     (case ufs s of
        [] \<Rightarrow> False
      | f # fs \<Rightarrow> sc_frame sc = length fs \<and> sc_rescues sc = rescues_len f \<and> sc_stack sc = length (ostack s))"

text \<open>The sequence number of the walk on top of a pending list, when it waits for this tail.\<close>

definition seq_here :: "uvm \<Rightarrow> suspend_coord option list \<Rightarrow> nat option" where
  "seq_here s cs =
     (case cs of
        Some sc # _ \<Rightarrow> if matches_here s sc then Some (sc_seq sc) else None
      | _ \<Rightarrow> None)"

definition op_end_ensure :: "uenv \<Rightarrow> uvm \<Rightarrow> uvm outcome" where
  "op_end_ensure e s =
     (let ls = seq_here s (List.map lt_suspended (loop_transfers s));
          ms = seq_here s (List.map mb_suspended (method_breaks s))
      in if ls \<noteq> None \<and> (ms = None \<or> the ms < the ls) then continue_loop_transfer s
         else if ms \<noteq> None then continue_method_break s
         else case ostack s of
                [] \<Rightarrow> Panic
              | v # vs \<Rightarrow>
                  (case normalize_exception e v (s\<lparr>ostack := vs\<rparr>) of
                     (exc, s) \<Rightarrow> boundary_check (unwind_with_exception e exc s)))"

section \<open>Return\<close>

text \<open>
  \<open>Op::Return\<close>. The boolean is the one the Rust code returns: whether the dispatch loop goes on. The
  fast path is for a frame without handlers, loops or begins and no transfer in flight.
\<close>

definition return_fast_ok :: "uvm \<Rightarrow> bool" where
  "return_fast_ok s \<longleftrightarrow>
     method_breaks s = [] \<and> loop_transfers s = [] \<and> fst (kept_block s) \<noteq> length (ufs s) \<and>
     (case ufs s of
        [] \<Rightarrow> False
      | f # _ \<Rightarrow> uf_aux f = None \<and> \<not> uf_class_body f \<and> uf_swap f = None \<and> \<not> uf_dm_share f)"

text \<open>\<open>pop().unwrap_or(Nil)\<close>, the truncation to the base, and the push of the value.\<close>

definition pop_or_nil :: "rvalue list \<Rightarrow> rvalue" where
  "pop_or_nil vs = (case vs of [] \<Rightarrow> VNil | v # _ \<Rightarrow> v)"

definition settle :: "nat \<Rightarrow> rvalue list \<Rightarrow> rvalue list" where
  "settle base vs = (if length vs \<noteq> base + 1 then pop_or_nil vs # trunc base (tl vs) else vs)"

definition return_fast :: "uvm \<Rightarrow> (bool \<times> uvm) option" where
  "return_fast s =
     (case ufs s of
        [] \<Rightarrow> None
      | f # fs \<Rightarrow>
          let s = restore_match f (s\<lparr>ufs := fs\<rparr>);
              s = s\<lparr>ostack := settle (uf_base f) (ostack s)\<rparr>;
              s = release_locals (uf_locals f) s
          in Some (fs \<noteq> [], s))"

text \<open>
  A plain return that leaves a frame in which a method break is parked: the three shapes in which
  the parked walk is not simply cancelled.
\<close>

datatype abandoned = ReplayReturn | AdoptBreakValue | CancelCrossing

definition abandoned_shape :: "uvm \<Rightarrow> abandoned option" where
  "abandoned_shape s =
     (case (method_breaks s, ufs s) of
        (mb # _, f # fs) \<Rightarrow>
          (case mb_suspended mb of
             None \<Rightarrow> None
           | Some sc \<Rightarrow>
               if sc_frame sc \<noteq> length fs \<or> \<not> uf_block f then None
               else if mb_target mb < length fs \<and> \<not> break_signaled s \<and> mb_origin mb \<noteq> BlockOrigin then Some ReplayReturn
               else if mb_target mb = length fs \<and> break_signaled s then Some AdoptBreakValue
               else if mb_target mb < length fs then Some CancelCrossing
               else None)
      | _ \<Rightarrow> None)"

definition kept_frame_ok :: "bool \<Rightarrow> uvm \<Rightarrow> bool" where
  "kept_frame_ok crossing s \<longleftrightarrow>
     fst (kept_block s) = length (ufs s) \<and> \<not> crossing \<and>
     (case ufs s of
        [] \<Rightarrow> False
      | f # _ \<Rightarrow> uf_base f = snd (kept_block s) \<and> uf_swap f = None \<and>
          rescues f = [] \<and> ax_begins (aux_of f) = [] \<and> ax_loops (aux_of f) = [] \<and> ax_loop_stacks (aux_of f) = [])"

definition return_kept :: "uvm \<Rightarrow> uvm" where
  "return_kept s =
     (case ufs s of
        [] \<Rightarrow> s
      | f # fs \<Rightarrow> cancel_dead (length fs) (s\<lparr>ostack := settle (uf_base f) (ostack s)\<rparr>))"

definition return_pop :: "uenv \<Rightarrow> bool \<Rightarrow> uvm \<Rightarrow> (bool \<times> uvm) outcome" where
  "return_pop e crossing s =
     (case ufs s of
        [] \<Rightarrow> Panic
      | f # fs \<Rightarrow>
          let s = cancel_dead (length fs) (s\<lparr>ufs := fs\<rparr>);
              s = (if crossing \<and> break_signaled s \<and> method_breaks s = [] \<and>
                      (case fs of [] \<Rightarrow> True | g # _ \<Rightarrow> \<not> uf_pending_yield g)
                   then sync_signals (s\<lparr>break_signaled := False\<rparr>) else s);
              s = pop_dm_share f s;
              s = restore_match f s;
              s = restore_bang (entry_bang f) s;
              ret = pop_or_nil (ostack s);
              s = s\<lparr>ostack := trunc (uf_base f) (tl (ostack s))\<rparr>
          in if uf_class_body f \<and> class_stack s = [] then Panic
             else let v = (if uf_class_body f
                           then (if ue_eigenclass e (hd (class_stack s)) then ret else VClass (hd (class_stack s)))
                           else case uf_swap f of Some r \<Rightarrow> r | None \<Rightarrow> ret);
                      s = pop_class_body f s;
                      s = s\<lparr>ostack := v # ostack s\<rparr>
                  in Fine (fs \<noteq> [], release_locals (uf_locals f) s))"

fun outcome_map :: "('a \<Rightarrow> 'b) \<Rightarrow> 'a outcome \<Rightarrow> 'b outcome" where
  "outcome_map f Panic = Panic"
| "outcome_map f (Fine a) = Fine (f a)"
| "outcome_map f (Trapped t a) = Trapped t (f a)"

definition return_slow :: "uenv \<Rightarrow> uvm \<Rightarrow> (bool \<times> uvm) outcome" where
  "return_slow e s =
     (case ufs s of
        [] \<Rightarrow> Panic
      | f # fs \<Rightarrow>
          if \<exists>h\<in>set (rescues f). hd_ensure h
          then outcome_map (\<lambda>s. (ufs s \<noteq> [], s))
                 (begin_method_break (pop_or_nil (ostack s)) (length fs) BlockOrigin (s\<lparr>ostack := tl (ostack s)\<rparr>))
          else case (abandoned_shape s, method_breaks s) of
                 (Some ReplayReturn, mb # mbs) \<Rightarrow>
                   (case mb_origin mb of
                      MethodReturnSignal owner \<Rightarrow>
                        Fine (True, sync_signals (s\<lparr>method_breaks := mbs, ostack := tl (ostack s),
                          method_return := Some (mb_value mb), method_return_locals := Some owner\<rparr>))
                    | BlockOrigin \<Rightarrow> Panic)
               | (sh, mbs) \<Rightarrow>
                   let s = (if sh = Some AdoptBreakValue
                            then (sync_signals (s\<lparr>method_breaks := tl mbs\<rparr>))\<lparr>ostack := mb_value (hd mbs) # tl (ostack s)\<rparr>
                            else s);
                       crossing = (sh = Some CancelCrossing)
                   in if kept_frame_ok crossing s then Fine (False, return_kept s)
                      else return_pop e crossing s)"

definition op_return :: "uenv \<Rightarrow> uvm \<Rightarrow> (bool \<times> uvm) outcome" where
  "op_return e s =
     (if return_fast_ok s then (case return_fast s of None \<Rightarrow> Panic | Some r \<Rightarrow> Fine r)
      else return_slow e s)"

text \<open>
  \<open>Op::ReturnMethod\<close>: a \<open>return\<close> in a block. The cell that identifies the lexical owner is found by
  \<open>find_return_target\<close> and is an argument.
\<close>

definition op_return_method :: "cellid option \<Rightarrow> uvm \<Rightarrow> uvm" where
  "op_return_method owner s =
     (sync_signals (s\<lparr>method_return := Some (pop_or_nil (ostack s)), ostack := tl (ostack s)\<rparr>))
       \<lparr>method_return_locals := owner\<rparr>"

section \<open>The signal gate of the dispatch loop\<close>

text \<open>\<open>rposition\<close>: the index of the topmost frame with a property.\<close>

fun rposition :: "('a \<Rightarrow> bool) \<Rightarrow> 'a list \<Rightarrow> nat option" where
  "rposition p [] = None"
| "rposition p (f # fs) = (if p f then Some (length fs) else rposition p fs)"

definition owns_return :: "cellid \<Rightarrow> uframe \<Rightarrow> bool" where
  "owns_return c f \<longleftrightarrow> (\<not> uf_block f \<or> uf_lambda f) \<and> uf_locals f = InCell c"

text \<open>
  One pass of the gate of \<open>dispatch\<close>; \<open>None\<close> means that no signal asks for anything. The
  \<open>LocalJumpError\<close> raised when the owner of a \<open>return\<close> is gone is an argument.
\<close>

definition dispatch_signals :: "uenv \<Rightarrow> rvalue \<Rightarrow> uvm \<Rightarrow> uvm outcome option" where
  "dispatch_signals e local_jump_error s =
     (if signals s = 0 then None
      else if (case method_breaks s of mb # _ \<Rightarrow> mb_suspended mb = None \<and> mb_target mb < length (ufs s) | [] \<Rightarrow> False)
      then Some (continue_method_break s)
      else case ufs s of
             [] \<Rightarrow> None
           | f # fs \<Rightarrow>
               if break_signaled s \<and> uf_pending_yield f
               then let s = sync_signals (s\<lparr>break_signaled := False\<rparr>);
                        s = s\<lparr>ufs := f\<lparr>uf_pending_yield := False\<rparr> # fs\<rparr>
                    in Some (begin_method_break (pop_or_nil (ostack s)) (length fs) BlockOrigin
                         (s\<lparr>ostack := tl (ostack s)\<rparr>))
               else if method_return s \<noteq> None
               then let owner = method_return_locals s
                    in case take_method_return s of
                         (v, s) \<Rightarrow>
                           (case owner of
                              None \<Rightarrow> Some (unwind_with_exception e local_jump_error s)
                            | Some c \<Rightarrow>
                                (case rposition (owns_return c) (ufs s) of
                                   Some idx \<Rightarrow> Some (begin_method_break (the v) idx (MethodReturnSignal c) s)
                                 | None \<Rightarrow> Some (unwind_with_exception e local_jump_error s)))
               else None)"

text \<open>
  The same gate in \<open>dispatch_until\<close>, which runs the frames above \<open>until\<close> for a native caller: it
  leaves to that caller what is aimed at a frame of the caller.
\<close>

datatype gate = Idle | Leave | Went "uvm outcome"

definition until_signals :: "nat \<Rightarrow> uvm \<Rightarrow> gate" where
  "until_signals until s =
     (if signals s = 0 then Idle
      else if method_return s \<noteq> None
      then (case method_return_locals s of
              None \<Rightarrow> Leave
            | Some c \<Rightarrow>
                (case rposition (owns_return c) (ufs s) of
                   None \<Rightarrow> Leave
                 | Some idx \<Rightarrow>
                     if until \<le> idx
                     then (case take_method_return s of
                             (v, s) \<Rightarrow> Went (begin_method_break (the v) idx (MethodReturnSignal c) s))
                     else Leave))
      else if (case method_breaks s of
                 mb # _ \<Rightarrow> mb_suspended mb = None \<and> until \<le> mb_target mb \<and> mb_target mb < length (ufs s)
               | [] \<Rightarrow> False)
      then Went (continue_method_break s)
      else case ufs s of
             [] \<Rightarrow> Idle
           | f # fs \<Rightarrow>
               if break_signaled s \<and> uf_pending_yield f
               then let s = sync_signals (s\<lparr>break_signaled := False\<rparr>);
                        s = s\<lparr>ufs := f\<lparr>uf_pending_yield := False\<rparr> # fs\<rparr>
                    in Went (begin_method_break (pop_or_nil (ostack s)) (length fs) BlockOrigin
                         (s\<lparr>ostack := tl (ostack s)\<rparr>))
               else Idle)"

section \<open>A break through a native iterator\<close>

text \<open>
  The end of \<open>do_yield\<close> when the block broke out and the method that was given the block (frame
  \<open>target\<close>) is not the frame that yields: the break is put on the pending list, unless it is there
  already, and the value is left for the native iterator in between.
\<close>

definition yield_break_through :: "rvalue \<Rightarrow> nat \<Rightarrow> uvm \<Rightarrow> uvm" where
  "yield_break_through v target s =
     (let s = (if (case method_breaks s of [] \<Rightarrow> True | mb # _ \<Rightarrow> mb_suspended mb \<noteq> None)
               then sync_signals (s\<lparr>method_breaks := \<lparr>mb_value = v, mb_target = target, mb_suspended = None,
                      mb_origin = BlockOrigin\<rparr> # method_breaks s\<rparr>)
               else s)
      in s\<lparr>ostack := v # ostack s\<rparr>)"

text \<open>What a native iterator makes of one run of its block, the tail of \<open>step_block\<close>.\<close>

datatype block_step = StepReturn | StepBreak rvalue | StepValue rvalue

definition block_result :: "uvm \<Rightarrow> block_step \<times> uvm" where
  "block_result s =
     (if method_return s \<noteq> None then (StepReturn, s)
      else let r = pop_or_nil (ostack s); s = s\<lparr>ostack := tl (ostack s)\<rparr>
           in if break_signaled s then (StepBreak r, sync_signals (s\<lparr>break_signaled := False\<rparr>))
              else (StepValue r, s))"

text \<open>And when it is the frame that yields: the break pops it.\<close>

definition yield_break_direct :: "rvalue \<Rightarrow> uvm \<Rightarrow> uvm outcome" where
  "yield_break_direct v s =
     (case ufs s of
        [] \<Rightarrow> Panic
      | f # fs \<Rightarrow> begin_method_break v (length fs) BlockOrigin (sync_signals (s\<lparr>break_signaled := False\<rparr>)))"

end
