(* ===== verification/Unwind_Walks.thy ===== *)
theory Unwind_Walks
  imports Unwind_Ops
begin

text \<open>
  What the transfers do: the fast path of \<open>Return\<close>, where an exception lands, and that a return,
  a block break or a \<open>break\<close> of a loop runs every \<open>ensure\<close> body it crosses, once and from the inside
  out.
\<close>

section \<open>The fast path of Return\<close>

lemma aux_none [simp]: "uf_aux f = None \<Longrightarrow> aux_of f = no_aux"
  by (simp add: aux_of_def)

lemma no_aux_sel [simp]:
  "ax_rescues no_aux = []" "ax_loops no_aux = []" "ax_loop_stacks no_aux = []" "ax_begins no_aux = []"
  by (simp_all add: no_aux_def)

lemma settle_eq: "settle base vs = pop_or_nil vs # trunc base (tl vs)"
  by (cases vs) (auto simp: settle_def pop_or_nil_def)

lemma pop_plain [simp]:
  "\<not> uf_dm_share f \<Longrightarrow> pop_dm_share f s = s" "\<not> uf_class_body f \<Longrightarrow> pop_class_body f s = s"
  "restore_bang None s = s"
  by (simp_all add: pop_dm_share_def pop_class_body_def restore_bang_def)

text \<open>C14. The fast path of \<open>Op::Return\<close> (a frame without handlers, loops, begins, replacement or class
  body, with no transfer pending) leaves exactly the state and the answer that the full path
  leaves.\<close>

theorem return_fast_path:
  assumes "return_fast_ok s"
  shows "op_return e s = return_slow e s"
proof -
  obtain f fs where f: "ufs s = f # fs" "uf_aux f = None" "\<not> uf_class_body f" "uf_swap f = None" "\<not> uf_dm_share f"
    and none: "method_breaks s = []" "loop_transfers s = []" "fst (kept_block s) \<noteq> Suc (length fs)"
    using assms by (auto simp: return_fast_ok_def split: list.splits)
  have "abandoned_shape s = None" "\<not> kept_frame_ok False s"
    using f none by (simp_all add: abandoned_shape_def kept_frame_ok_def)
  moreover have "return_pop e False s = Fine (the (return_fast s))"
    using f none
    by (cases s) (simp add: return_pop_def return_fast_def cancel_dead_def entry_bang_def bottom_def settle_eq
        restore_match_def release_locals_def Let_def split: option.splits frame_locals.splits)
  ultimately show ?thesis
    using assms f none by (simp add: op_return_def return_slow_def return_fast_def Let_def)
qed

definition returning :: uvm where
  "returning = new_uvm\<lparr>ufs := [new_frame False 0, new_frame False 0], ostack := [VInt 3, VInt 2]\<rparr>"

theorem return_fast_path_witness:
  "return_slow bare_env returning =
     Fine (True, returning\<lparr>ufs := [new_frame False 0], ostack := [VInt 3]\<rparr>)"
  using return_fast_path [of returning bare_env]
  by (simp add: returning_def return_fast_ok_def new_uvm_def new_frame_def op_return_def return_fast_def restore_match_def
      settle_def pop_or_nil_def trunc_def release_locals_def Let_def)

section \<open>Which pending transfers survive\<close>

definition retained :: "bool \<Rightarrow> (suspend_coord \<Rightarrow> bool) \<Rightarrow> uvm \<Rightarrow> uvm \<Rightarrow> bool" where
  "retained none p s s' \<longleftrightarrow>
     loop_transfers s' = filter (\<lambda>t. keeps none p (lt_suspended t)) (loop_transfers s) \<and>
     method_breaks s' = filter (\<lambda>m. keeps none p (mb_suspended m)) (method_breaks s)"

lemma keeps_and: "keeps a p c \<and> keeps b q c \<longleftrightarrow> keeps (a \<and> b) (\<lambda>x. p x \<and> q x) c"
  by (simp add: keeps_def split: option.splits)

lemma retained_trans:
  "retained a p s s1 \<Longrightarrow> retained b q s1 s2 \<Longrightarrow> retained (a \<and> b) (\<lambda>x. p x \<and> q x) s s2"
  by (simp add: retained_def keeps_and [symmetric] conj_commute)

definition parked :: "uvm \<Rightarrow> suspend_coord set" where
  "parked s = (\<Union>t\<in>set (loop_transfers s). set_option (lt_suspended t)) \<union>
     (\<Union>m\<in>set (method_breaks s). set_option (mb_suspended m))"

lemma retained_cong:
  assumes "retained a p s s'" and "\<And>sc. sc \<in> parked s \<Longrightarrow> p sc = q sc"
  shows "retained a q s s'"
proof -
  have "keeps a p (lt_suspended t) = keeps a q (lt_suspended t)" if "t \<in> set (loop_transfers s)" for t
    using assms(2) that by (fastforce simp: keeps_def parked_def split: option.splits)
  moreover have "keeps a p (mb_suspended m) = keeps a q (mb_suspended m)" if "m \<in> set (method_breaks s)" for m
    using assms(2) that by (fastforce simp: keeps_def parked_def split: option.splits)
  ultimately show ?thesis using assms(1) by (simp add: retained_def cong: filter_cong)
qed

lemma retained_retain: "retained a p s (retain a p s)"
  by (simp add: retained_def retain_def)

lemma retained_same:
  "loop_transfers s' = loop_transfers s \<Longrightarrow> method_breaks s' = method_breaks s \<Longrightarrow> retained True (\<lambda>_. True) s s'"
  by (auto simp: retained_def keeps_def filter_id_conv split: option.splits)

lemma retained_from:
  "loop_transfers s1 = loop_transfers s \<Longrightarrow> method_breaks s1 = method_breaks s \<Longrightarrow> retained a p s1 s' = retained a p s s'"
  and retained_to:
  "loop_transfers s2 = loop_transfers s' \<Longrightarrow> method_breaks s2 = method_breaks s' \<Longrightarrow> retained a p s s2 = retained a p s s'"
  by (simp_all add: retained_def)

lemma retained_cancel: "retained True (\<lambda>sc. sc_frame sc < n) s (cancel_dead n s)"
  by (simp add: retained_def cancel_dead_def sync_signals_def retain_def)

lemma parked_retained: "retained a p s s' \<Longrightarrow> parked s' = {sc \<in> parked s. p sc}"
  by (auto simp: retained_def parked_def keeps_def)

lemma parked_cong: "loop_transfers s' = loop_transfers s \<Longrightarrow> method_breaks s' = method_breaks s \<Longrightarrow> parked s' = parked s"
  by (simp add: parked_def)

section \<open>Where an exception lands\<close>

text \<open>
  How the frames of a state lie on the operand stack and in the arena: an inner frame begins above
  what the handlers of the outer ones come back to, and above the locals their handlers use.
\<close>

definition handler_slots :: "handler \<Rightarrow> nat set" where
  "handler_slots h = {slot. hd_bind h = Some slot \<or> hd_filter h = SplatLocal slot}"

definition above_ok :: "uframe \<Rightarrow> uframe \<Rightarrow> bool" where
  "above_ok g f \<longleftrightarrow> uf_base f \<le> uf_base g \<and>
     (\<forall>h\<in>set (rescues f). hd_stack h \<le> uf_base g \<and>
        (\<forall>slot\<in>handler_slots h. case (uf_locals g, uf_locals f) of
             (InArena bg, InArena bf) \<Rightarrow> bf + slot < bg | _ \<Rightarrow> True))"

definition frame_ok :: "uframe \<Rightarrow> bool" where
  "frame_ok f \<longleftrightarrow> (\<forall>h\<in>set (rescues f). uf_base f \<le> hd_stack h)"

definition layout :: "uframe list \<Rightarrow> bool" where
  "layout fs \<longleftrightarrow> sorted_wrt above_ok fs \<and> (\<forall>f\<in>set fs. frame_ok f)"

lemma layout_Cons: "layout (f # fs) \<longleftrightarrow> (\<forall>g\<in>set fs. above_ok f g) \<and> frame_ok f \<and> layout fs"
  by (auto simp: layout_def)

text \<open>The reference: the first matching handler, frame by frame from the top.\<close>

fun catcher ::
  "(uframe \<Rightarrow> handler \<Rightarrow> bool option) \<Rightarrow> uframe list \<Rightarrow> (uframe \<times> uframe list \<times> handler \<times> handler list) option option" where
  "catcher m [] = Some None"
| "catcher m (f # fs) =
     (case pop_until (m f) (rescues f) of
        None \<Rightarrow> None
      | Some (Some h, hs) \<Rightarrow> Some (Some (f, fs, h, hs))
      | Some (None, _) \<Rightarrow> catcher m fs)"

lemma pop_until_cong: "(\<And>h. h \<in> set hs \<Longrightarrow> m h = m' h) \<Longrightarrow> pop_until m hs = pop_until m' hs"
  by (induction hs) (auto split: option.splits bool.splits)

lemma pop_until_mem: "pop_until m hs = Some (Some h, rest) \<Longrightarrow> h \<in> set hs \<and> length rest < length hs"
  by (induction hs) (auto split: option.splits bool.splits)

lemma catcher_cong:
  "(\<And>f h. f \<in> set fs \<Longrightarrow> h \<in> set (rescues f) \<Longrightarrow> m f h = m' f h) \<Longrightarrow> catcher m fs = catcher m' fs"
proof (induction fs)
  case (Cons f fs)
  then have "pop_until (m f) (rescues f) = pop_until (m' f) (rescues f)" by (intro pop_until_cong) simp
  with Cons show ?case by (simp split: option.splits)
qed simp

lemma catcher_mem:
  "catcher m fs = Some (Some (f, gs, h, hs)) \<Longrightarrow>
     f \<in> set fs \<and> h \<in> set (rescues f) \<and> length gs < length fs \<and> set gs \<subseteq> set fs"
  by (induction fs) (auto split: option.splits dest: pop_until_mem)

text \<open>A pop leaves the locals of the frames below readable.\<close>

lemma arena_unwind_pop:
  "arena (unwind_pop f fs s) = (case uf_locals f of InArena b \<Rightarrow> take b (arena s) | InCell _ \<Rightarrow> arena s)"
  by (simp add: unwind_pop_def Let_def release_locals_def split: frame_locals.splits)

lemma unwind_pop_sel [simp]:
  "uheap (unwind_pop f fs s) = uheap s" "uworld (unwind_pop f fs s) = uworld s" "bang (unwind_pop f fs s) = bang s"
  "ostack (unwind_pop f fs s) = trunc (uf_base f) (ostack s)"
  by (simp_all add: unwind_pop_def Let_def)

lemma local_after_pop:
  assumes "above_ok g f" and "h \<in> set (rescues f)" and "slot \<in> handler_slots h"
  shows "frame_local_get f (unwind_pop g fs s) slot = frame_local_get f s slot"
  using bspec [OF conjunct2 [OF assms(1) [unfolded above_ok_def]] assms(2)] assms(3)
  by (auto simp: frame_local_get_def arena_unwind_pop split: frame_locals.splits option.splits)

lemma matches_after_pop:
  assumes "above_ok g f" and "h \<in> set (rescues f)"
  shows "handler_matches e cls (unwind_pop g fs s) f h = handler_matches e cls s f h"
proof -
  have "frame_local_get f (unwind_pop g fs s) slot = frame_local_get f s slot" if "hd_filter h = SplatLocal slot" for slot
    using local_after_pop [OF assms] that by (simp add: handler_slots_def)
  then have "resolve_filter e (unwind_pop g fs s) f (hd_filter h) = resolve_filter e s f (hd_filter h)"
    by (simp add: resolve_filter_def split: filter_spec.splits)
  then show ?thesis by (simp add: handler_matches_def)
qed

lemma retained_unwind_pop: "retained True (\<lambda>sc. sc_frame sc < length fs) s (unwind_pop f fs s)"
  using retained_cancel [of "length fs" "s\<lparr>ufs := fs\<rparr>"]
  by (simp add: retained_def unwind_pop_def Let_def)

lemma signal_mask_cong:
  "method_return s' = method_return s \<Longrightarrow> break_signaled s' = break_signaled s \<Longrightarrow>
   method_breaks s' = method_breaks s \<Longrightarrow> signal_mask s' = signal_mask s"
  by (simp add: signal_mask_def)

definition landed_frame :: "handler \<Rightarrow> handler list \<Rightarrow> rvalue \<Rightarrow> uframe \<Rightarrow> uframe" where
  "landed_frame h hs saved f = aux_mut (handler_aux h saved) ((set_rescues hs f)\<lparr>uf_ip := hd_ip h\<rparr>)"

text \<open>The local that \<open>rescue => e\<close> names exists.\<close>

definition can_bind :: "handler \<Rightarrow> uframe \<Rightarrow> uvm \<Rightarrow> bool" where
  "can_bind h f s \<longleftrightarrow> hd_ensure h \<or> hd_bind h = None \<or> frame_local_get f s (the (hd_bind h)) \<noteq> None"

lemma frame_fields [simp]:
  "uf_locals (aux_mut g f) = uf_locals f" "uf_own_start (aux_mut g f) = uf_own_start f"
  "uf_outer_start (aux_mut g f) = uf_outer_start f" "uf_outer_cell (aux_mut g f) = uf_outer_cell f"
  "uf_outer_rest (aux_mut g f) = uf_outer_rest f" "uf_base (aux_mut g f) = uf_base f"
  "uf_locals (set_rescues hs f) = uf_locals f" "uf_own_start (set_rescues hs f) = uf_own_start f"
  "uf_outer_start (set_rescues hs f) = uf_outer_start f" "uf_outer_cell (set_rescues hs f) = uf_outer_cell f"
  "uf_outer_rest (set_rescues hs f) = uf_outer_rest f" "uf_base (set_rescues hs f) = uf_base f"
  by (simp_all add: aux_mut_def set_rescues_def split: option.splits)

lemma frame_local_get_cong:
  assumes "arena s' = arena s" and "uworld s' = uworld s" and "uf_locals f' = uf_locals f"
    and "uf_own_start f' = uf_own_start f" and "uf_outer_start f' = uf_outer_start f"
    and "uf_outer_cell f' = uf_outer_cell f" and "uf_outer_rest f' = uf_outer_rest f"
  shows "frame_local_get f' s' slot = frame_local_get f s slot"
  unfolding frame_local_get_def outer_cell_for_def assms by (rule refl)

lemma local_get_ufs [simp]: "frame_local_get f (s\<lparr>ufs := x\<rparr>) slot = frame_local_get f s slot"
  by (rule frame_local_get_cong) simp_all

lemma bind_exc_ok:
  assumes "frame_local_get f s slot \<noteq> None"
  obtains s' where "bind_exc slot exc f s = Some s'" and "ufs s' = ufs s" and "ostack s' = ostack s"
    and "loop_transfers s' = loop_transfers s" and "method_breaks s' = method_breaks s" and "signals s' = signals s"
    and "method_return s' = method_return s" and "break_signaled s' = break_signaled s"
  using assms by (auto simp: bind_exc_def frame_local_get_def Let_def outer_cell_for_def
      split: frame_locals.splits option.splits if_splits)

lemma enter_handler_effect:
  assumes f: "ufs s = set_rescues hs f # fs" and b: "can_bind h f s" and hs: "length hs < length (rescues f)"
  shows "\<exists>s'. enter_handler h exc s = Some s' \<and> ufs s' = landed_frame h hs (saved_bang h f s) f # fs \<and>
    ostack s' = (if hd_ensure h then [exc] else []) @ trunc (hd_stack h) (ostack s) \<and> bang s' = exc \<and>
    signals s' = signal_mask s' \<and>
    retained True (\<lambda>sc. sc_frame sc \<noteq> length fs \<or> sc_rescues sc \<le> length hs) s s'"
proof -
  let ?f = "set_rescues hs f"
  have r: "rescues ?f = hs" "ax_begins (aux_of ?f) = ax_begins (aux_of f)"
    using hs by (auto simp: set_rescues_def aux_of_def split: option.splits)
  let ?e = "escape_sweep (length fs) (length hs) s"
  define s1 where "s1 = ?e\<lparr>ostack := trunc (hd_stack h) (ostack ?e),
    ufs := landed_frame h hs (saved_bang h f s) f # fs\<rparr>"
  have sv: "saved_bang h ?f (?e\<lparr>ostack := trunc (hd_stack h) (ostack ?e)\<rparr>) = saved_bang h f s"
    using r by (simp add: saved_bang_def split: option.splits)
  have e: "enter_handler h exc s = map_option (\<lambda>s. s\<lparr>bang := exc\<rparr>)
      (if hd_ensure h then Some (s1\<lparr>ostack := exc # ostack s1\<rparr>)
       else case hd_bind h of Some slot \<Rightarrow> bind_exc slot exc (landed_frame h hs (saved_bang h f s) f) s1 | None \<Rightarrow> Some s1)"
    unfolding enter_handler_def f list.case Let_def len_rescues r sv s1_def landed_frame_def by (rule refl)
  have s1: "retained True (\<lambda>sc. sc_frame sc \<noteq> length fs \<or> sc_rescues sc \<le> length hs) s s1"
    "signals s1 = signal_mask s1" "ufs s1 = landed_frame h hs (saved_bang h f s) f # fs"
    "ostack s1 = trunc (hd_stack h) (ostack s)"
    by (simp_all add: s1_def retained_def escape_sweep_def sync_signals_def retain_def signal_mask_def)
  show ?thesis
  proof (cases "hd_ensure h \<or> hd_bind h = None")
    case True
    then show ?thesis using e s1
      by (auto simp: retained_def signal_mask_def)
  next
    case False
    then obtain slot where slot: "hd_bind h = Some slot" "frame_local_get f s slot \<noteq> None" "\<not> hd_ensure h"
      using b by (auto simp: can_bind_def)
    have "frame_local_get (landed_frame h hs (saved_bang h f s) f) s1 slot = frame_local_get f s slot"
      by (rule frame_local_get_cong) (simp_all add: s1_def landed_frame_def)
    then obtain s2 where s2: "bind_exc slot exc (landed_frame h hs (saved_bang h f s) f) s1 = Some s2"
      "ufs s2 = ufs s1" "ostack s2 = ostack s1" "loop_transfers s2 = loop_transfers s1"
      "method_breaks s2 = method_breaks s1" "signals s2 = signals s1"
      "method_return s2 = method_return s1" "break_signaled s2 = break_signaled s1"
      using bind_exc_ok slot(2) by metis
    then show ?thesis using e s1 slot by (simp add: retained_def signal_mask_def)
  qed
qed

text \<open>The state after the landing, and what is left when nothing catches.\<close>

definition landed ::
  "rvalue \<Rightarrow> uvm \<Rightarrow> uframe \<Rightarrow> uframe list \<Rightarrow> handler \<Rightarrow> handler list \<Rightarrow> uvm \<Rightarrow> bool" where
  "landed exc s f fs h hs s' \<longleftrightarrow>
     ufs s' = landed_frame h hs (saved_bang h f s) f # fs \<and>
     ostack s' = (if hd_ensure h then [exc] else []) @ trunc (hd_stack h) (ostack s) \<and> bang s' = exc \<and>
     signals s' = signal_mask s' \<and>
     retained True (\<lambda>sc. sc_frame sc < length fs \<or> sc_frame sc = length fs \<and> sc_rescues sc \<le> length hs) s s'"

definition lands ::
  "rvalue \<Rightarrow> uvm \<Rightarrow> (uframe \<times> uframe list \<times> handler \<times> handler list) option \<Rightarrow> uvm outcome \<Rightarrow> bool" where
  "lands exc s r out \<longleftrightarrow>
     (case r of
        None \<Rightarrow> \<exists>s'. out = Trapped (Uncaught exc) s' \<and> ufs s' = [] \<and> retained True (\<lambda>_. False) s s'
      | Some (f, fs, h, hs) \<Rightarrow> can_bind h f s \<longrightarrow> (\<exists>s'. out = Fine s' \<and> landed exc s f fs h hs s'))"

text \<open>Landing after the pop of a frame is landing before it.\<close>

lemma lands_after_pop:
  assumes below: "\<forall>g\<in>set fs. above_ok f g" and r: "catcher m fs = Some r"
    and l: "lands exc (unwind_pop f fs s) r out"
  shows "lands exc s r out"
proof (cases r)
  case None
  have "retained True (\<lambda>_. False) s s'" if "retained True (\<lambda>_. False) (unwind_pop f fs s) s'" for s'
    using retained_trans [OF retained_unwind_pop that] by simp
  with None l show ?thesis by (auto simp: lands_def)
next
  case (Some q)
  obtain g gs h hs where q: "q = (g, gs, h, hs)" by (cases q)
  have m: "g \<in> set fs" "h \<in> set (rescues g)" "length gs < length fs"
    using catcher_mem [of m fs g gs h hs] r Some q by blast+
  have ab: "above_ok f g" using below m(1) by blast
  have cb: "can_bind h g (unwind_pop f fs s) = can_bind h g s"
    using local_after_pop [OF ab m(2)] by (auto simp: can_bind_def handler_slots_def)
  have st: "min (hd_stack h) (uf_base f) = hd_stack h"
    using ab m(2) by (auto simp: above_ok_def min_absorb1)
  have sb: "saved_bang h g (unwind_pop f fs s) = saved_bang h g s" by (simp add: saved_bang_def split: option.splits)
  have rt: "retained True (\<lambda>sc. sc_frame sc < length gs \<or> sc_frame sc = length gs \<and> sc_rescues sc \<le> length hs) s s'"
    if "retained True (\<lambda>sc. sc_frame sc < length gs \<or> sc_frame sc = length gs \<and> sc_rescues sc \<le> length hs) (unwind_pop f fs s) s'" for s'
    by (rule retained_cong [OF retained_trans [OF retained_unwind_pop that, simplified]]) (use m(3) in auto)
  show ?thesis
    using l rt by (auto simp: lands_def Some q cb landed_def st sb)
qed

lemma lands_here:
  assumes f: "ufs s = f # fs" and pk: "\<forall>sc\<in>parked s. sc_frame sc < length (ufs s)"
    and p: "pop_until (handler_matches e cls s f) (rescues f) = Some (Some h, hs)"
  shows "lands exc s (Some (f, fs, h, hs)) (unwind_loop e cls exc s)"
proof -
  have len: "length hs < length (rescues f)" using pop_until_mem [of _ "rescues f" h hs] p by blast
  let ?s = "s\<lparr>ufs := set_rescues hs f # fs\<rparr>"
  have "\<exists>s'. unwind_loop e cls exc s = Fine s' \<and> landed exc s f fs h hs s'" if b: "can_bind h f s"
  proof -
    have cb: "can_bind h f ?s" "saved_bang h f ?s = saved_bang h f s"
      using b by (simp_all add: can_bind_def saved_bang_def split: option.splits)
    obtain s' where s': "enter_handler h exc ?s = Some s'" "ufs s' = landed_frame h hs (saved_bang h f s) f # fs"
      "ostack s' = (if hd_ensure h then [exc] else []) @ trunc (hd_stack h) (ostack s)" "bang s' = exc"
      "signals s' = signal_mask s'"
      "retained True (\<lambda>sc. sc_frame sc \<noteq> length fs \<or> sc_rescues sc \<le> length hs) s s'"
      using enter_handler_effect [OF _ cb(1) len, of fs exc] cb(2) by (auto simp: retained_def)
    have "unwind_loop e cls exc s = Fine s'"
      using f p s'(1) by (subst unwind_loop.simps) simp
    moreover have "retained True (\<lambda>sc. sc_frame sc < length fs \<or> sc_frame sc = length fs \<and> sc_rescues sc \<le> length hs) s s'"
      by (rule retained_cong [OF s'(6)]) (use pk f in force)
    ultimately show ?thesis using s' by (auto simp: landed_def)
  qed
  then show ?thesis by (simp add: lands_def)
qed

lemma unwind_loop_lands:
  "layout (ufs s) \<Longrightarrow> ufs s \<noteq> [] \<Longrightarrow> \<forall>sc\<in>parked s. sc_frame sc < length (ufs s) \<Longrightarrow>
     catcher (handler_matches e cls s) (ufs s) = Some r \<Longrightarrow> lands exc s r (unwind_loop e cls exc s)"
proof (induction "length (ufs s)" arbitrary: s)
  case (Suc n)
  obtain f fs where f: "ufs s = f # fs" using Suc.prems(2) by (cases "ufs s") auto
  obtain ho hs where p: "pop_until (handler_matches e cls s f) (rescues f) = Some (ho, hs)"
    using Suc.prems(4) f by (auto split: option.splits)
  show ?case
  proof (cases ho)
    case (Some h)
    then have "r = Some (f, fs, h, hs)" using p Suc.prems(4) f by simp
    then show ?thesis using lands_here [OF f Suc.prems(3)] p Some by blast
  next
    case None
    let ?s = "unwind_pop f fs s"
    have cat: "catcher (handler_matches e cls s) fs = Some r" using Suc.prems(4) f p None by simp
    have pk: "\<forall>sc\<in>parked ?s. sc_frame sc < length fs"
      using parked_retained [OF retained_unwind_pop [of fs s f]] by simp
    show ?thesis
    proof (cases "fs = []")
      case True
      have "unwind_loop e cls exc s = Trapped (Uncaught exc) (?s\<lparr>last_uncaught := Some exc\<rparr>)"
        using f p None True by (subst unwind_loop.simps) (simp add: Let_def)
      moreover have "retained True (\<lambda>_. False) s ?s"
        by (rule retained_cong [OF retained_unwind_pop]) (simp add: True)
      ultimately show ?thesis using cat True by (simp add: lands_def retained_def)
    next
      case False
      have below: "\<forall>g\<in>set fs. above_ok f g" and lay: "layout fs" using Suc.prems(1) f by (simp_all add: layout_Cons)
      have "catcher (handler_matches e cls ?s) fs = catcher (handler_matches e cls s) fs"
        by (rule catcher_cong) (use matches_after_pop below in blast)
      then have "lands exc ?s r (unwind_loop e cls exc ?s)"
        using Suc.hyps(1) [of ?s] Suc.hyps(2) f lay False pk cat by simp
      moreover have "unwind_loop e cls exc s = unwind_loop e cls exc ?s"
        using f p None False by (subst unwind_loop.simps) (simp add: Let_def)
      ultimately show ?thesis using lands_after_pop [OF below cat] by simp
    qed
  qed
qed simp

text \<open>C11. An exception goes to the first handler that matches, looking through the handlers of the top
  frame from the innermost one, then through those of the frame below, and so on (\<open>catcher\<close>): every
  ensure handler matches, a rescue handler by its class filter. The frames above are popped, the
  handlers passed over are gone, the operand stack is cut to the depth the handler recorded (with
  the exception on top for an ensure body), \<open>$!\<close> is the exception and execution goes on at the
  handler. A parked transfer survives exactly when the exception is caught inside the ensure body it
  waits in. When no handler matches, all frames and all transfers are gone and the host gets the
  exception.\<close>

theorem exception_lands:
  assumes "layout (ufs s)" and "ufs s \<noteq> []" and "\<forall>sc\<in>parked s. sc_frame sc < length (ufs s)"
    and "exc_class e s exc = Some cls" and "catcher (handler_matches e cls s) (ufs s) = Some r"
  shows "case r of
      None \<Rightarrow> \<exists>s'. unwind_with_exception e exc s = Trapped (Uncaught exc) s' \<and> ufs s' = [] \<and>
        loop_transfers s' = [] \<and> method_breaks s' = []
    | Some (f, fs, h, hs) \<Rightarrow> can_bind h f s \<longrightarrow>
        (\<exists>s'. unwind_with_exception e exc s = Fine s' \<and>
           ufs s' = landed_frame h hs (saved_bang h f s) f # fs \<and>
           ostack s' = (if hd_ensure h then [exc] else []) @ trunc (hd_stack h) (ostack s) \<and> bang s' = exc \<and>
           signals s' = signal_mask s' \<and>
           retained False (\<lambda>sc. sc_frame sc < length fs \<or> sc_frame sc = length fs \<and> sc_rescues sc \<le> length hs) s s')"
proof -
  let ?s = "sync_signals (retain False (\<lambda>_. True) s)"
  have r0: "retained False (\<lambda>_. True) s ?s" by (simp add: retained_def sync_signals_def retain_def)
  have m: "handler_matches e cls ?s = handler_matches e cls s"
  proof (intro ext)
    fix f h
    have "frame_local_get f ?s slot = frame_local_get f s slot" for slot by (rule frame_local_get_cong) simp_all
    then have "resolve_filter e ?s f spec = resolve_filter e s f spec" for spec
      by (simp add: resolve_filter_def split: filter_spec.splits)
    then show "handler_matches e cls ?s f h = handler_matches e cls s f h" by (simp add: handler_matches_def)
  qed
  have "exc_class e ?s exc = exc_class e s exc"
    unfolding exc_class_def by (simp only: sync_signals_sel retain_sel)
  then have "exc_class e ?s exc = Some cls" using assms(4) by simp
  then have u: "unwind_with_exception e exc s = unwind_loop e cls exc ?s"
    by (simp add: unwind_with_exception_def Let_def)
  have "lands exc ?s r (unwind_loop e cls exc ?s)"
    by (rule unwind_loop_lands) (use assms m parked_retained [OF r0] in simp_all)
  then have l: "lands exc ?s r (unwind_with_exception e exc s)" by (simp only: u)
  show ?thesis
  proof (cases r)
    case None
    then obtain s' where s': "unwind_with_exception e exc s = Trapped (Uncaught exc) s'" "ufs s' = []"
      "retained True (\<lambda>_. False) ?s s'" using l by (auto simp: lands_def)
    have "retained False (\<lambda>_. False) s s'" using retained_trans [OF r0 s'(3)] by simp
    then have "loop_transfers s' = []" "method_breaks s' = []"
      by (simp_all add: retained_def keeps_def filter_empty_conv split: option.splits)
    with s' None show ?thesis by simp
  next
    case (Some q)
    obtain f fs h hs where q: "q = (f, fs, h, hs)" by (cases q)
    have cb: "can_bind h f ?s = can_bind h f s"
      using frame_local_get_cong [of ?s s f f "the (hd_bind h)"] by (simp add: can_bind_def)
    have sb: "saved_bang h f ?s = saved_bang h f s" by (simp add: saved_bang_def split: option.splits)
    have rt: "retained False p s s'" if "retained True p ?s s'" for p s'
      using retained_trans [OF r0 that] by simp
    show ?thesis using l rt by (auto simp: lands_def Some q cb landed_def sb)
  qed
qed

text \<open>A method without handlers, called from one that is inside a \<open>begin\<close> with an \<open>ensure\<close> at 9.\<close>

definition ensure_at :: "nat \<Rightarrow> nat \<Rightarrow> handler" where
  "ensure_at ip depth = \<lparr>hd_ip = ip, hd_stack = depth, hd_bind = None, hd_ensure = True, hd_loops = 0, hd_begins = 0,
     hd_filter = NoFilter\<rparr>"

definition guarded_frame :: uframe where
  "guarded_frame = (new_frame False 0)\<lparr>uf_aux := Some (no_aux\<lparr>ax_rescues := [ensure_at 9 0]\<rparr>)\<rparr>"

definition guarded :: uvm where
  "guarded = new_uvm\<lparr>ufs := [new_frame False 1, guarded_frame], ostack := [VInt 1, VInt 1]\<rparr>"

lemma guarded_layout: "layout (ufs guarded)"
  by (simp add: guarded_def guarded_frame_def new_frame_def ensure_at_def layout_Cons above_ok_def frame_ok_def
      handler_slots_def aux_of_def layout_def)

theorem exception_lands_witness:
  "\<exists>s'. unwind_with_exception bare_env (VInt 7) guarded = Fine s' \<and> ostack s' = [VInt 7] \<and> bang s' = VInt 7 \<and>
     List.map uf_ip (ufs s') = [9]"
proof -
  have c: "catcher (handler_matches bare_env None guarded) (ufs guarded) = Some (Some (guarded_frame, [], ensure_at 9 0, []))"
    by (simp add: guarded_def guarded_frame_def new_frame_def ensure_at_def handler_matches_def aux_of_def)
  have p: "\<forall>sc\<in>parked guarded. sc_frame sc < length (ufs guarded)"
    by (simp add: parked_def guarded_def new_uvm_def)
  have x: "exc_class bare_env guarded (VInt 7) = Some None" by (simp add: exc_class_def)
  have n: "ufs guarded \<noteq> []" "ostack guarded = [VInt 1, VInt 1]" by (simp_all add: guarded_def)
  have h: "can_bind (ensure_at 9 0) guarded_frame guarded" "hd_ensure (ensure_at 9 0)" "hd_stack (ensure_at 9 0) = 0"
    "hd_ip (ensure_at 9 0) = 9"
    by (simp_all add: can_bind_def ensure_at_def)
  obtain s' where "unwind_with_exception bare_env (VInt 7) guarded = Fine s'" "ostack s' = [VInt 7]" "bang s' = VInt 7"
    "ufs s' = [landed_frame (ensure_at 9 0) [] (saved_bang (ensure_at 9 0) guarded_frame guarded) guarded_frame]"
    using exception_lands [OF guarded_layout n(1) p x c] h n(2) by (auto simp: trunc_def)
  then show ?thesis by (auto simp: landed_frame_def aux_mut_def h)
qed

end
