(* ===== verification/Unwind_Ensure.thy ===== *)
theory Unwind_Ensure
  imports Unwind_Walks
begin

text \<open>
  A return, a block break and a \<open>break\<close> or \<open>next\<close> of a loop run every \<open>ensure\<close> body they cross. The
  walk jumps into a body and is resumed by \<open>EndEnsure\<close> at its tail; what the body does in between is
  any change that leaves the frames and the operand stack as they were (\<open>at_tail\<close>), which is what
  the compiler's statement-balanced bodies do when they run to their end.
\<close>

section \<open>Bodies and jumps\<close>

definition at_tail :: "uvm \<Rightarrow> uvm \<Rightarrow> bool" where
  "at_tail s s' \<longleftrightarrow>
     (\<exists>k. ufs s' = (case ufs s of [] \<Rightarrow> [] | f # fs \<Rightarrow> f\<lparr>uf_ip := k\<rparr> # fs)) \<and> ostack s' = ostack s \<and>
     loop_transfers s' = loop_transfers s \<and> method_breaks s' = method_breaks s \<and> suspend_seq s \<le> suspend_seq s'"

definition ensure_ips :: "handler list \<Rightarrow> nat list" where
  "ensure_ips hs = List.map hd_ip (filter hd_ensure hs)"

text \<open>The bodies between the top and a frame index, from the inside out: frame and address.\<close>

fun jumps :: "nat \<Rightarrow> uframe list \<Rightarrow> (nat \<times> nat) list" where
  "jumps t [] = []"
| "jumps t (f # fs) =
     (if length fs < t then [] else List.map (Pair (length fs)) (ensure_ips (rescues f)) @ jumps t fs)"

lemma ip_fields [simp]: "aux_of (f\<lparr>uf_ip := k\<rparr>) = aux_of f"
  by (simp add: aux_of_def)

lemma jumps_low: "length fs \<le> t \<Longrightarrow> jumps t fs = []"
  by (cases fs) auto

lemma rescues_set [simp]: "length hs < length (rescues f) \<Longrightarrow> rescues (set_rescues hs f) = hs"
  by (auto simp: set_rescues_def aux_of_def split: option.splits)

lemma pop_ensure_Some:
  "pop_ensure n hs = (Some h, rest) \<Longrightarrow>
     hd_ensure h \<and> h \<in> set hs \<and> set rest \<subseteq> set hs \<and> length rest < length hs \<and> n \<le> length rest"
  by (induction n hs rule: pop_ensure.induct) (auto split: if_splits)

lemma pop_ensure_all: "pop_ensure 0 hs = (Some h, rest) \<Longrightarrow> ensure_ips hs = hd_ip h # ensure_ips rest"
  by (induction hs) (auto simp: ensure_ips_def split: if_splits)

lemma pop_ensure_none: "pop_ensure 0 hs = (None, rest) \<Longrightarrow> ensure_ips hs = [] \<and> rest = []"
  by (induction hs) (auto simp: ensure_ips_def split: if_splits)

lemma layout_fewer:
  assumes "layout (f # fs)" and "length hs < length (rescues f)" and "set hs \<subseteq> set (rescues f)"
  shows "layout ((set_rescues hs f)\<lparr>uf_ip := k\<rparr> # fs)"
  using assms by (auto simp: layout_Cons above_ok_def frame_ok_def)

section \<open>One hop of a method break\<close>

text \<open>The state when a break has landed on the frame \<open>g\<close>, above \<open>rest\<close>.\<close>

definition break_landed :: "rvalue \<Rightarrow> uframe \<Rightarrow> uframe list \<Rightarrow> rvalue list \<Rightarrow> uvm \<Rightarrow> bool" where
  "break_landed v g rest st s' \<longleftrightarrow>
     ufs s' = rest \<and> ostack s' = (case uf_swap g of Some r \<Rightarrow> r | None \<Rightarrow> v) # trunc (uf_base g) st \<and>
     (entry_bang g = None \<or> bang s' = the (entry_bang g))"

lemma break_pop_sel [simp]:
  "ostack (break_pop f fs s) = trunc (uf_base f) (ostack s)" "loop_transfers (break_pop f fs s) = loop_transfers s"
  "method_breaks (break_pop f fs s) = method_breaks s" "suspend_seq (break_pop f fs s) = suspend_seq s"
  by (simp_all add: break_pop_def Let_def)

lemma break_land_ok:
  assumes "\<not> uf_class_body g"
  shows "\<exists>s'. break_land mb g rest s = Fine s' \<and> break_landed (mb_value mb) g rest (ostack s) s' \<and>
    loop_transfers s' = loop_transfers s \<and> method_breaks s' = method_breaks s"
  using assms by (auto simp: break_land_def Let_def break_landed_def restore_bang_def split: option.splits)

lemma walk_hop:
  assumes "layout (ufs s)" and "ufs s = pre @ g # rest" and "\<not> uf_class_body g"
    and "method_breaks s = mb # mbs" and "mb_target mb = length rest"
  shows "case jumps (length rest) (ufs s) of
      [] \<Rightarrow> \<exists>s'. continue_walk s = Fine s' \<and> break_landed (mb_value mb) g rest (ostack s) s' \<and>
        loop_transfers s' = loop_transfers s \<and> method_breaks s' = mbs
    | j # js \<Rightarrow> \<exists>s' pre' g' c. continue_walk s = Fine s' \<and> ufs s' = pre' @ g' # rest \<and> layout (ufs s') \<and>
        j = (length (ufs s') - 1, uf_ip (hd (ufs s'))) \<and> js = jumps (length rest) (ufs s') \<and>
        uf_base g' = uf_base g \<and> uf_swap g' = uf_swap g \<and> uf_class_body g' = uf_class_body g \<and>
        entry_bang g' = entry_bang g \<and> trunc (uf_base g) (ostack s') = trunc (uf_base g) (ostack s) \<and>
        loop_transfers s' = loop_transfers s \<and> method_breaks s' = mb\<lparr>mb_suspended := Some c\<rparr> # mbs \<and>
        matches_here s' c \<and> suspend_seq s \<le> suspend_seq s'"
  using assms
proof (induction "length (ufs s)" arbitrary: s pre)
  case (Suc n)
  obtain f fs where f: "ufs s = f # fs" using Suc.hyps(2) by (cases "ufs s") auto
  have len: "length rest \<le> length fs" using Suc.prems(2) f by (cases pre) auto
  obtain ho hs where p: "pop_ensure 0 (rescues f) = (ho, hs)" by (cases "pop_ensure 0 (rescues f)")
  show ?case
  proof (cases ho)
    case (Some h)
    note pe = pop_ensure_Some [OF p [unfolded Some]] and pa = pop_ensure_all [OF p [unfolded Some]]
    let ?f = "(set_rescues hs f)\<lparr>uf_ip := hd_ip h\<rparr>"
    define st where "st = trunc (hd_stack h) (ostack s)"
    define c where "c = \<lparr>sc_frame = length fs, sc_rescues = length hs, sc_stack = length st,
                     sc_loops = loop_depth ?f, sc_seq = next_suspend_seq s\<rparr>"
    define s' where "s' = s\<lparr>ufs := ?f # fs, ostack := st, suspend_seq := next_suspend_seq s,
                    method_breaks := mb\<lparr>mb_suspended := Some c\<rparr> # mbs\<rparr>"
    have w: "continue_walk s = Fine s'"
      using f p Some Suc.prems(4) by (subst continue_walk.simps) (simp add: s'_def c_def st_def Let_def)
    have u: "ufs s' = ?f # fs" by (simp add: s'_def)
    have j: "jumps (length rest) (ufs s) = (length fs, hd_ip h) # jumps (length rest) (ufs s')"
      using f len pa pe by (simp add: u)
    obtain pre' g' where g': "ufs s' = pre' @ g' # rest" "uf_base g' = uf_base g" "uf_swap g' = uf_swap g"
      "uf_class_body g' = uf_class_body g" "entry_bang g' = entry_bang g"
    proof (cases pre)
      case Nil
      then have "f = g" "fs = rest" using Suc.prems(2) f by simp_all
      then show thesis using that [of "[]" ?f]
        by (simp add: u entry_bang_def set_rescues_def aux_of_def split: option.splits)
    next
      case (Cons a as)
      then show thesis using that [of "?f # as" g] Suc.prems(2) f by (simp add: u)
    qed
    have "uf_base g \<le> hd_stack h"
      using Suc.prems(1,2) f pe by (cases pre) (auto simp: layout_Cons above_ok_def frame_ok_def)
    then have tr: "trunc (uf_base g) (ostack s') = trunc (uf_base g) (ostack s)"
      by (simp add: s'_def st_def min_absorb1)
    have lay: "layout (ufs s')" using Suc.prems(1) f pe layout_fewer by (simp add: u)
    have mh: "matches_here s' c" using pe by (simp add: matches_here_def u c_def) (simp add: s'_def)
    have jj: "(length fs, hd_ip h) = (length (ufs s') - 1, uf_ip (hd (ufs s')))" by (simp add: u)
    have same: "loop_transfers s' = loop_transfers s" "method_breaks s' = mb\<lparr>mb_suspended := Some c\<rparr> # mbs"
      "suspend_seq s \<le> suspend_seq s'" by (simp_all add: s'_def next_suspend_seq_def)
    show ?thesis
      unfolding j list.case
      by (rule exI [of _ s'], rule exI [of _ pre'], rule exI [of _ g'], rule exI [of _ c])
        (intro conjI w g' lay jj refl tr same mh)
  next
    case None
    note pn = pop_ensure_none [OF p [unfolded None]]
    show ?thesis
    proof (cases "length fs = length rest")
      case True
      then have fg: "f = g" "fs = rest" using Suc.prems(2) f by (cases pre; simp)+
      have w: "continue_walk s = break_land mb g rest (sync_signals (s\<lparr>method_breaks := mbs\<rparr>))"
        using f p None Suc.prems(4,5) fg by (subst continue_walk.simps) simp
      have "jumps (length rest) (ufs s) = []" using f fg pn by (simp add: jumps_low)
      then show ?thesis
        using break_land_ok [OF Suc.prems(3), of mb rest "sync_signals (s\<lparr>method_breaks := mbs\<rparr>)"] w
        by (simp add: break_landed_def sync_signals_def)
    next
      case False
      let ?s = "break_pop f fs s"
      obtain as where as: "fs = as @ g # rest" using Suc.prems(2) f False by (cases pre) auto
      have w: "continue_walk s = continue_walk ?s"
        using f p None Suc.prems(4,5) False by (subst continue_walk.simps) simp
      have j: "jumps (length rest) (ufs s) = jumps (length rest) (ufs ?s)" using f len pn by simp
      have "uf_base g \<le> uf_base f" using Suc.prems(1) f as by (auto simp: layout_Cons above_ok_def)
      then have tr: "trunc (uf_base g) (ostack ?s) = trunc (uf_base g) (ostack s)" by (simp add: min_absorb1)
      have lay: "layout (ufs ?s)" using Suc.prems(1) f by (simp add: layout_Cons)
      have "break_landed (mb_value mb) g rest (ostack ?s) = break_landed (mb_value mb) g rest (ostack s)"
        using tr by (simp add: break_landed_def fun_eq_iff)
      then show ?thesis
        using Suc.hyps(1) [of ?s as, OF _ lay _ Suc.prems(3)] Suc.hyps(2) f as Suc.prems(4,5) w j tr
        by (simp split: list.splits) blast+
    qed
  qed
qed simp

section \<open>The whole walk\<close>

text \<open>
  Runs a walk to its landing: while it is parked, the body runs to its tail (\<open>B\<close>) and \<open>EndEnsure\<close>
  resumes. The result lists the bodies entered, as frame and address.
\<close>

primrec drive ::
  "(uvm \<Rightarrow> uvm) \<Rightarrow> uenv \<Rightarrow> (uvm \<Rightarrow> bool) \<Rightarrow> nat \<Rightarrow> uvm outcome \<Rightarrow> ((nat \<times> nat) list \<times> uvm) option" where
  "drive B e finished 0 r = (case r of Fine s \<Rightarrow> if finished s then Some ([], s) else None | _ \<Rightarrow> None)"
| "drive B e finished (Suc k) r =
     (case r of
        Fine s \<Rightarrow>
          if finished s then Some ([], s)
          else map_option (map_prod (Cons (length (ufs s) - 1, uf_ip (hd (ufs s)))) id)
                 (drive B e finished k (op_end_ensure e (B s)))
      | _ \<Rightarrow> None)"

lemma drive_finished: "finished s \<Longrightarrow> drive B e finished k (Fine s) = Some ([], s)"
  by (cases k) simp_all

lemma matches_tail: "at_tail s s' \<Longrightarrow> matches_here s' c = matches_here s c"
  by (auto simp: at_tail_def matches_here_def split: list.splits)

lemma jumps_tail: "at_tail s s' \<Longrightarrow> jumps t (ufs s') = jumps t (ufs s)"
  by (cases "ufs s") (auto simp: at_tail_def)

lemma layout_tail: "at_tail s s' \<Longrightarrow> layout (ufs s) \<Longrightarrow> layout (ufs s')"
  by (cases "ufs s") (auto simp: at_tail_def layout_Cons above_ok_def frame_ok_def)

text \<open>Loop transfers parked below a frame index do not wait for a tail at or above it.\<close>

definition parked_below :: "nat \<Rightarrow> suspend_coord option \<Rightarrow> bool" where
  "parked_below n c \<longleftrightarrow> (case c of None \<Rightarrow> True | Some sc \<Rightarrow> sc_frame sc < n)"

lemma seq_here_below:
  assumes "\<forall>c\<in>set cs. parked_below n c" and "n < length (ufs s)"
  shows "seq_here s cs = None"
  using assms by (auto simp: seq_here_def parked_below_def matches_here_def split: list.splits option.splits)

lemma end_ensure_resumes:
  assumes "method_breaks s = mb\<lparr>mb_suspended := Some c\<rparr> # mbs" and "matches_here s c"
    and "\<forall>t\<in>set (loop_transfers s). parked_below n (lt_suspended t)" and "n < length (ufs s)"
  shows "op_end_ensure e s = continue_walk (s\<lparr>method_breaks := mb\<lparr>mb_suspended := None\<rparr> # mbs\<rparr>)"
proof -
  have "seq_here s (List.map lt_suspended (loop_transfers s)) = None"
    by (rule seq_here_below [of _ n]) (use assms(3,4) in auto)
  moreover have "seq_here s (List.map mb_suspended (method_breaks s)) = Some (sc_seq c)"
    using assms(1,2) by (simp add: seq_here_def)
  ultimately show ?thesis using assms(1) by (simp add: op_end_ensure_def continue_method_break_def)
qed

lemma drive_walk:
  assumes B: "\<And>s. at_tail s (B s)"
  shows "layout (ufs s) \<Longrightarrow> ufs s = pre @ g # rest \<Longrightarrow> \<not> uf_class_body g \<Longrightarrow>
    method_breaks s = mb # mbs \<Longrightarrow> mb_target mb = length rest \<Longrightarrow>
    \<forall>t\<in>set (loop_transfers s). parked_below (length rest) (lt_suspended t) \<Longrightarrow>
    length (jumps (length rest) (ufs s)) \<le> fuel \<Longrightarrow>
    \<exists>s'. drive B e (\<lambda>s. length (method_breaks s) \<le> length mbs) fuel (continue_walk s) = Some (jumps (length rest) (ufs s), s') \<and>
      break_landed (mb_value mb) g rest (ostack s) s' \<and> loop_transfers s' = loop_transfers s \<and> method_breaks s' = mbs"
proof (induction fuel arbitrary: s pre g mb)
  case 0
  then have j: "jumps (length rest) (ufs s) = []" by simp
  with walk_hop [OF 0(1-5)] show ?case by auto
next
  case (Suc k)
  note hop = walk_hop [OF Suc.prems(1-5)]
  show ?case
  proof (cases "jumps (length rest) (ufs s)")
    case Nil
    with hop obtain s' where "continue_walk s = Fine s'" "break_landed (mb_value mb) g rest (ostack s) s'"
      "loop_transfers s' = loop_transfers s" "method_breaks s' = mbs" by auto
    with Nil show ?thesis by (auto simp: drive_finished)
  next
    case (Cons j js)
    with hop obtain s1 pre1 g1 c where s1: "continue_walk s = Fine s1" "ufs s1 = pre1 @ g1 # rest" "layout (ufs s1)"
      "j = (length (ufs s1) - 1, uf_ip (hd (ufs s1)))" "js = jumps (length rest) (ufs s1)"
      "uf_base g1 = uf_base g" "uf_swap g1 = uf_swap g" "uf_class_body g1 = uf_class_body g"
      "entry_bang g1 = entry_bang g" "trunc (uf_base g) (ostack s1) = trunc (uf_base g) (ostack s)"
      "loop_transfers s1 = loop_transfers s" "method_breaks s1 = mb\<lparr>mb_suspended := Some c\<rparr> # mbs"
      "matches_here s1 c"
      by auto
    define s2 where "s2 = B s1"
    have s2: "at_tail s1 s2" using B by (simp add: s2_def)
    define s3 where "s3 = s2\<lparr>method_breaks := mb\<lparr>mb_suspended := None\<rparr> # mbs\<rparr>"
    have t2: "ostack s2 = ostack s1" "loop_transfers s2 = loop_transfers s1" "method_breaks s2 = method_breaks s1"
      using s2 by (simp_all add: at_tail_def)
    obtain pre2 g2 where u2: "ufs s2 = pre2 @ g2 # rest" "uf_base g2 = uf_base g1" "uf_swap g2 = uf_swap g1"
      "uf_class_body g2 = uf_class_body g1" "entry_bang g2 = entry_bang g1"
    proof (cases pre1)
      case Nil
      then show thesis using that [of "[]"] s2 s1(2) by (auto simp: at_tail_def entry_bang_def)
    next
      case (Cons a as)
      then show thesis using that s2 s1(2) by (fastforce simp: at_tail_def)
    qed
    have ee: "op_end_ensure e s2 = continue_walk s3"
      unfolding s3_def
    proof (rule end_ensure_resumes [where n = "length rest" and c = c])
      show "method_breaks s2 = mb\<lparr>mb_suspended := Some c\<rparr> # mbs" using s1(12) t2 by simp
      show "matches_here s2 c" using s1(13) matches_tail [OF s2] by simp
      show "\<forall>t\<in>set (loop_transfers s2). parked_below (length rest) (lt_suspended t)" using Suc.prems(6) s1(11) t2 by simp
      show "length rest < length (ufs s2)" using u2(1) by simp
    qed
    have j3: "jumps (length rest) (ufs s3) = js" using jumps_tail [OF s2] s1(5) by (simp add: s3_def)
    have "\<exists>s'. drive B e (\<lambda>s. length (method_breaks s) \<le> length mbs) k (continue_walk s3) = Some (jumps (length rest) (ufs s3), s') \<and>
      break_landed (mb_value (mb\<lparr>mb_suspended := None\<rparr>)) g2 rest (ostack s3) s' \<and>
      loop_transfers s' = loop_transfers s3 \<and> method_breaks s' = mbs"
    proof (rule Suc.IH)
      show "layout (ufs s3)" using layout_tail [OF s2 s1(3)] by (simp add: s3_def)
      show "ufs s3 = pre2 @ g2 # rest" using u2 by (simp add: s3_def)
      show "\<not> uf_class_body g2" using Suc.prems(3) u2 s1(8) by simp
      show "method_breaks s3 = mb\<lparr>mb_suspended := None\<rparr> # mbs" by (simp add: s3_def)
      show "mb_target (mb\<lparr>mb_suspended := None\<rparr>) = length rest" using Suc.prems(5) by simp
      show "\<forall>t\<in>set (loop_transfers s3). parked_below (length rest) (lt_suspended t)"
        using Suc.prems(6) s1(11) t2 by (simp add: s3_def)
      show "length (jumps (length rest) (ufs s3)) \<le> k" using Suc.prems(7) Cons j3 by simp
    qed
    then obtain s' where s': "drive B e (\<lambda>s. length (method_breaks s) \<le> length mbs) k (continue_walk s3) = Some (js, s')"
      "break_landed (mb_value mb) g2 rest (ostack s3) s'" "loop_transfers s' = loop_transfers s3" "method_breaks s' = mbs"
      using j3 by auto
    have "break_landed (mb_value mb) g rest (ostack s) s'"
      using s'(2) u2 s1(6,7,9,10) t2(1) by (simp add: break_landed_def s3_def)
    then show ?thesis
      using Cons s1(1,4,11,12) s' ee t2(2) by (simp add: s2_def [symmetric] s3_def)
  qed
qed

lemma same_breaks: "method_breaks s = ms \<Longrightarrow> s\<lparr>method_breaks := ms\<rparr> = s"
  by (cases s) simp



end
