(* ===== verification/Unwind_Loops.thy ===== *)
theory Unwind_Loops
  imports Unwind_Ensure
begin

text \<open>
  \<open>break\<close> and \<open>next\<close> of a loop: the \<open>ensure\<close> bodies between the jump and the loop run, in the frame
  of the loop, before the loop is left or goes on.
\<close>

section \<open>The bodies between a jump and its loop\<close>

definition crossed :: "nat \<Rightarrow> handler list \<Rightarrow> nat list" where
  "crossed n hs = ensure_ips (take (length hs - n) hs)"

text \<open>
  The operand depths of the handlers of a frame: a handler inside another one starts higher, and the
  handlers set inside a loop start above the depth \<open>k\<close> of the loop.
\<close>

definition depths_ok :: "nat \<Rightarrow> nat \<Rightarrow> handler list \<Rightarrow> nat \<Rightarrow> bool" where
  "depths_ok n k hs m \<longleftrightarrow>
     sorted_wrt (\<lambda>h h'. hd_stack h' \<le> hd_stack h) hs \<and> (\<forall>h\<in>set hs. hd_stack h \<le> m) \<and>
     (\<forall>h\<in>set (take (length hs - n) hs). k \<le> hd_stack h)"

lemma crossed_Cons:
  "crossed n (h # hs) = (if n \<le> length hs then (if hd_ensure h then [hd_ip h] else []) @ crossed n hs else [])"
  by (simp add: crossed_def ensure_ips_def Suc_diff_le)

lemma crossed_Nil [simp]: "crossed n [] = []"
  by (simp add: crossed_def ensure_ips_def)

lemma depths_ok_Cons:
  "depths_ok n k (h # hs) m \<Longrightarrow>
     hd_stack h \<le> m \<and> (n \<le> length hs \<longrightarrow> k \<le> hd_stack h \<and> depths_ok n k hs (hd_stack h) \<and> depths_ok n k hs m)"
  by (auto simp: depths_ok_def Suc_diff_le)

lemma trunc_Cons: "n \<le> length hs \<Longrightarrow> trunc n (h # hs) = trunc n hs"
  by (simp add: trunc_def Suc_diff_le)

lemma pop_crossed_Some:
  "pop_ensure n hs = (Some h, rest) \<Longrightarrow> depths_ok n k hs m \<Longrightarrow>
     crossed n hs = hd_ip h # crossed n rest \<and> depths_ok n k rest (hd_stack h) \<and> k \<le> hd_stack h \<and> hd_stack h \<le> m \<and>
     trunc n rest = trunc n hs"
  by (induction n hs rule: pop_ensure.induct)
    (auto simp: crossed_Cons trunc_Cons split: if_splits dest!: depths_ok_Cons)

lemma pop_crossed_none: "pop_ensure n hs = (None, rest) \<Longrightarrow> crossed n hs = [] \<and> rest = trunc n hs"
  by (induction n hs rule: pop_ensure.induct)
    (auto simp: crossed_Cons trunc_Cons crossed_Nil split: if_splits)

lemma pop_begins_eq:
  "pop_begins n bs r = (dropWhile (\<lambda>b. n < bb_loops b) bs,
     case takeWhile (\<lambda>b. n < bb_loops b) bs of [] \<Rightarrow> r | _ \<Rightarrow> Some (bb_bang (last (takeWhile (\<lambda>b. n < bb_loops b) bs))))"
  by (induction n bs r rule: pop_begins.induct) (auto split: list.splits)

section \<open>One hop of a loop transfer\<close>

text \<open>The frame of the loop after the landing, and the state.\<close>

definition loop_frame :: "loop_transfer \<Rightarrow> uframe \<Rightarrow> uframe" where
  "loop_frame t f =
     f\<lparr>uf_ip := lt_ip t, uf_aux := Some \<lparr>ax_rescues = trunc (lt_rescues t) (rescues f),
         ax_loops = trunc (lt_loops t + 1) (ax_loops (aux_of f)),
         ax_loop_stacks = trunc (lt_loops t + 1) (ax_loop_stacks (aux_of f)),
         ax_begins = dropWhile (\<lambda>b. lt_loops t < bb_loops b) (ax_begins (aux_of f))\<rparr>\<rparr>"

definition left_begins :: "loop_transfer \<Rightarrow> uframe \<Rightarrow> begin_baseline list" where
  "left_begins t f = takeWhile (\<lambda>b. lt_loops t < bb_loops b) (ax_begins (aux_of f))"

definition loop_landed :: "loop_transfer \<Rightarrow> uframe \<Rightarrow> uframe list \<Rightarrow> rvalue list \<Rightarrow> uvm \<Rightarrow> bool" where
  "loop_landed t f fs st s' \<longleftrightarrow>
     ufs s' = loop_frame t f # fs \<and>
     ostack s' = (case lt_kind t of BreakWith v \<Rightarrow> [v] | NextIter \<Rightarrow> []) @ trunc (lt_stack t) st \<and>
     (left_begins t f = [] \<or> bang s' = bb_bang (last (left_begins t f)))"

lemma set_rescues_Some: "uf_aux f = Some a \<Longrightarrow> set_rescues hs f = f\<lparr>uf_aux := Some (a\<lparr>ax_rescues := hs\<rparr>)\<rparr>"
  by (simp add: set_rescues_def)

lemma loop_hop:
  assumes f: "ufs s = f # fs" and a: "uf_aux f = Some a" and t: "loop_transfers s = t # ts"
    and d: "depths_ok (lt_rescues t) (lt_stack t) (ax_rescues a) (length (ostack s))"
  shows "case crossed (lt_rescues t) (ax_rescues a) of
      [] \<Rightarrow> \<exists>s'. continue_loop_transfer s = Fine s' \<and> loop_landed t f fs (ostack s) s' \<and>
        loop_transfers s' = ts \<and> method_breaks s' = method_breaks s
    | ip # ips \<Rightarrow> \<exists>s' c hs m. continue_loop_transfer s = Fine s' \<and>
        ufs s' = f\<lparr>uf_aux := Some (a\<lparr>ax_rescues := hs\<rparr>), uf_ip := ip\<rparr> # fs \<and> ips = crossed (lt_rescues t) hs \<and>
        depths_ok (lt_rescues t) (lt_stack t) hs (length (ostack s')) \<and>
        trunc (lt_rescues t) hs = trunc (lt_rescues t) (ax_rescues a) \<and>
        trunc (lt_stack t) (ostack s') = trunc (lt_stack t) (ostack s) \<and>
        loop_transfers s' = t\<lparr>lt_suspended := Some c\<rparr> # ts \<and> method_breaks s' = method_breaks s \<and>
        matches_here s' c \<and> sc_seq c = Suc (suspend_seq s) \<and> suspend_seq s' = Suc (suspend_seq s)"
proof -
  obtain ho hs where p: "pop_ensure (lt_rescues t) (ax_rescues a) = (ho, hs)"
    by (cases "pop_ensure (lt_rescues t) (ax_rescues a)")
  have aux: "aux_of f = a" using a by (simp add: aux_of_def)
  show ?thesis
  proof (cases ho)
    case (Some h)
    note c = pop_crossed_Some [OF p [unfolded Some] d] and pe = pop_ensure_Some [OF p [unfolded Some]]
    have le: "hd_stack h \<le> length (ostack s)" using c by simp
    define c' where "c' = \<lparr>sc_frame = length fs, sc_rescues = length hs, sc_stack = hd_stack h,
      sc_loops = length (ax_loops a), sc_seq = next_suspend_seq s\<rparr>"
    define s' where "s' = s\<lparr>ufs := f\<lparr>uf_aux := Some (a\<lparr>ax_rescues := hs\<rparr>), uf_ip := hd_ip h\<rparr> # fs,
        ostack := trunc (hd_stack h) (ostack s), suspend_seq := next_suspend_seq s,
        loop_transfers := t\<lparr>lt_suspended := Some c'\<rparr> # ts\<rparr>"
    have "continue_loop_transfer s = Fine s'"
      using f t p Some aux a
      by (simp add: continue_loop_transfer_def Let_def set_rescues_Some aux_of_def s'_def c'_def)
    moreover have "matches_here s' c'" "sc_seq c' = Suc (suspend_seq s)" "suspend_seq s' = Suc (suspend_seq s)"
      using le by (simp_all add: s'_def c'_def matches_here_def next_suspend_seq_def aux_of_def)
    moreover have "length (ostack s') = hd_stack h" "trunc (lt_stack t) (ostack s') = trunc (lt_stack t) (ostack s)"
      using le c by (simp_all add: s'_def min_absorb1)
    moreover have "ufs s' = f\<lparr>uf_aux := Some (a\<lparr>ax_rescues := hs\<rparr>), uf_ip := hd_ip h\<rparr> # fs"
      "loop_transfers s' = t\<lparr>lt_suspended := Some c'\<rparr> # ts" "method_breaks s' = method_breaks s"
      by (simp_all add: s'_def)
    ultimately show ?thesis
      unfolding conjunct1 [OF c] list.case using c
      by (intro exI [of _ s'] exI [of _ c'] exI [of _ hs]) simp
  next
    case None
    note pn = pop_crossed_none [OF p [unfolded None]]
    show ?thesis
      unfolding conjunct1 [OF pn] list.case
      using f t p None aux a pn
      by (auto simp: continue_loop_transfer_def Let_def set_rescues_Some loop_landed_def loop_frame_def left_begins_def
          pop_begins_eq aux_mut_def aux_of_def restore_bang_def split: transfer_kind.splits list.splits)
  qed
qed

section \<open>The whole transfer\<close>

definition seq_upto :: "nat \<Rightarrow> suspend_coord option \<Rightarrow> bool" where
  "seq_upto n c \<longleftrightarrow> (case c of None \<Rightarrow> True | Some sc \<Rightarrow> sc_seq sc \<le> n)"

lemma seq_upto_mono: "seq_upto m c \<Longrightarrow> m \<le> n \<Longrightarrow> seq_upto n c"
  by (auto simp: seq_upto_def split: option.splits)

lemma seq_here_upto:
  "\<forall>c\<in>set cs. seq_upto n c \<Longrightarrow> seq_here s cs = None \<or> the (seq_here s cs) \<le> n"
  by (auto simp: seq_here_def seq_upto_def split: list.splits option.splits)

lemma end_ensure_resumes_loop:
  assumes "loop_transfers s = t\<lparr>lt_suspended := Some c\<rparr> # ts" and "matches_here s c"
    and "\<forall>m\<in>set (method_breaks s). seq_upto n (mb_suspended m)" and "n < sc_seq c"
  shows "op_end_ensure e s = continue_loop_transfer s"
proof -
  have "seq_here s (List.map lt_suspended (loop_transfers s)) = Some (sc_seq c)"
    using assms(1,2) by (simp add: seq_here_def)
  moreover have "seq_here s (List.map mb_suspended (method_breaks s)) = None \<or>
      the (seq_here s (List.map mb_suspended (method_breaks s))) \<le> n"
    by (rule seq_here_upto) (use assms(3) in auto)
  ultimately show ?thesis using assms(4) by (auto simp: op_end_ensure_def)
qed

lemma loop_landed_cong:
  "loop_landed (t\<lparr>lt_suspended := c\<rparr>) (f\<lparr>uf_aux := Some (a\<lparr>ax_rescues := hs\<rparr>), uf_ip := k\<rparr>) fs st s' \<longleftrightarrow>
     loop_landed t f fs st' s'"
  if "uf_aux f = Some a" "trunc (lt_rescues t) hs = trunc (lt_rescues t) (ax_rescues a)"
    "trunc (lt_stack t) st = trunc (lt_stack t) st'"
  using that by (simp add: loop_landed_def loop_frame_def left_begins_def aux_of_def)

lemma drive_loop:
  assumes B: "\<And>s. at_tail s (B s)"
  shows "ufs s = f # fs \<Longrightarrow> uf_aux f = Some a \<Longrightarrow> loop_transfers s = t # ts \<Longrightarrow>
    depths_ok (lt_rescues t) (lt_stack t) (ax_rescues a) (length (ostack s)) \<Longrightarrow>
    \<forall>m\<in>set (method_breaks s). seq_upto (suspend_seq s) (mb_suspended m) \<Longrightarrow>
    length (crossed (lt_rescues t) (ax_rescues a)) \<le> fuel \<Longrightarrow>
    \<exists>s'. drive B e (\<lambda>s. length (loop_transfers s) \<le> length ts) fuel (continue_loop_transfer s) =
        Some (List.map (Pair (length fs)) (crossed (lt_rescues t) (ax_rescues a)), s') \<and>
      loop_landed t f fs (ostack s) s' \<and> loop_transfers s' = ts \<and> method_breaks s' = method_breaks s"
proof (induction fuel arbitrary: s f a t)
  case 0
  then have "crossed (lt_rescues t) (ax_rescues a) = []" by simp
  with loop_hop [OF 0(1-4)] show ?case by auto
next
  case (Suc n)
  note hop = loop_hop [OF Suc.prems(1-4)]
  show ?case
  proof (cases "crossed (lt_rescues t) (ax_rescues a)")
    case Nil
    with hop obtain s' where "continue_loop_transfer s = Fine s'" "loop_landed t f fs (ostack s) s'"
      "loop_transfers s' = ts" "method_breaks s' = method_breaks s" by auto
    with Nil show ?thesis by (auto simp: drive_finished)
  next
    case (Cons ip ips)
    with hop obtain s1 c hs where s1: "continue_loop_transfer s = Fine s1"
      "ufs s1 = f\<lparr>uf_aux := Some (a\<lparr>ax_rescues := hs\<rparr>), uf_ip := ip\<rparr> # fs" "ips = crossed (lt_rescues t) hs"
      "depths_ok (lt_rescues t) (lt_stack t) hs (length (ostack s1))"
      "trunc (lt_rescues t) hs = trunc (lt_rescues t) (ax_rescues a)"
      "trunc (lt_stack t) (ostack s1) = trunc (lt_stack t) (ostack s)"
      "loop_transfers s1 = t\<lparr>lt_suspended := Some c\<rparr> # ts" "method_breaks s1 = method_breaks s"
      "matches_here s1 c" "sc_seq c = Suc (suspend_seq s)" "suspend_seq s1 = Suc (suspend_seq s)"
      by auto
    define s2 where "s2 = B s1"
    have s2: "at_tail s1 s2" using B by (simp add: s2_def)
    then have t2: "ostack s2 = ostack s1" "loop_transfers s2 = loop_transfers s1" "method_breaks s2 = method_breaks s1"
      "suspend_seq s1 \<le> suspend_seq s2"
      by (simp_all add: at_tail_def)
    obtain k where u2: "ufs s2 = f\<lparr>uf_aux := Some (a\<lparr>ax_rescues := hs\<rparr>), uf_ip := k\<rparr> # fs"
      using s2 s1(2) by (auto simp: at_tail_def)
    have ee: "op_end_ensure e s2 = continue_loop_transfer s2"
      by (rule end_ensure_resumes_loop [where t = t and c = c and ts = ts and n = "suspend_seq s"])
        (use t2 s1 Suc.prems(5) matches_tail [OF s2] in simp_all)
    have "\<exists>s'. drive B e (\<lambda>s. length (loop_transfers s) \<le> length ts) n (continue_loop_transfer s2) =
        Some (List.map (Pair (length fs)) (crossed (lt_rescues t) hs), s') \<and>
      loop_landed (t\<lparr>lt_suspended := Some c\<rparr>) (f\<lparr>uf_aux := Some (a\<lparr>ax_rescues := hs\<rparr>), uf_ip := k\<rparr>) fs (ostack s2) s' \<and>
      loop_transfers s' = ts \<and> method_breaks s' = method_breaks s2"
      using Suc.IH [of s2 _ "a\<lparr>ax_rescues := hs\<rparr>" "t\<lparr>lt_suspended := Some c\<rparr>", OF u2]
        t2 s1 Suc.prems(5,6) Cons seq_upto_mono [of "suspend_seq s" _ "suspend_seq s2"]
      by simp
    then obtain s' where s': "drive B e (\<lambda>s. length (loop_transfers s) \<le> length ts) n (continue_loop_transfer s2) =
        Some (List.map (Pair (length fs)) ips, s')" "loop_landed t f fs (ostack s) s'"
      "loop_transfers s' = ts" "method_breaks s' = method_breaks s"
      using loop_landed_cong [OF Suc.prems(2) s1(5), of "ostack s2" "ostack s"] s1(3,6,8) t2 by auto
    then show ?thesis
      using Cons s1(1,2,7) ee by (simp add: s2_def [symmetric])
  qed
qed

text \<open>The transfer to a loop of the frame \<open>f\<close> and the walks that it does not abandon.\<close>

definition transfer_to :: "transfer_kind \<Rightarrow> nat \<Rightarrow> nat \<Rightarrow> nat \<Rightarrow> uframe \<Rightarrow> loop_transfer" where
  "transfer_to kind ip target depth f = \<lparr>lt_kind = kind, lt_ip = ip, lt_rescues = target,
     lt_loops = loop_depth f - 1, lt_stack = depth, lt_suspended = None\<rparr>"

definition stays :: "nat \<Rightarrow> nat \<Rightarrow> uframe \<Rightarrow> suspend_coord \<Rightarrow> bool" where
  "stays fidx target f sc \<longleftrightarrow> sc_frame sc \<noteq> fidx \<or> sc_rescues sc \<le> target \<and> sc_loops sc \<le> loop_depth f - 1"

text \<open>C13. A \<open>break\<close> or \<open>next\<close> of a loop runs the \<open>ensure\<close> bodies set inside the loop, each once, from
  the inside out, skips the rescue clauses, and then lands: started at \<open>begin_loop_transfer\<close> with the
  handler count that \<open>EnterLoop\<close> recorded and resumed by \<open>EndEnsure\<close> at the tail of each body, it ends
  in the frame of the loop, at the target, with exactly the handlers and loops that were open when
  the loop began, the operand stack of that moment (and the value on top for a \<open>break\<close>), without the
  begin baselines opened inside the loop and with \<open>$!\<close> as it was before the outermost of them. Of the
  transfers parked before, those survive that do not wait in a body the jump leaves.\<close>

theorem break_runs_loop_ensures:
  assumes "\<And>s. at_tail s (B s)" and f: "ufs s = f # fs" and l: "ax_loop_stacks (aux_of f) = depth # ds"
    and d: "depths_ok target depth (rescues f) (length (ostack s))"
    and m: "\<forall>m\<in>set (method_breaks s). seq_upto (suspend_seq s) (mb_suspended m)"
    and fuel: "length (crossed target (rescues f)) \<le> fuel"
  shows "\<exists>s'. drive B e (\<lambda>s'. length (loop_transfers s') \<le> length (loop_transfers (retain True (stays (length fs) target f) s)))
        fuel (begin_loop_transfer kind ip target s) = Some (List.map (Pair (length fs)) (crossed target (rescues f)), s') \<and>
      ufs s' = loop_frame (transfer_to kind ip target depth f) f # fs \<and>
      ostack s' = (case kind of BreakWith v \<Rightarrow> [v] | NextIter \<Rightarrow> []) @ trunc depth (ostack s) \<and>
      (left_begins (transfer_to kind ip target depth f) f = [] \<or>
         bang s' = bb_bang (last (left_begins (transfer_to kind ip target depth f) f))) \<and>
      retained True (stays (length fs) target f) s s'"
proof -
  obtain a where a: "uf_aux f = Some a"
    using l by (cases "uf_aux f") (auto simp: aux_of_def)
  let ?t = "transfer_to kind ip target depth f"
  let ?r = "retain True (stays (length fs) target f) s"
  let ?s = "(sync_signals ?r)\<lparr>loop_transfers := ?t # loop_transfers (sync_signals ?r)\<rparr>"
  have b: "begin_loop_transfer kind ip target s = continue_loop_transfer ?s"
    unfolding begin_loop_transfer_def f list.case l Let_def stays_def transfer_to_def by (rule refl)
  have "\<exists>s'. drive B e (\<lambda>s. length (loop_transfers s) \<le> length (loop_transfers ?r)) fuel (continue_loop_transfer ?s) =
      Some (List.map (Pair (length fs)) (crossed (lt_rescues ?t) (ax_rescues a)), s') \<and>
    loop_landed ?t f fs (ostack ?s) s' \<and> loop_transfers s' = loop_transfers ?r \<and> method_breaks s' = method_breaks ?s"
    by (rule drive_loop [OF assms(1)])
      (use f a d m fuel in \<open>auto simp: transfer_to_def aux_of_def retain_def\<close>)
  then show ?thesis
    unfolding b using a
    by (auto simp: loop_landed_def transfer_to_def aux_of_def retained_def retain_def)
qed

text \<open>A \<open>break\<close> with 5 out of a loop and of a \<open>begin\<close> inside it, whose \<open>ensure\<close> body is at 9.\<close>

definition looping_frame :: uframe where
  "looping_frame = (new_frame False 0)\<lparr>uf_aux := Some (no_aux\<lparr>ax_rescues := [ensure_at 9 1], ax_loops := [0],
     ax_loop_stacks := [1]\<rparr>)\<rparr>"

definition looping :: uvm where
  "looping = new_uvm\<lparr>ufs := [looping_frame], ostack := [VInt 2, VInt 1]\<rparr>"

theorem break_runs_loop_ensures_witness:
  "\<exists>s'. drive id bare_env (\<lambda>s. length (loop_transfers s) \<le> 0) 1 (begin_loop_transfer (BreakWith (VInt 5)) 40 0 looping) =
       Some ([(0, 9)], s') \<and> List.map uf_ip (ufs s') = [40] \<and> ostack s' = [VInt 5, VInt 1]"
proof -
  have tail: "at_tail s (id s)" for s
    by (cases "ufs s") (auto simp: at_tail_def intro: exI [where x = "uf_ip (hd (ufs s))"])
  have f: "ufs looping = looping_frame # []" "ostack looping = [VInt 2, VInt 1]" "method_breaks looping = []"
    by (simp_all add: looping_def new_uvm_def)
  have a: "rescues looping_frame = [ensure_at 9 1]" "ax_loop_stacks (aux_of looping_frame) = 1 # []"
    by (simp_all add: looping_frame_def aux_of_def)
  have c: "crossed 0 (rescues looping_frame) = [9]" by (simp add: a crossed_Cons) (simp add: ensure_at_def)
  have d: "depths_ok 0 1 (rescues looping_frame) (length (ostack looping))"
    by (simp add: a f depths_ok_def) (simp add: ensure_at_def)
  have m: "loop_transfers (retain True p looping) = []" for p by (simp add: retain_def looping_def new_uvm_def)
  show ?thesis
    using break_runs_loop_ensures [of id, OF tail f(1) a(2) d, of 1 bare_env "BreakWith (VInt 5)" 40] c
    by (auto simp: f m loop_frame_def transfer_to_def trunc_def simp del: drive.simps)
qed

end
