(* ===== verification/Unwind_Inv.thy ===== *)
theory Unwind_Inv
  imports Unwind_Loops
begin

text \<open>
  Steps of a program through the transfer machinery, and what holds in every state they reach: no
  parked transfer waits in a frame that is gone, and the signal mask is exact. At the end, the break
  through a native iterator, which breaks the first of the two.
\<close>

section \<open>Steps\<close>

text \<open>Everything else a program does (\<open>work\<close>): frames keep their number, transfers are not touched.\<close>

definition works :: "uvm \<Rightarrow> uvm \<Rightarrow> bool" where
  "works s s' \<longleftrightarrow>
     length (ufs s') = length (ufs s) \<and> loop_transfers s' = loop_transfers s \<and> method_breaks s' = method_breaks s \<and>
     signals s' = signals s \<and> break_signaled s' = break_signaled s \<and> method_return s' = method_return s \<and>
     suspend_seq s \<le> suspend_seq s'"

definition after :: "'a outcome \<Rightarrow> 'a option" where
  "after r = (case r of Panic \<Rightarrow> None | Fine s \<Rightarrow> Some s | Trapped t s \<Rightarrow> Some s)"

text \<open>
  The parked transfers, and when the tail of an ensure body belongs to the one parked last: bodies
  are nested, so one that was parked inside a body is gone when that body ends.
\<close>

definition coords :: "uvm \<Rightarrow> suspend_coord list" where
  "coords s = List.map_filter lt_suspended (loop_transfers s) @ List.map_filter mb_suspended (method_breaks s)"

definition at_own_tail :: "uvm \<Rightarrow> bool" where
  "at_own_tail s \<longleftrightarrow>
     (case method_breaks s of
        mb # _ \<Rightarrow> (case mb_suspended mb of
             Some c \<Rightarrow> matches_here s c \<longrightarrow> (\<forall>c'\<in>set (coords s). sc_seq c' \<le> sc_seq c)
           | None \<Rightarrow> True)
      | [] \<Rightarrow> True)"

text \<open>
  A trap that is \<open>AlreadyCaught\<close> goes on at the handler in an outer driver, so a step also leads to
  the state of a trap. \<open>drop\<close> is a native driver that truncates the frames (\<open>require\<close>, \<open>eval\<close>).
\<close>

inductive ustep :: "uenv \<Rightarrow> uvm \<Rightarrow> uvm \<Rightarrow> bool" for e where
  work: "works s s' \<Longrightarrow> ustep e s s'"
| call: "ustep e s (s\<lparr>ufs := f # ufs s\<rparr>)"
| drop_frames: "ustep e s (cancel_dead n (s\<lparr>ufs := trunc n (ufs s)\<rparr>))"
| handler: "push_handler off slot ens filt s = Fine s' \<Longrightarrow> ustep e s s'"
| pop_handler: "op_pop_handler s = Fine s' \<Longrightarrow> ustep e s s'"
| enter_begin: "op_enter_begin s = Fine s' \<Longrightarrow> ustep e s s'"
| exit_begin: "op_exit_begin s = Fine s' \<Longrightarrow> ustep e s s'"
| retry: "op_retry s = Fine s' \<Longrightarrow> ustep e s s'"
| enter_loop: "op_enter_loop s = Fine s' \<Longrightarrow> ustep e s s'"
| exit_loop: "op_exit_loop s = Fine s' \<Longrightarrow> ustep e s s'"
| break_loop: "op_break_loop off s = Fine s' \<Longrightarrow> ustep e s s'"
| next_loop: "op_next_loop off s = Fine s' \<Longrightarrow> ustep e s s'"
| break_block: "ustep e s (op_break s)"
| raise: "after (do_raise_value e unhandled v s) = Some s' \<Longrightarrow> ustep e s s'"
| primitive_error: "after (unwind_with_exception e exc s) = Some s' \<Longrightarrow> ustep e s s'"
| end_ensure: "at_own_tail s \<Longrightarrow> after (op_end_ensure e s) = Some s' \<Longrightarrow> ustep e s s'"
| return: "op_return e s = Fine (go, s') \<Longrightarrow> ustep e s s'"
| return_method: "ustep e s (op_return_method owner s)"
| yield_break: "yield_break_direct v s = Fine s' \<Longrightarrow> ustep e s s'"
| gate: "dispatch_signals e jump s = Some r \<Longrightarrow> after r = Some s' \<Longrightarrow> ustep e s s'"
| gate_until: "until_signals d s = Went r \<Longrightarrow> after r = Some s' \<Longrightarrow> ustep e s s'"

inductive reach :: "uenv \<Rightarrow> uvm \<Rightarrow> uvm \<Rightarrow> bool" for e where
  start: "reach e s s"
| step: "reach e s s1 \<Longrightarrow> ustep e s1 s2 \<Longrightarrow> reach e s s2"

section \<open>The invariant\<close>

definition break_ok :: "suspend_coord set \<Rightarrow> method_break \<Rightarrow> bool" where
  "break_ok cs m \<longleftrightarrow>
     (\<exists>c. mb_suspended m = Some c \<and> mb_target m \<le> sc_frame c \<and>
        (\<forall>c'\<in>cs. sc_seq c' < sc_seq c \<longrightarrow> sc_frame c' < mb_target m))"

definition pinv :: "uvm \<Rightarrow> bool" where
  "pinv s \<longleftrightarrow>
     (\<forall>t\<in>set (loop_transfers s). lt_suspended t \<noteq> None) \<and> distinct (List.map sc_seq (coords s)) \<and>
     (\<forall>c\<in>set (coords s). sc_frame c < length (ufs s) \<and> sc_seq c \<le> suspend_seq s) \<and>
     (\<forall>m\<in>set (method_breaks s). break_ok (set (coords s)) m)"

definition winv :: "uvm \<Rightarrow> bool" where
  "winv s \<longleftrightarrow> signals s = signal_mask s \<and> pinv s"

lemma set_coords: "set (coords s) = parked s"
  by (auto simp: coords_def parked_def map_filter_def set_eq_iff image_iff split: option.splits)

lemma map_filter_keeps: "List.map_filter f (filter (\<lambda>t. keeps b p (f t)) xs) = filter p (List.map_filter f xs)"
  by (induction xs) (auto simp: map_filter_simps keeps_def split: option.splits)

lemma coords_retained: "retained b p s s' \<Longrightarrow> coords s' = filter p (coords s)"
  by (simp add: retained_def coords_def map_filter_keeps)

lemma break_ok_mono: "break_ok cs m \<Longrightarrow> ds \<subseteq> cs \<Longrightarrow> break_ok ds m"
  by (auto simp: break_ok_def)

lemma pinv_retained:
  assumes "pinv s" and r: "retained b p s s'" and "suspend_seq s \<le> suspend_seq s'"
    and "\<And>c. c \<in> set (coords s) \<Longrightarrow> p c \<Longrightarrow> sc_frame c < length (ufs s')"
  shows "pinv s'"
proof -
  have c: "coords s' = filter p (coords s)" by (rule coords_retained [OF r])
  have "set (loop_transfers s') \<subseteq> set (loop_transfers s)" "set (method_breaks s') \<subseteq> set (method_breaks s)"
    using r by (auto simp: retained_def)
  moreover have "distinct (List.map sc_seq (coords s'))"
    using assms(1) by (simp add: c pinv_def distinct_map_filter)
  moreover have "break_ok (set (coords s')) m" if "m \<in> set (method_breaks s)" for m
    using assms(1) that by (auto simp: c pinv_def intro: break_ok_mono)
  moreover have "\<forall>c\<in>set (coords s'). sc_frame c < length (ufs s') \<and> sc_seq c \<le> suspend_seq s'"
    using assms(1,3,4) by (auto simp: c pinv_def intro: order_trans)
  ultimately show ?thesis using assms(1) unfolding pinv_def by blast
qed

lemma pinv_cong:
  assumes "pinv s" and "loop_transfers s' = loop_transfers s" and "method_breaks s' = method_breaks s"
    and "length (ufs s) \<le> length (ufs s')" and "suspend_seq s \<le> suspend_seq s'"
  shows "pinv s'"
proof (rule pinv_retained [OF assms(1) retained_same [OF assms(2,3)] assms(5)])
  show "sc_frame c < length (ufs s')" if "c \<in> set (coords s)" for c
    using assms(1,4) that unfolding pinv_def by (meson less_le_trans)
qed

lemma pinv_cancel:
  assumes "pinv s0" and "loop_transfers s = loop_transfers s0" and "method_breaks s = method_breaks s0"
    and "suspend_seq s0 \<le> suspend_seq s" and "n \<le> length (ufs s)"
  shows "pinv (cancel_dead n s)"
proof (rule pinv_retained [OF assms(1)])
  show "retained True (\<lambda>c. sc_frame c < n) s0 (cancel_dead n s)"
    using retained_cancel [of n s] by (simp add: retained_def assms(2,3))
qed (use assms(4,5) in auto)

lemma synced_cancel: "signals s = signal_mask s \<Longrightarrow> signals (cancel_dead n s) = signal_mask (cancel_dead n s)"
  by (auto simp: cancel_dead_def sync_signals_def signal_mask_def)

lemma winv_sync: "pinv s \<Longrightarrow> winv (sync_signals s)"
  using pinv_cong [of s "sync_signals s"] by (simp add: winv_def) (simp add: sync_signals_def signal_mask_def)

lemma winv_cong:
  assumes "winv s" and "loop_transfers s' = loop_transfers s" and "method_breaks s' = method_breaks s"
    and "length (ufs s) \<le> length (ufs s')" and "suspend_seq s \<le> suspend_seq s'"
    and "signals s' = signals s" and "break_signaled s' = break_signaled s" and "method_return s' = method_return s"
  shows "winv s'"
  using assms pinv_cong [of s s'] signal_mask_cong [of s' s] by (simp add: winv_def)

section \<open>Exceptions keep it\<close>

lemma winv_pinv: "winv s \<Longrightarrow> pinv s"
  by (simp add: winv_def)

lemma winv_cancel:
  assumes "winv s0" and "loop_transfers s = loop_transfers s0" and "method_breaks s = method_breaks s0"
    and "suspend_seq s0 \<le> suspend_seq s" and "n \<le> length (ufs s)" and "signals s = signals s0"
    and "break_signaled s = break_signaled s0" and "method_return s = method_return s0"
  shows "winv (cancel_dead n s)"
  using assms(1) pinv_cancel [OF winv_pinv [OF assms(1)] assms(2-5)] synced_cancel [of s n]
    signal_mask_cong [OF assms(8,7,3)] assms(6) by (simp add: winv_def)

lemma winv_unwind_pop:
  assumes "winv s"
  shows "winv (unwind_pop f fs s)"
proof -
  have "winv (cancel_dead (length fs) (s\<lparr>ufs := fs\<rparr>))" by (rule winv_cancel [OF assms]) simp_all
  then show ?thesis by (rule winv_cong) (simp_all add: unwind_pop_def Let_def)
qed

lemma winv_retain: "pinv s \<Longrightarrow> winv (sync_signals (retain b p s))"
  by (rule winv_sync) (rule pinv_retained [OF _ retained_retain], auto simp: pinv_def)

lemma bind_exc_fields:
  "bind_exc slot exc f s = Some s' \<Longrightarrow> ufs s' = ufs s \<and> loop_transfers s' = loop_transfers s \<and>
     method_breaks s' = method_breaks s \<and> signals s' = signals s \<and> method_return s' = method_return s \<and>
     break_signaled s' = break_signaled s \<and> suspend_seq s' = suspend_seq s"
  by (auto simp: bind_exc_def Let_def split: frame_locals.splits option.splits if_splits)

lemma winv_enter_handler:
  assumes "winv s" and e: "enter_handler h exc s = Some s'"
  shows "winv s'"
proof -
  obtain f fs where f: "ufs s = f # fs" using e by (cases "ufs s") (simp_all add: enter_handler_def)
  let ?e = "escape_sweep (length fs) (rescues_len f) s"
  have w: "winv ?e" using winv_retain [OF winv_pinv [OF assms(1)]] by (simp add: escape_sweep_def)
  show ?thesis
    by (rule winv_cong [OF w])
      (use e f in \<open>auto simp: enter_handler_def Let_def split: if_splits option.splits dest!: bind_exc_fields\<close>)
qed

lemma winv_unwind_loop: "winv s \<Longrightarrow> after (unwind_loop e cls exc s) = Some s' \<Longrightarrow> winv s'"
proof (induction "length (ufs s)" arbitrary: s)
  case 0
  then show ?case by (simp add: unwind_loop.simps after_def)
next
  case (Suc n)
  obtain f fs where f: "ufs s = f # fs" using Suc.hyps(2) by (cases "ufs s") auto
  consider (panic) "pop_until (handler_matches e cls s f) (rescues f) = None"
    | (hit) h hs where "pop_until (handler_matches e cls s f) (rescues f) = Some (Some h, hs)"
    | (miss) hs where "pop_until (handler_matches e cls s f) (rescues f) = Some (None, hs)"
    by (cases "pop_until (handler_matches e cls s f) (rescues f)") (auto, metis not_Some_eq)
  then show ?case
  proof cases
    case panic
    then show ?thesis using Suc.prems(2) f by (simp add: unwind_loop.simps after_def)
  next
    case hit
    have "winv (s\<lparr>ufs := set_rescues hs f # fs\<rparr>)" by (rule winv_cong [OF Suc.prems(1)]) (simp_all add: f)
    then show ?thesis
      using Suc.prems(2) f hit winv_enter_handler
      by (auto simp: unwind_loop.simps [of e cls exc s] after_def split: option.splits)
  next
    case miss
    have w: "winv (unwind_pop f fs s)" by (rule winv_unwind_pop [OF Suc.prems(1)])
    show ?thesis
    proof (cases "fs = []")
      case True
      then have "s' = (unwind_pop f fs s)\<lparr>last_uncaught := Some exc\<rparr>"
        using Suc.prems(2) f miss by (simp add: unwind_loop.simps [of e cls exc s] after_def Let_def)
      then show ?thesis using winv_cong [OF w, of s'] by simp
    next
      case False
      then have "after (unwind_loop e cls exc (unwind_pop f fs s)) = Some s'"
        using Suc.prems(2) f miss by (simp add: unwind_loop.simps [of e cls exc s] Let_def)
      then show ?thesis using Suc.hyps(1) [OF _ w] Suc.hyps(2) f by simp
    qed
  qed
qed

lemma winv_unwind:
  assumes "pinv s" and u: "after (unwind_with_exception e exc s) = Some s'"
  shows "winv s'"
proof -
  have w: "winv (sync_signals (retain False (\<lambda>_. True) s))" by (rule winv_retain [OF assms(1)])
  show ?thesis
    using u winv_unwind_loop [OF w] by (auto simp: unwind_with_exception_def Let_def after_def split: option.splits)
qed

lemma after_boundary: "after (boundary_check r) = after r"
  by (auto simp: boundary_check_def after_def split: outcome.splits list.splits)

section \<open>Parking and walking keep it\<close>

lemma pinv_add:
  assumes "pinv s0" and "coords s0 = as @ bs" and "coords s' = as @ c # bs"
    and "sc_seq c = Suc (suspend_seq s0)" and "suspend_seq s' = Suc (suspend_seq s0)"
    and "length (ufs s') = length (ufs s0)" and "sc_frame c < length (ufs s')"
    and "\<forall>t\<in>set (loop_transfers s'). lt_suspended t \<noteq> None"
    and new: "\<And>m. m \<in> set (method_breaks s') \<Longrightarrow> m \<in> set (method_breaks s0) \<or>
      mb_suspended m = Some c \<and> mb_target m \<le> sc_frame c \<and> (\<forall>c'\<in>set (coords s0). sc_frame c' < mb_target m)"
  shows "pinv s'"
proof -
  have le: "sc_frame d < length (ufs s') \<and> sc_seq d < sc_seq c" if "d \<in> set (as @ bs)" for d
    using assms(1,2,4,6) that by (auto simp: pinv_def less_Suc_eq_le)
  then have "distinct (List.map sc_seq (coords s'))"
    using assms(1,2,3) by (fastforce simp: pinv_def)
  moreover have "break_ok (set (coords s')) m" if m: "m \<in> set (method_breaks s')" for m
    using new [OF m]
  proof
    assume "m \<in> set (method_breaks s0)"
    then obtain d where d: "mb_suspended m = Some d" "mb_target m \<le> sc_frame d"
      "\<forall>c'\<in>set (coords s0). sc_seq c' < sc_seq d \<longrightarrow> sc_frame c' < mb_target m" "d \<in> set (coords s0)"
      using assms(1) by (fastforce simp: pinv_def break_ok_def set_coords parked_def)
    then have "\<not> sc_seq c < sc_seq d" using le [of d] assms(2) by simp
    then show ?thesis using d assms(2,3) by (auto simp: break_ok_def)
  next
    assume "mb_suspended m = Some c \<and> mb_target m \<le> sc_frame c \<and> (\<forall>c'\<in>set (coords s0). sc_frame c' < mb_target m)"
    then show ?thesis using assms(2,3) by (auto simp: break_ok_def)
  qed
  moreover have "\<forall>d\<in>set (coords s'). sc_frame d < length (ufs s') \<and> sc_seq d \<le> suspend_seq s'"
    using le assms(3,4,5,7) by (auto intro: less_imp_le)
  ultimately show ?thesis using assms(8) by (simp add: pinv_def)
qed

lemma coords_simps [simp]:
  "coords (s\<lparr>loop_transfers := t # ts\<rparr>) = (case lt_suspended t of None \<Rightarrow> [] | Some c \<Rightarrow> [c]) @ coords (s\<lparr>loop_transfers := ts\<rparr>)"
  "coords (s\<lparr>method_breaks := m # ms\<rparr>) = List.map_filter lt_suspended (loop_transfers s) @
     (case mb_suspended m of None \<Rightarrow> [] | Some c \<Rightarrow> [c]) @ List.map_filter mb_suspended ms"
  "coords (s\<lparr>method_breaks := ms\<rparr>) = List.map_filter lt_suspended (loop_transfers s) @ List.map_filter mb_suspended ms"
  by (simp_all add: coords_def map_filter_simps split: option.splits)

lemma winv_loop_transfer:
  assumes w: "winv (s\<lparr>loop_transfers := ts\<rparr>)" and t: "loop_transfers s = t # ts"
    and c: "continue_loop_transfer s = Fine s'"
  shows "winv s'"
proof -
  let ?s0 = "s\<lparr>loop_transfers := ts\<rparr>"
  obtain f fs where f: "ufs s = f # fs" using c t by (cases "ufs s") (simp_all add: continue_loop_transfer_def)
  obtain ho hs where p: "pop_ensure (lt_rescues t) (rescues f) = (ho, hs)"
    by (cases "pop_ensure (lt_rescues t) (rescues f)")
  show ?thesis
  proof (cases ho)
    case (Some h)
    define d where "d = \<lparr>sc_frame = length fs, sc_rescues = length hs, sc_stack = hd_stack h,
      sc_loops = loop_depth ((set_rescues hs f)\<lparr>uf_ip := hd_ip h\<rparr>), sc_seq = next_suspend_seq s\<rparr>"
    have "s' = s\<lparr>ufs := (set_rescues hs f)\<lparr>uf_ip := hd_ip h\<rparr> # fs, ostack := trunc (hd_stack h) (ostack s),
        suspend_seq := next_suspend_seq s, loop_transfers := t\<lparr>lt_suspended := Some d\<rparr> # ts\<rparr>"
      using c t f p Some by (simp add: continue_loop_transfer_def Let_def d_def)
    then have d: "sc_frame d = length fs" "sc_seq d = Suc (suspend_seq s)"
      "loop_transfers s' = t\<lparr>lt_suspended := Some d\<rparr> # ts"
      "method_breaks s' = method_breaks s" "suspend_seq s' = Suc (suspend_seq s)" "length (ufs s') = length (ufs s)"
      "signals s' = signals s" "break_signaled s' = break_signaled s" "method_return s' = method_return s"
      by (simp_all add: d_def next_suspend_seq_def f)
    have "coords s' = [] @ d # coords ?s0" using d by (simp add: coords_def map_filter_simps)
    then have "pinv s'"
      by (rule pinv_add [OF winv_pinv [OF w] append_Nil [symmetric]])
        (use d f winv_pinv [OF w] in \<open>auto simp: pinv_def\<close>)
    then show ?thesis
      using w d signal_mask_cong [of s' ?s0] by (simp add: winv_def)
  next
    case None
    show ?thesis
      by (rule winv_cong [OF w])
        (use c t f p None in \<open>auto simp: continue_loop_transfer_def Let_def split: prod.splits transfer_kind.splits\<close>)
  qed
qed

lemma after_transfer: "after (continue_loop_transfer s) = Some s' \<Longrightarrow> continue_loop_transfer s = Fine s'"
  by (auto simp: continue_loop_transfer_def after_def Let_def split: list.splits prod.splits option.splits)

text \<open>A walk on its way: everything else that is parked waits below its target.\<close>

definition walking :: "method_break \<Rightarrow> method_break list \<Rightarrow> uvm \<Rightarrow> bool" where
  "walking mb mbs s \<longleftrightarrow>
     method_breaks s = mb # mbs \<and> mb_target mb < length (ufs s) \<and> signals s = signal_mask s \<and>
     pinv (s\<lparr>method_breaks := mbs\<rparr>) \<and> (\<forall>c\<in>set (coords (s\<lparr>method_breaks := mbs\<rparr>)). sc_frame c < mb_target mb)"

lemma walking_pop:
  assumes "walking mb mbs s" and "ufs s = f # fs" and "mb_target mb < length fs"
  shows "walking mb mbs (break_pop f fs s)"
proof -
  let ?p = "(break_pop f fs s)\<lparr>method_breaks := mbs\<rparr>"
  have keep: "loop_transfers (break_pop f fs s) = loop_transfers s" "method_breaks (break_pop f fs s) = method_breaks s"
    "signals (break_pop f fs s) = signals s" "break_signaled (break_pop f fs s) = break_signaled s"
    "method_return (break_pop f fs s) = method_return s"
    by (simp_all add: break_pop_def Let_def)
  then have co: "coords ?p = coords (s\<lparr>method_breaks := mbs\<rparr>)" by (simp add: coords_def)
  have "pinv ?p"
  proof (rule pinv_retained [of "s\<lparr>method_breaks := mbs\<rparr>"])
    show "retained True (\<lambda>_. True) (s\<lparr>method_breaks := mbs\<rparr>) ?p" by (rule retained_same) (simp_all add: keep)
    show "sc_frame c < length (ufs ?p)" if "c \<in> set (coords (s\<lparr>method_breaks := mbs\<rparr>))" for c
      using assms that unfolding walking_def by (auto dest: less_trans)
  qed (use assms in \<open>simp_all add: walking_def\<close>)
  then show ?thesis
    using assms signal_mask_cong [OF keep(5,4,2)] keep unfolding walking_def co by simp
qed

lemma winv_walk: "walking mb mbs s \<Longrightarrow> after (continue_walk s) = Some s' \<Longrightarrow> winv s'"
proof (induction "length (ufs s)" arbitrary: s)
  case 0
  then show ?case by (simp add: walking_def)
next
  case (Suc n)
  obtain f fs where f: "ufs s = f # fs" using Suc.hyps(2) by (cases "ufs s") auto
  have m: "method_breaks s = mb # mbs" "mb_target mb < length (ufs s)" using Suc.prems(1) by (simp_all add: walking_def)
  let ?s0 = "s\<lparr>method_breaks := mbs\<rparr>"
  obtain ho hs where p: "pop_ensure 0 (rescues f) = (ho, hs)" by (cases "pop_ensure 0 (rescues f)")
  consider h where "ho = Some h" | "ho = None" "length fs = mb_target mb" | "ho = None" "mb_target mb < length fs"
    using m(2) f by (cases ho) fastforce+
  then show ?case
  proof cases
    case 1
    define d where "d = \<lparr>sc_frame = length fs, sc_rescues = length hs, sc_stack = length (trunc (hd_stack h) (ostack s)),
      sc_loops = loop_depth ((set_rescues hs f)\<lparr>uf_ip := hd_ip h\<rparr>), sc_seq = next_suspend_seq s\<rparr>"
    have "s' = s\<lparr>ufs := (set_rescues hs f)\<lparr>uf_ip := hd_ip h\<rparr> # fs, ostack := trunc (hd_stack h) (ostack s),
        suspend_seq := next_suspend_seq s, method_breaks := mb\<lparr>mb_suspended := Some d\<rparr> # mbs\<rparr>"
      using Suc.prems(2) m f p 1 by (simp add: continue_walk.simps [of s] Let_def d_def after_def)
    then have d: "sc_frame d = length fs" "sc_seq d = Suc (suspend_seq s)" "loop_transfers s' = loop_transfers s"
      "method_breaks s' = mb\<lparr>mb_suspended := Some d\<rparr> # mbs" "suspend_seq s' = Suc (suspend_seq s)"
      "length (ufs s') = length (ufs s)" "signals s' = signals s" "break_signaled s' = break_signaled s"
      "method_return s' = method_return s"
      by (simp_all add: d_def next_suspend_seq_def f)
    have "pinv s'"
    proof (rule pinv_add)
      show "pinv ?s0" using Suc.prems(1) by (simp add: walking_def)
      show "coords ?s0 = List.map_filter lt_suspended (loop_transfers s) @ List.map_filter mb_suspended mbs"
        by (simp add: coords_def)
      show "coords s' = List.map_filter lt_suspended (loop_transfers s) @ d # List.map_filter mb_suspended mbs"
        using d by (simp add: coords_def map_filter_simps)
      show "\<forall>t\<in>set (loop_transfers s'). lt_suspended t \<noteq> None"
        using Suc.prems(1) d(3) by (simp add: walking_def pinv_def)
      show "b \<in> set (method_breaks ?s0) \<or> mb_suspended b = Some d \<and> mb_target b \<le> sc_frame d \<and>
          (\<forall>c'\<in>set (coords ?s0). sc_frame c' < mb_target b)" if "b \<in> set (method_breaks s')" for b
        using that d(1,4) m(2) f Suc.prems(1) by (auto simp: walking_def)
    qed (use d f in auto)
    moreover have "signal_mask s' = signal_mask s" using d m by (simp add: signal_mask_def)
    ultimately show ?thesis using Suc.prems(1) d(7) by (simp add: winv_def walking_def)
  next
    case 2
    let ?y = "sync_signals (s\<lparr>method_breaks := mbs\<rparr>)"
    have w: "winv ?y" using winv_sync Suc.prems(1) by (simp add: walking_def)
    have l: "after (break_land mb f fs ?y) = Some s'"
      using Suc.prems(2) m f p 2 by (simp add: continue_walk.simps [of s])
    have "pinv s'"
    proof (rule pinv_retained [of ?y])
      show "retained True (\<lambda>_. True) ?y s'"
        by (rule retained_same) (use l in \<open>auto simp: break_land_def Let_def after_def split: if_splits\<close>)
      have "ufs s' = fs" using l by (auto simp: break_land_def Let_def after_def split: if_splits)
      then show "sc_frame c < length (ufs s')" if "c \<in> set (coords ?y)" for c
        using that Suc.prems(1) 2(2) by (auto simp: walking_def coords_def)
    qed (use w l in \<open>auto simp: winv_def break_land_def Let_def after_def split: if_splits\<close>)
    moreover have "signals s' = signals ?y" "signal_mask s' = signal_mask ?y"
      using l by (auto simp: break_land_def Let_def after_def signal_mask_def split: if_splits)
    ultimately show ?thesis using w by (simp add: winv_def)
  next
    case 3
    have "after (continue_walk (break_pop f fs s)) = Some s'"
      using Suc.prems(2) m f p 3 by (simp add: continue_walk.simps [of s])
    then show ?thesis
      using Suc.hyps(1) [of "break_pop f fs s"] Suc.hyps(2) f walking_pop [OF Suc.prems(1) f 3(2)] by simp
  qed
qed

lemma winv_begin_break:
  assumes "pinv s" and "target < length (ufs s)" and b: "after (begin_method_break v target orig s) = Some s'"
  shows "winv s'"
proof -
  let ?r = "retain False (\<lambda>c. sc_frame c < target) s"
  let ?mb = "\<lparr>mb_value = v, mb_target = target, mb_suspended = None, mb_origin = orig\<rparr>"
  let ?s = "sync_signals (?r\<lparr>method_breaks := ?mb # method_breaks ?r\<rparr>)"
  have r: "pinv ?r"
    by (rule pinv_retained [OF assms(1) retained_retain]) (use assms(2) in auto)
  have "walking ?mb (method_breaks ?r) ?s"
  proof -
    have "coords (?s\<lparr>method_breaks := method_breaks ?r\<rparr>) = coords ?r" by (simp add: coords_def)
    moreover have "pinv (?s\<lparr>method_breaks := method_breaks ?r\<rparr>)" by (rule pinv_cong [OF r]) simp_all
    ultimately show ?thesis
      using assms(2) coords_retained [OF retained_retain, of False "\<lambda>c. sc_frame c < target" s]
      by (simp add: walking_def) (simp add: sync_signals_def signal_mask_def)
  qed
  moreover have "begin_method_break v target orig s = continue_walk ?s"
    by (simp add: begin_method_break_def continue_method_break_def Let_def same_breaks)
  ultimately show ?thesis using winv_walk b by simp
qed

section \<open>Every step keeps it\<close>

lemma winv_works: "winv s \<Longrightarrow> works s s' \<Longrightarrow> winv s'"
  by (erule winv_cong) (simp_all add: works_def)

lemma works_ops:
  "push_handler off slot ens filt s = Fine s' \<Longrightarrow> works s s'"
  "op_pop_handler s = Fine s' \<Longrightarrow> works s s'"
  "op_enter_begin s = Fine s' \<Longrightarrow> works s s'"
  "op_exit_begin s = Fine s' \<Longrightarrow> works s s'"
  "op_retry s = Fine s' \<Longrightarrow> works s s'"
  "op_enter_loop s = Fine s' \<Longrightarrow> works s s'"
  "op_exit_loop s = Fine s' \<Longrightarrow> works s s'"
  by (auto simp: works_def push_handler_def op_pop_handler_def op_enter_begin_def op_exit_begin_def op_retry_def
      op_enter_loop_def op_exit_loop_def Let_def split: list.splits if_splits)

lemma winv_drop:
  assumes "winv s"
  shows "winv (cancel_dead n (s\<lparr>ufs := trunc n (ufs s)\<rparr>))"
proof -
  let ?s = "s\<lparr>ufs := trunc n (ufs s)\<rparr>"
  have "retained True (\<lambda>c. sc_frame c < n) s (cancel_dead n ?s)"
    using retained_cancel [of n ?s] by (simp add: retained_def)
  then have "pinv (cancel_dead n ?s)"
    by (rule pinv_retained [OF winv_pinv [OF assms]]) (use assms in \<open>auto simp: winv_def pinv_def\<close>)
  moreover have "signals ?s = signal_mask ?s" using assms by (simp add: winv_def signal_mask_def)
  ultimately show ?thesis using synced_cancel by (simp add: winv_def)
qed

lemma winv_begin_loop:
  assumes "pinv s" and b: "begin_loop_transfer kind ip target s = Fine s'"
  shows "winv s'"
proof -
  obtain f fs where f: "ufs s = f # fs" using b by (cases "ufs s") (simp_all add: begin_loop_transfer_def)
  obtain depth ds where l: "ax_loop_stacks (aux_of f) = depth # ds"
    using b f by (cases "ax_loop_stacks (aux_of f)") (simp_all add: begin_loop_transfer_def)
  let ?r = "sync_signals (retain True (stays (length fs) target f) s)"
  let ?s = "?r\<lparr>loop_transfers := transfer_to kind ip target depth f # loop_transfers ?r\<rparr>"
  have w: "winv ?r" by (rule winv_retain [OF assms(1)])
  have "begin_loop_transfer kind ip target s = continue_loop_transfer ?s"
    unfolding begin_loop_transfer_def f list.case l Let_def stays_def transfer_to_def by (rule refl)
  then have c: "continue_loop_transfer ?s = Fine s'" using b by simp
  have w': "winv (?s\<lparr>loop_transfers := loop_transfers ?r\<rparr>)" by (rule winv_cong [OF w]) simp_all
  show ?thesis by (rule winv_loop_transfer [OF w' _ c]) simp
qed

lemma pinv_stack: "pinv s \<Longrightarrow> pinv (s\<lparr>ostack := vs\<rparr>)"
  by (erule pinv_cong) simp_all

lemma winv_break_loop:
  assumes "winv s" and b: "op_break_loop off s = Fine s'"
  shows "winv s'"
proof -
  obtain v vs target f where "begin_loop_transfer (BreakWith v) (jump_target f off) target (s\<lparr>ostack := vs\<rparr>) = Fine s'"
    using b by (auto simp: op_break_loop_def split: list.splits)
  then show ?thesis by (rule winv_begin_loop [OF pinv_stack [OF winv_pinv [OF assms(1)]]])
qed

lemma winv_next_loop:
  assumes "winv s" and b: "op_next_loop off s = Fine s'"
  shows "winv s'"
proof -
  obtain target f where "begin_loop_transfer NextIter (jump_target f off) target s = Fine s'"
    using b by (auto simp: op_next_loop_def split: list.splits)
  then show ?thesis by (rule winv_begin_loop [OF winv_pinv [OF assms(1)]])
qed

lemma winv_normalize:
  assumes "\<And>v s. works s (snd (ue_build_exception e v s))" and "winv s"
  shows "winv (snd (normalize_exception e v s))"
  using assms(2) winv_works [OF assms(2) assms(1)] by (auto simp: normalize_exception_def split: rvalue.splits)

lemma winv_raise:
  assumes b: "\<And>v s. works s (snd (ue_build_exception e v s))" and "winv s"
    and r: "after (boundary_check (case normalize_exception e v s of (exc, s) \<Rightarrow> unwind_with_exception e exc s)) = Some s'"
  shows "winv s'"
  using r winv_unwind [OF winv_pinv [OF winv_normalize [OF b assms(2), of v]]]
  by (auto simp: after_boundary split: prod.splits)

text \<open>A walk resumed by \<open>EndEnsure\<close>: it is the one parked last, so all others wait below its target.\<close>

lemma winv_resume:
  assumes w: "winv s" and m: "method_breaks s = mb # mbs" and c: "mb_suspended mb = Some c"
    and last: "\<forall>c'\<in>set (coords s). sc_seq c' \<le> sc_seq c" and r: "after (continue_method_break s) = Some s'"
  shows "winv s'"
proof -
  let ?mb = "mb\<lparr>mb_suspended := None\<rparr>"
  let ?s = "s\<lparr>method_breaks := ?mb # mbs\<rparr>"
  let ?a = "List.map_filter lt_suspended (loop_transfers s)" and ?b = "List.map_filter mb_suspended mbs"
  have co: "coords s = ?a @ c # ?b" using m c by (simp add: coords_def map_filter_simps)
  have ok: "mb_target mb \<le> sc_frame c" "\<forall>c'\<in>set (coords s). sc_seq c' < sc_seq c \<longrightarrow> sc_frame c' < mb_target mb"
    using winv_pinv [OF w] m c by (auto simp: pinv_def break_ok_def)
  have "sc_seq c' < sc_seq c" if "c' \<in> set (?a @ ?b)" for c'
  proof -
    have "distinct (List.map sc_seq (?a @ c # ?b))" using winv_pinv [OF w] by (simp only: pinv_def co)
    then have "sc_seq c' \<noteq> sc_seq c" using that by auto (metis imageI)+
    moreover have "sc_seq c' \<le> sc_seq c" using last that by (auto simp: co)
    ultimately show ?thesis by simp
  qed
  then have below: "\<forall>c'\<in>set (?a @ ?b). sc_frame c' < mb_target mb" using ok(2) by (simp add: co)
  have "pinv (s\<lparr>method_breaks := mbs\<rparr>)"
  proof -
    have "coords (s\<lparr>method_breaks := mbs\<rparr>) = ?a @ ?b" by (simp add: coords_def)
    then show ?thesis using winv_pinv [OF w] m unfolding pinv_def co
      by (auto intro: break_ok_mono)
  qed
  moreover have "sc_frame c < length (ufs s)" using winv_pinv [OF w] by (simp add: pinv_def co)
  moreover have "signal_mask ?s = signal_mask s" using m by (simp add: signal_mask_def)
  ultimately have "walking ?mb mbs ?s"
    using ok(1) below w by (simp add: walking_def winv_def coords_def)
  then show ?thesis using winv_walk r m by (simp add: continue_method_break_def)
qed

lemma winv_end_ensure:
  assumes b: "\<And>v s. works s (snd (ue_build_exception e v s))" and w: "winv s" and t: "at_own_tail s"
    and r: "after (op_end_ensure e s) = Some s'"
  shows "winv s'"
proof -
  let ?ls = "seq_here s (List.map lt_suspended (loop_transfers s))"
  let ?ms = "seq_here s (List.map mb_suspended (method_breaks s))"
  consider (loop) "?ls \<noteq> None" "?ms = None \<or> the ?ms < the ?ls"
    | (walk) "\<not> (?ls \<noteq> None \<and> (?ms = None \<or> the ?ms < the ?ls))" "?ms \<noteq> None"
    | (raise) "\<not> (?ls \<noteq> None \<and> (?ms = None \<or> the ?ms < the ?ls))" "?ms = None" by blast
  then show ?thesis
  proof cases
    case loop
    then obtain t ts where ts: "loop_transfers s = t # ts" by (cases "loop_transfers s") (simp_all add: seq_here_def)
    have "pinv (s\<lparr>loop_transfers := ts\<rparr>)"
      using winv_pinv [OF w] ts unfolding pinv_def coords_def
      by (auto simp: map_filter_simps intro: break_ok_mono split: option.splits)
    then have "winv (s\<lparr>loop_transfers := ts\<rparr>)" using w by (simp add: winv_def signal_mask_def)
    then show ?thesis
      using winv_loop_transfer [OF _ ts after_transfer] r loop by (auto simp: op_end_ensure_def)
  next
    case walk
    then obtain mb mbs c where m: "method_breaks s = mb # mbs" "mb_suspended mb = Some c" "matches_here s c"
      by (cases "method_breaks s") (auto simp: seq_here_def split: option.splits if_splits)
    then have "\<forall>c'\<in>set (coords s). sc_seq c' \<le> sc_seq c" using t by (simp add: at_own_tail_def)
    moreover have "op_end_ensure e s = continue_method_break s"
      unfolding op_end_ensure_def Let_def using walk by (simp only: if_False if_True not_False_eq_True simp_thms)
    ultimately show ?thesis using winv_resume [OF w m(1,2)] r by simp
  next
    case raise
    obtain v vs where v: "ostack s = v # vs"
      using r raise unfolding op_end_ensure_def Let_def by (cases "ostack s") (simp_all add: after_def)
    have w': "winv (s\<lparr>ostack := vs\<rparr>)" by (rule winv_cong [OF w]) simp_all
    have "op_end_ensure e s =
        boundary_check (case normalize_exception e v (s\<lparr>ostack := vs\<rparr>) of (exc, s) \<Rightarrow> unwind_with_exception e exc s)"
      unfolding op_end_ensure_def Let_def using raise v by (auto split: prod.splits)
    then show ?thesis using winv_raise [OF b w', of v] r by simp
  qed
qed

lemma winv_drop_break:
  assumes "winv s" and "method_breaks s = mb # mbs"
  shows "pinv (s\<lparr>method_breaks := mbs\<rparr>)"
  using winv_pinv [OF assms(1)] assms(2) unfolding pinv_def coords_def
  by (auto simp: map_filter_simps intro: break_ok_mono split: option.splits)

lemma winv_return_fast:
  assumes "winv s" and ok: "return_fast_ok s" and r: "return_fast s = Some (go, s')"
  shows "winv s'"
proof -
  have none: "method_breaks s = []" "loop_transfers s = []"
    using ok by (simp_all add: return_fast_ok_def)
  have s': "method_breaks s' = []" "loop_transfers s' = []" "signals s' = signals s"
    "break_signaled s' = break_signaled s" "method_return s' = method_return s"
    using r none by (auto simp: return_fast_def Let_def split: list.splits)
  then show ?thesis
    using assms(1) none by (simp add: winv_def pinv_def coords_def signal_mask_def map_filter_simps)
qed

lemma winv_return_kept:
  assumes "winv s" and "ufs s \<noteq> []"
  shows "winv (return_kept s)"
proof -
  obtain f fs where f: "ufs s = f # fs" using assms(2) by (cases "ufs s") auto
  have "winv (cancel_dead (length fs) (s\<lparr>ostack := settle (uf_base f) (ostack s)\<rparr>))"
    by (rule winv_cancel [OF assms(1)]) (simp_all add: f)
  then show ?thesis by (simp add: return_kept_def f)
qed

lemma winv_return_pop:
  assumes "winv s" and r: "return_pop e crossing s = Fine (go, s')"
  shows "winv s'"
proof -
  obtain f fs where f: "ufs s = f # fs" using r by (cases "ufs s") (simp_all add: return_pop_def)
  let ?c = "cancel_dead (length fs) (s\<lparr>ufs := fs\<rparr>)"
  let ?d = "if crossing \<and> break_signaled ?c \<and> method_breaks ?c = [] \<and>
      (case fs of [] \<Rightarrow> True | g # _ \<Rightarrow> \<not> uf_pending_yield g) then sync_signals (?c\<lparr>break_signaled := False\<rparr>) else ?c"
  have c: "winv ?c" by (rule winv_cancel [OF assms(1)]) simp_all
  have "pinv (?c\<lparr>break_signaled := False\<rparr>)" by (rule pinv_cong [OF winv_pinv [OF c]]) simp_all
  then have d: "winv ?d" using c winv_sync by simp
  have u: "ufs ?d = fs" by simp
  show ?thesis
    by (rule winv_cong [OF d])
      (use r f in \<open>simp_all add: return_pop_def Let_def split: if_split_asm\<close>, auto)
qed

lemma winv_return:
  assumes w: "winv s" and r: "op_return e s = Fine (go, s')"
  shows "winv s'"
proof (cases "return_fast_ok s")
  case True
  then show ?thesis using r winv_return_fast [OF w] by (auto simp: op_return_def split: option.splits)
next
  case False
  then have r: "return_slow e s = Fine (go, s')" using r by (simp add: op_return_def)
  then obtain f fs where f: "ufs s = f # fs" by (cases "ufs s") (simp_all add: return_slow_def)
  show ?thesis
  proof (cases "\<exists>h\<in>set (rescues f). hd_ensure h")
    case True
    have "begin_method_break (pop_or_nil (ostack s)) (length fs) BlockOrigin (s\<lparr>ostack := tl (ostack s)\<rparr>) = Fine s'"
      using r f True
      by (cases "begin_method_break (pop_or_nil (ostack s)) (length fs) BlockOrigin (s\<lparr>ostack := tl (ostack s)\<rparr>)")
        (simp_all add: return_slow_def)
    then have "after (begin_method_break (pop_or_nil (ostack s)) (length fs) BlockOrigin (s\<lparr>ostack := tl (ostack s)\<rparr>)) = Some s'"
      by (simp add: after_def)
    then show ?thesis
      by (rule winv_begin_break [OF pinv_stack [OF winv_pinv [OF w]], rotated]) (simp add: f)
  next
    case no: False
    consider (replay) mb mbs where "abandoned_shape s = Some ReplayReturn" "method_breaks s = mb # mbs"
      | (adopt) mb mbs where "abandoned_shape s = Some AdoptBreakValue" "method_breaks s = mb # mbs"
      | (plain) "abandoned_shape s \<noteq> Some ReplayReturn" "abandoned_shape s \<noteq> Some AdoptBreakValue"
      by (cases "method_breaks s") (auto simp: abandoned_shape_def)
    then show ?thesis
    proof cases
      case replay
      obtain c where o: "mb_origin mb = MethodReturnSignal c"
        using r f no replay by (cases "mb_origin mb") (simp_all add: return_slow_def)
      have "s' = sync_signals (s\<lparr>method_breaks := mbs, ostack := tl (ostack s),
          method_return := Some (mb_value mb), method_return_locals := Some c\<rparr>)"
        using r f no replay o by (simp add: return_slow_def)
      moreover have "pinv (s\<lparr>method_breaks := mbs, ostack := tl (ostack s),
          method_return := Some (mb_value mb), method_return_locals := Some c\<rparr>)"
        by (rule pinv_cong [OF winv_drop_break [OF w replay(2)]]) simp_all
      ultimately show ?thesis using winv_sync by simp
    next
      case adopt
      let ?y = "(sync_signals (s\<lparr>method_breaks := mbs\<rparr>))\<lparr>ostack := mb_value mb # tl (ostack s)\<rparr>"
      have y: "winv ?y"
        by (rule winv_cong [OF winv_sync [OF winv_drop_break [OF w adopt(2)]]]) simp_all
      have "(if kept_frame_ok False ?y then Fine (False, return_kept ?y) else return_pop e False ?y) = Fine (go, s')"
        using r f no adopt by (simp add: return_slow_def Let_def cong: if_cong)
      then show ?thesis
        using winv_return_kept [OF y] winv_return_pop [OF y] f by (auto split: if_splits)
    next
      case plain
      then have "(if kept_frame_ok (abandoned_shape s = Some CancelCrossing) s then Fine (False, return_kept s)
          else return_pop e (abandoned_shape s = Some CancelCrossing) s) = Fine (go, s')"
        using r f no unfolding return_slow_def
        by (cases "abandoned_shape s"; cases "the (abandoned_shape s)"; simp add: Let_def split: list.splits if_splits)
      then show ?thesis
        using winv_return_kept [OF w] winv_return_pop [OF w] f by (auto split: if_splits)
    qed
  qed
qed

lemma pinv_take_return:
  assumes "winv s" and "take_method_return s = (v, s1)"
  shows "winv s1"
proof -
  let ?s = "s\<lparr>method_return := None\<rparr>"
  let ?r = "if method_return s \<noteq> None then retain False (\<lambda>_. True) ?s else ?s"
  have p: "pinv ?s" by (rule pinv_cong [OF winv_pinv [OF assms(1)]]) simp_all
  have "pinv (retain False (\<lambda>_. True) ?s)"
    by (rule pinv_retained [OF p retained_retain]) (use p in \<open>auto simp: pinv_def\<close>)
  then have "winv (sync_signals ?r)" using p by (intro winv_sync) simp
  moreover have "s1 = (sync_signals ?r)\<lparr>method_return_locals := None\<rparr>"
    using assms(2) by (auto simp: take_method_return_def Let_def)
  ultimately show ?thesis using winv_cong [of "sync_signals ?r" s1] by simp
qed

lemma take_return_frames: "take_method_return s = (v, s1) \<Longrightarrow> ufs s1 = ufs s"
  by (auto simp: take_method_return_def Let_def)

lemma rposition_less: "rposition p fs = Some i \<Longrightarrow> i < length fs"
  by (induction fs) (auto split: if_splits)

lemma winv_owner_return:
  assumes "winv s" and "take_method_return s = (v, s1)" and "rposition p (ufs s) = Some idx"
    and "after (begin_method_break x idx orig s1) = Some s'"
  shows "winv s'"
  using winv_begin_break [OF winv_pinv [OF pinv_take_return [OF assms(1,2)]] _ assms(4)]
    take_return_frames [OF assms(2)] rposition_less [OF assms(3)] by simp

lemma no_fresh_break:
  assumes "winv s"
  shows "\<not> (case method_breaks s of mb # _ \<Rightarrow> mb_suspended mb = None \<and> q mb | [] \<Rightarrow> False)"
  using winv_pinv [OF assms] by (auto simp: pinv_def break_ok_def split: list.splits)

lemma winv_pending_yield:
  assumes "winv s" and f: "ufs s = f # fs"
    and r: "after (begin_method_break v (length fs) orig
      ((sync_signals (s\<lparr>break_signaled := False\<rparr>))\<lparr>ufs := g # fs, ostack := vs\<rparr>)) = Some s'"
  shows "winv s'"
proof (rule winv_begin_break [OF _ _ r])
  show "pinv ((sync_signals (s\<lparr>break_signaled := False\<rparr>))\<lparr>ufs := g # fs, ostack := vs\<rparr>)"
    by (rule pinv_cong [OF winv_pinv [OF assms(1)]]) (simp_all add: f)
qed simp

lemma winv_gate:
  assumes w: "winv s" and g: "dispatch_signals e jump s = Some r" and a: "after r = Some s'"
  shows "winv s'"
proof -
  note no = no_fresh_break [OF w, of "\<lambda>mb. mb_target mb < length (ufs s)"]
  obtain f fs where f: "ufs s = f # fs"
    using g no by (cases "ufs s") (simp_all add: dispatch_signals_def split: if_splits)
  consider (yield) "break_signaled s" "uf_pending_yield f"
    | (ret) v s1 where "\<not> (break_signaled s \<and> uf_pending_yield f)" "method_return s \<noteq> None" "take_method_return s = (v, s1)"
    using g no f by (cases "take_method_return s") (auto simp: dispatch_signals_def split: if_splits)
  then show ?thesis
  proof cases
    case yield
    then have "r = begin_method_break (pop_or_nil (ostack s)) (length fs) BlockOrigin
        ((sync_signals (s\<lparr>break_signaled := False\<rparr>))\<lparr>ufs := f\<lparr>uf_pending_yield := False\<rparr> # fs, ostack := tl (ostack s)\<rparr>)"
      using g no f by (simp add: dispatch_signals_def Let_def split: if_splits)
    then show ?thesis using winv_pending_yield [OF w f] a by simp
  next
    case ret
    note w1 = pinv_take_return [OF w ret(3)]
    consider c idx where "method_return_locals s = Some c" "rposition (owns_return c) (ufs s) = Some idx"
        "r = begin_method_break (the v) idx (MethodReturnSignal c) s1"
      | "r = unwind_with_exception e jump s1"
      using g no f ret take_return_frames [OF ret(3)]
      by (auto simp: dispatch_signals_def split: if_splits option.splits)
    then show ?thesis
      using winv_owner_return [OF w ret(3)] winv_unwind [OF winv_pinv [OF w1]] a by cases auto
  qed
qed

lemma winv_gate_until:
  assumes w: "winv s" and g: "until_signals d s = Went r" and a: "after r = Some s'"
  shows "winv s'"
proof (cases "method_return s")
  case None
  note no = no_fresh_break [OF w, of "\<lambda>mb. d \<le> mb_target mb \<and> mb_target mb < length (ufs s)"]
  obtain f fs where f: "ufs s = f # fs"
    using g no None by (cases "ufs s") (simp_all add: until_signals_def split: if_splits)
  have "r = begin_method_break (pop_or_nil (ostack s)) (length fs) BlockOrigin
      ((sync_signals (s\<lparr>break_signaled := False\<rparr>))\<lparr>ufs := f\<lparr>uf_pending_yield := False\<rparr> # fs, ostack := tl (ostack s)\<rparr>)"
    using g no None f by (simp add: until_signals_def Let_def split: if_splits)
  then show ?thesis using winv_pending_yield [OF w f] a by simp
next
  case (Some x)
  obtain v s1 where t: "take_method_return s = (v, s1)" by (cases "take_method_return s")
  then obtain c idx where "rposition (owns_return c) (ufs s) = Some idx"
    "r = begin_method_break (the v) idx (MethodReturnSignal c) s1"
    using g Some by (auto simp: until_signals_def split: if_splits option.splits)
  then show ?thesis using winv_owner_return [OF w t] a by simp
qed

lemma winv_yield_break:
  assumes "winv s" and y: "yield_break_direct v s = Fine s'"
  shows "winv s'"
proof -
  obtain f fs where f: "ufs s = f # fs" using y by (cases "ufs s") (simp_all add: yield_break_direct_def)
  have p: "pinv (sync_signals (s\<lparr>break_signaled := False\<rparr>))" by (rule pinv_cong [OF winv_pinv [OF assms(1)]]) simp_all
  have "after (begin_method_break v (length fs) BlockOrigin (sync_signals (s\<lparr>break_signaled := False\<rparr>))) = Some s'"
    using y f by (simp add: yield_break_direct_def after_def)
  then show ?thesis by (rule winv_begin_break [OF p, rotated]) (simp add: f)
qed

lemma winv_step:
  assumes b: "\<And>v s. works s (snd (ue_build_exception e v s))" and "winv s" and "ustep e s s'"
  shows "winv s'"
  using assms(3,2)
proof (cases rule: ustep.cases)
  case (call f)
  then show ?thesis using winv_cong [OF assms(2), of s'] by simp
next
  case break_block
  have "pinv (s\<lparr>break_signaled := True\<rparr>)" by (rule pinv_cong [OF winv_pinv [OF assms(2)]]) simp_all
  then show ?thesis using winv_sync break_block by (simp add: op_break_def)
next
  case (return_method owner)
  let ?s = "s\<lparr>method_return := Some (pop_or_nil (ostack s)), ostack := tl (ostack s)\<rparr>"
  have "pinv ?s" by (rule pinv_cong [OF winv_pinv [OF assms(2)]]) simp_all
  then have "winv (sync_signals ?s)" by (rule winv_sync)
  then show ?thesis by (rule winv_cong) (simp_all add: return_method op_return_method_def)
next
  case (raise unhandled v)
  define x where "x = (if v = VNil then (if bang s \<noteq> VNil then bang s else unhandled) else v)"
  have "after (boundary_check (case normalize_exception e x s of (exc, s) \<Rightarrow> unwind_with_exception e exc s)) = Some s'"
    using raise unfolding do_raise_value_def Let_def x_def [symmetric] by (cases "normalize_exception e x s") simp
  then show ?thesis by (rule winv_raise [OF b assms(2)])
next
  case end_ensure
  then show ?thesis by (rule winv_end_ensure [OF b assms(2)])
qed (use assms(2) in \<open>auto intro: winv_works works_ops winv_drop winv_break_loop winv_next_loop
      winv_return winv_yield_break winv_gate winv_gate_until winv_unwind [OF winv_pinv]\<close>)

lemma winv_reach:
  assumes "\<And>v s. works s (snd (ue_build_exception e v s))" and "winv s0" and "reach e s0 s"
  shows "winv s"
  using assms(3,2) by (induction rule: reach.induct) (auto intro: winv_step [OF assms(1)])



end
