(* ===== verification/Unwind_Through.thy ===== *)
theory Unwind_Through
  imports Unwind_Inv
begin

text \<open>
  A \<open>break\<close> out of a block that a method yields to from inside a native iterator
  (\<open>do_yield\<close>, the case in which the yielding frame is not the frame that was given the block).
\<close>

section \<open>The iterator's block runs on\<close>

text \<open>C16. The break does not stop the block of the native iterator that yielded: when the method that
  was given the block lies below the iterator's \<open>dispatch_until\<close>, the gate of that loop asks for
  nothing after \<open>do_yield\<close> has put the break on the list, so the next instruction of the iterator's
  block is executed, with the value of the break as the value of \<open>yield\<close>.\<close>

theorem break_through_iterator_runs_on:
  assumes "method_return s = None" and "target < until" and "ufs s = f # fs" and "\<not> uf_pending_yield f"
    and "signals s = signal_mask s" and "\<forall>m\<in>set (method_breaks s). mb_suspended m \<noteq> None"
  shows "until_signals until (yield_break_through v target s) = Idle \<and>
    break_signaled (yield_break_through v target s) = break_signaled s \<and>
    ufs (yield_break_through v target s) = ufs s \<and> ostack (yield_break_through v target s) = v # ostack s"
proof -
  have "(case method_breaks s of [] \<Rightarrow> True | mb # _ \<Rightarrow> mb_suspended mb \<noteq> None)"
    using assms(6) by (cases "method_breaks s") auto
  then show ?thesis
    using assms by (simp add: yield_break_through_def until_signals_def Let_def)
qed

definition iterating :: uvm where
  "iterating = sync_signals (new_uvm\<lparr>ufs := [new_frame True 0, new_frame False 0, new_frame False 0], break_signaled := True\<rparr>)"

theorem break_through_iterator_runs_on_witness:
  "until_signals 2 (yield_break_through (VInt 5) 1 iterating) = Idle \<and> method_breaks (yield_break_through (VInt 5) 1 iterating) \<noteq> []"
proof -
  have "until_signals 2 (yield_break_through (VInt 5) 1 iterating) = Idle"
    using break_through_iterator_runs_on [of iterating 1 2 "new_frame True 0" "[new_frame False 0, new_frame False 0]" "VInt 5"]
    by (simp add: iterating_def new_uvm_def new_frame_def) (simp add: sync_signals_def signal_mask_def)
  then show ?thesis by (simp add: yield_break_through_def iterating_def Let_def new_uvm_def)
qed

section \<open>A parked break of a loop outlives its frame\<close>

text \<open>
  The run: \<open>def each; while true; begin; break; ensure; 1.times { yield }; end; end; end\<close>, called as the
  second element of an array with a block that breaks with 5, and then a method whose body raises 7
  inside a \<open>begin\<close> with an \<open>ensure\<close>. The loop jumps to address 120 when it is left; the ensure body of
  the second method is at 30.
\<close>

fun steps :: "(uvm \<Rightarrow> uvm outcome) list \<Rightarrow> uvm outcome \<Rightarrow> uvm outcome" where
  "steps [] r = r"
| "steps (f # fs) r = (case r of Fine s \<Rightarrow> steps fs (f s) | _ \<Rightarrow> r)"

definition enter :: "bool \<Rightarrow> nat \<Rightarrow> uvm \<Rightarrow> uvm outcome" where
  "enter block base s = Fine (s\<lparr>ufs := new_frame block base # ufs s\<rparr>)"

definition push :: "rvalue \<Rightarrow> uvm \<Rightarrow> uvm outcome" where
  "push v s = Fine (s\<lparr>ostack := v # ostack s\<rparr>)"

definition leave :: "uvm \<Rightarrow> uvm outcome" where
  "leave s = outcome_map snd (op_return bare_env s)"

definition in_iterator_block :: "uvm outcome" where
  "in_iterator_block =
     steps [enter False 0, push (VInt 1), enter False 1, op_enter_loop, op_push_ensure 10, push VNil, op_break_loop 120,
       enter True 1] (Fine new_uvm)"

definition after_each :: "uvm outcome" where
  "after_each =
     steps [enter True 1, push (VInt 5), \<lambda>s. Fine (op_break s), leave,
       \<lambda>s. Fine (yield_break_through (pop_or_nil (ostack s)) 1 (s\<lparr>ostack := tl (ostack s)\<rparr>)), leave,
       \<lambda>s. case block_result s of (StepBreak r, s) \<Rightarrow> push r s | _ \<Rightarrow> Panic] in_iterator_block"

definition in_second_ensure :: "uvm outcome" where
  "in_second_ensure =
     steps [\<lambda>s. case dispatch_signals bare_env VNil s of Some r \<Rightarrow> r | None \<Rightarrow> Panic, \<lambda>s. Fine (s\<lparr>ostack := []\<rparr>),
       enter False 0, op_push_ensure 30, do_raise_value bare_env VNil (VInt 7)] after_each"

lemmas run_simps = enter_def push_def leave_def new_uvm_def new_frame_def bare_env_def op_enter_loop_def
  op_push_ensure_def push_handler_def op_break_loop_def begin_loop_transfer_def continue_loop_transfer_def
  retain_def sync_signals_def signal_mask_def aux_mut_def aux_of_def set_rescues_def jump_target_def
  next_suspend_seq_def keeps_def no_aux_def Let_def trunc_def

lemma in_iterator_block_eq:
  "in_iterator_block = Fine (new_uvm\<lparr>ufs := [new_frame True 1,
       (new_frame False 1)\<lparr>uf_ip := 10, uf_aux := Some \<lparr>ax_rescues = [], ax_loops = [0], ax_loop_stacks = [1], ax_begins = []\<rparr>\<rparr>,
       new_frame False 0],
     ostack := [VInt 1], suspend_seq := 1,
     loop_transfers := [\<lparr>lt_kind = BreakWith VNil, lt_ip = 120, lt_rescues = 0, lt_loops = 0, lt_stack = 1,
       lt_suspended = Some \<lparr>sc_frame = 1, sc_rescues = 0, sc_stack = 1, sc_loops = 1, sc_seq = 1\<rparr>\<rparr>]\<rparr>)"
  by (simp add: in_iterator_block_def run_simps)

text \<open>The parked break, and the state when \<open>each\<close> has been left: it is still there.\<close>

definition parked_break :: loop_transfer where
  "parked_break = \<lparr>lt_kind = BreakWith VNil, lt_ip = 120, lt_rescues = 0, lt_loops = 0, lt_stack = 1,
     lt_suspended = Some \<lparr>sc_frame = 1, sc_rescues = 0, sc_stack = 1, sc_loops = 1, sc_seq = 1\<rparr>\<rparr>"

definition each_frame :: uframe where
  "each_frame = (new_frame False 1)\<lparr>uf_ip := 10,
     uf_aux := Some \<lparr>ax_rescues = [], ax_loops = [0], ax_loop_stacks = [1], ax_begins = []\<rparr>\<rparr>"

lemmas return_simps = op_return_def return_fast_ok_def return_slow_def abandoned_shape_def kept_frame_ok_def
  return_pop_def cancel_dead_def pop_dm_share_def restore_match_def restore_bang_def entry_bang_def bottom_def
  release_locals_def pop_class_body_def pop_or_nil_def

lemma after_each_eq:
  "after_each = Fine (new_uvm\<lparr>ufs := [each_frame, new_frame False 0], ostack := [VInt 5, VInt 1], suspend_seq := 1,
     loop_transfers := [parked_break], signals := 4,
     method_breaks := [\<lparr>mb_value = VInt 5, mb_target = 1, mb_suspended = None, mb_origin = BlockOrigin\<rparr>]\<rparr>)"
  by (simp add: after_each_def in_iterator_block_eq run_simps return_simps op_break_def yield_break_through_def
      block_result_def parked_break_def each_frame_def)

lemma in_second_ensure_eq:
  "in_second_ensure = Fine (new_uvm\<lparr>ufs := [(new_frame False 0)\<lparr>uf_ip := 30, uf_aux := Some \<lparr>ax_rescues = [], ax_loops = [],
       ax_loop_stacks = [], ax_begins = [\<lparr>bb_rescues = 0, bb_loops = 0, bb_loop_stacks = 0, bb_bang = VNil\<rparr>]\<rparr>\<rparr>, new_frame False 0],
     ostack := [VInt 7], suspend_seq := 1, loop_transfers := [parked_break], bang := VInt 7\<rparr>)"
  by (simp add: in_second_ensure_def after_each_eq run_simps return_simps dispatch_signals_def continue_method_break_def
      continue_walk.simps break_land_def do_raise_value_def normalize_exception_def unwind_with_exception_def
      exc_class_def unwind_loop.simps handler_matches_def enter_handler_def escape_sweep_def saved_bang_def at_depth_def
      handler_aux_def boundary_check_def parked_break_def each_frame_def)


end
