(* ===== verification/Errors.thy ===== *)
theory Errors
  imports Prelude "HOL-Library.Monad_Syntax"
begin

text \<open>
  Errors as the host sees them (\<open>error.rs\<close>): the closed set of error kinds with their Ruby class names
  and messages, the walk up the built-in exception hierarchy behind \<open>is_a\<close>, and the line and column of
  a byte offset, one at a time and in a batch for the syntax error message.
\<close>

section \<open>Error kinds\<close>

datatype no_method_kind = Missing | Private | Protected | SuperNoSuperclass

datatype ruby_error =
    SyntaxError string
  | NoMethodError no_method_kind string string
  | ArgumentError string
  | TypeError string
  | RuntimeError string
  | NameError string
  | KeyError string
  | IndexError string
  | FrozenError string
  | LocalJumpError string
  | ZeroDivisionError string
  | RangeError string
  | FloatDomainError string
  | ResourceExhausted string
  | SystemStackError string
  | IOError string
  | LoadError string
  | Interrupt string
  | UncaughtError string string
  | HostException string string
  | CaughtAlready

text \<open>\<open>Uncaught\<close> and \<open>HostException\<close> carry a class name and a message.\<close>

fun class_name :: "ruby_error \<Rightarrow> string" where
  "class_name (SyntaxError _) = ''SyntaxError''"
| "class_name (NoMethodError _ _ _) = ''NoMethodError''"
| "class_name (ArgumentError _) = ''ArgumentError''"
| "class_name (TypeError _) = ''TypeError''"
| "class_name (RuntimeError _) = ''RuntimeError''"
| "class_name (NameError _) = ''NameError''"
| "class_name (KeyError _) = ''KeyError''"
| "class_name (IndexError _) = ''IndexError''"
| "class_name (FrozenError _) = ''FrozenError''"
| "class_name (LocalJumpError _) = ''LocalJumpError''"
| "class_name (ZeroDivisionError _) = ''ZeroDivisionError''"
| "class_name (RangeError _) = ''RangeError''"
| "class_name (FloatDomainError _) = ''FloatDomainError''"
| "class_name (ResourceExhausted _) = ''ResourceExhausted''"
| "class_name (SystemStackError _) = ''SystemStackError''"
| "class_name (IOError _) = ''IOError''"
| "class_name (LoadError _) = ''LoadError''"
| "class_name (Interrupt _) = ''Interrupt''"
| "class_name (UncaughtError _ _) = ''Uncaught''"
| "class_name (HostException _ _) = ''HostException''"
| "class_name CaughtAlready = ''AlreadyCaught''"

definition ruby_class_name :: "ruby_error \<Rightarrow> string" where
  "ruby_class_name e =
     (case e of UncaughtError cn _ \<Rightarrow> cn | HostException cn _ \<Rightarrow> cn | _ \<Rightarrow> class_name e)"

definition is_class :: "ruby_error \<Rightarrow> string \<Rightarrow> bool" where
  "is_class e c = (case e of UncaughtError cn _ \<Rightarrow> cn = c | HostException cn _ \<Rightarrow> cn = c | _ \<Rightarrow> class_name e = c)"

fun message :: "ruby_error \<Rightarrow> string" where
  "message (SyntaxError m) = m"
| "message (NoMethodError k meth recv) =
     (case k of
        Missing \<Rightarrow> ''undefined method `'' @ meth @ [CHR 0x27] @ '' for '' @ recv
      | Private \<Rightarrow> ''private method '' @ [CHR 0x27] @ meth @ [CHR 0x27] @ '' called for '' @ recv
      | Protected \<Rightarrow> ''protected method '' @ [CHR 0x27] @ meth @ [CHR 0x27] @ '' called for '' @ recv
      | SuperNoSuperclass \<Rightarrow> ''super: no superclass method `'' @ meth @ [CHR 0x27] @ '' for '' @ recv)"
| "message (ArgumentError m) = m"
| "message (TypeError m) = m"
| "message (RuntimeError m) = m"
| "message (NameError m) = m"
| "message (KeyError m) = m"
| "message (IndexError m) = m"
| "message (FrozenError m) = m"
| "message (LocalJumpError m) = m"
| "message (ZeroDivisionError m) = m"
| "message (RangeError m) = m"
| "message (FloatDomainError m) = m"
| "message (ResourceExhausted m) = m"
| "message (SystemStackError m) = m"
| "message (IOError m) = m"
| "message (LoadError m) = m"
| "message (Interrupt m) = m"
| "message (UncaughtError _ m) = m"
| "message (HostException _ m) = m"
| "message CaughtAlready = []"

section \<open>The exception hierarchy\<close>

definition builtin_exception_parent :: "(string \<times> string) list" where
  "builtin_exception_parent =
    [(''StandardError'', ''Exception''),
     (''RuntimeError'', ''StandardError''),
     (''NoMethodError'', ''StandardError''),
     (''ArgumentError'', ''StandardError''),
     (''TypeError'', ''StandardError''),
     (''NameError'', ''StandardError''),
     (''ScriptError'', ''Exception''),
     (''NotImplementedError'', ''ScriptError''),
     (''IndexError'', ''StandardError''),
     (''KeyError'', ''IndexError''),
     (''StopIteration'', ''IndexError''),
     (''ZeroDivisionError'', ''StandardError''),
     (''RangeError'', ''StandardError''),
     (''FloatDomainError'', ''RangeError''),
     (''RegexpError'', ''StandardError''),
     (''LocalJumpError'', ''StandardError''),
     (''FrozenError'', ''RuntimeError''),
     (''ResourceExhausted'', ''Exception''),
     (''SystemStackError'', ''Exception''),
     (''IOError'', ''StandardError''),
     (''EOFError'', ''IOError''),
     (''LoadError'', ''ScriptError''),
     (''SignalException'', ''Exception''),
     (''Interrupt'', ''SignalException''),
     (''SystemExit'', ''Exception''),
     (''EncodingError'', ''StandardError''),
     (''Encoding::CompatibilityError'', ''EncodingError''),
     (''Encoding::ConverterNotFoundError'', ''EncodingError''),
     (''Encoding::InvalidByteSequenceError'', ''EncodingError''),
     (''Encoding::UndefinedConversionError'', ''EncodingError''),
     (''Math::DomainError'', ''StandardError''),
     (''FiberError'', ''StandardError''),
     (''SystemCallError'', ''StandardError''),
     (''Errno::ENOENT'', ''SystemCallError''),
     (''Errno::EACCES'', ''SystemCallError''),
     (''Errno::EEXIST'', ''SystemCallError''),
     (''Errno::ENOTDIR'', ''SystemCallError''),
     (''Errno::EISDIR'', ''SystemCallError''),
     (''Errno::EINVAL'', ''SystemCallError''),
     (''Errno::ENOSPC'', ''SystemCallError''),
     (''Errno::EPIPE'', ''SystemCallError''),
     (''Errno::ECONNREFUSED'', ''SystemCallError''),
     (''Errno::ECONNRESET'', ''SystemCallError''),
     (''Errno::EAGAIN'', ''SystemCallError''),
     (''Errno::ETIMEDOUT'', ''SystemCallError''),
     (''Errno::EINTR'', ''SystemCallError''),
     (''Errno::EBADF'', ''SystemCallError''),
     (''Errno::EIO'', ''SystemCallError''),
     (''Errno::EADDRINUSE'', ''SystemCallError''),
     (''Errno::EADDRNOTAVAIL'', ''SystemCallError''),
     (''Errno::EHOSTUNREACH'', ''SystemCallError''),
     (''Errno::ENETUNREACH'', ''SystemCallError''),
     (''Errno::EINPROGRESS'', ''SystemCallError''),
     (''Errno::ENOTCONN'', ''SystemCallError''),
     (''Errno::EMFILE'', ''SystemCallError''),
     (''Errno::ENFILE'', ''SystemCallError''),
     (''Errno::ENOMEM'', ''SystemCallError''),
     (''SecurityError'', ''Exception''),
     (''NoMemoryError'', ''Exception'')]"

text \<open>The loop of \<open>is_a\<close>: up the first row for the class, until the class asked for or a root.\<close>

partial_function (option) is_a_loop :: "string \<Rightarrow> string \<Rightarrow> bool option" where
  "is_a_loop c cur =
     (if cur = c then Some True
      else case List.find (\<lambda>r. fst r = cur) builtin_exception_parent of
             Some r \<Rightarrow> is_a_loop c (snd r)
           | None \<Rightarrow> Some False)"

declare is_a_loop.simps [code]

definition is_a :: "ruby_error \<Rightarrow> string \<Rightarrow> bool option" where
  "is_a e c = is_a_loop c (ruby_class_name e)"

text \<open>The relation the table stands for.\<close>

definition subclass_of :: "(string \<times> string) set" where
  "subclass_of = set builtin_exception_parent"

text \<open>A row's parent is not a child of that row or a later one, so the relation is well-founded.\<close>

fun roots_first :: "(string \<times> string) list \<Rightarrow> bool" where
  "roots_first [] = True"
| "roots_first (r # rs) = (list_all (\<lambda>s. fst s \<noteq> snd r) (r # rs) \<and> roots_first rs)"

lemma roots_first_wf: "roots_first rs \<Longrightarrow> wf ((set rs)\<inverse>)"
proof (induction rs)
  case (Cons r rs)
  obtain c p where r: "r = (c, p)" by (cases r)
  have "(c, p) \<notin> ((set rs)\<inverse>)\<^sup>*"
  proof
    assume "(c, p) \<in> ((set rs)\<inverse>)\<^sup>*"
    then have "(p, c) \<in> (set rs)\<^sup>*" by (simp add: rtrancl_converse)
    then show False
      by (cases rule: converse_rtranclE) (use Cons.prems r in \<open>auto simp: list_all_iff\<close>)+
  qed
  moreover have "(set (r # rs))\<inverse> = insert (p, c) ((set rs)\<inverse>)" using r by auto
  ultimately show ?case using Cons by simp
qed simp

lemma distinct_children: "distinct (List.map fst builtin_exception_parent)"
  by (simp add: builtin_exception_parent_def)

lemma table_wf: "wf (subclass_of\<inverse>)"
  unfolding subclass_of_def
  by (rule roots_first_wf) code_simp

lemma find_first: "distinct (List.map fst xs) \<Longrightarrow> List.find (\<lambda>r. fst r = c) xs = Some r \<longleftrightarrow> r \<in> set xs \<and> fst r = c"
proof (induction xs)
  case (Cons a xs)
  show ?case
  proof (cases "fst a = c")
    case True
    then have "r \<notin> set xs" if "fst r = c" using Cons.prems that by (metis distinct.simps(2) image_eqI list.set_map list.simps(9))
    with True show ?thesis by (simp del: distinct.simps) blast
  next
    case False
    with Cons show ?thesis by (simp add: eq_commute) blast
  qed
qed simp

lemma find_parent: "List.find (\<lambda>r. fst r = c) builtin_exception_parent = Some r \<longleftrightarrow> r \<in> subclass_of \<and> fst r = c"
  using find_first [OF distinct_children] by (simp add: subclass_of_def)

lemma no_parent: "List.find (\<lambda>r. fst r = c) builtin_exception_parent = None \<longleftrightarrow> (\<forall>d. (c, d) \<notin> subclass_of)"
  by (auto simp: find_None_iff subclass_of_def)

lemma one_parent: "(c, d) \<in> subclass_of \<Longrightarrow> (c, d') \<in> subclass_of \<Longrightarrow> d' = d"
  using find_parent [of c "(c, d)"] find_parent [of c "(c, d')"] by simp

lemma is_a_loop_total: "is_a_loop c cur = Some ((cur, c) \<in> subclass_of\<^sup>*)"
proof (induction cur rule: wf_induct_rule [OF table_wf])
  case (1 cur)
  show ?case
  proof (cases "List.find (\<lambda>r. fst r = cur) builtin_exception_parent")
    case None
    then have "(cur, c) \<in> subclass_of\<^sup>* \<longleftrightarrow> cur = c"
      by (auto simp: no_parent elim: converse_rtranclE)
    with None show ?thesis by (subst is_a_loop.simps) auto
  next
    case (Some r)
    then obtain d where r: "r = (cur, d)" "(cur, d) \<in> subclass_of"
      by (cases r) (auto simp: find_parent)
    have "is_a_loop c d = Some ((d, c) \<in> subclass_of\<^sup>*)"
      using 1 r(2) by blast
    moreover have "(cur, c) \<in> subclass_of\<^sup>* \<longleftrightarrow> cur = c \<or> (d, c) \<in> subclass_of\<^sup>*"
      using r(2) by (auto elim: converse_rtranclE dest: one_parent intro: converse_rtrancl_into_rtrancl)
    ultimately show ?thesis using Some r by (subst is_a_loop.simps) auto
  qed
qed

text \<open>The loop of \<open>is_a\<close>, which has no bound of its own, ends for every error and every class name, the
  ones a script invents included, and answers whether the class is reached from the error's own class
  by the subclass relation of the table. In particular no cap of the host is a \<open>StandardError\<close>, so a bare
  \<open>rescue\<close> does not take it.
\<close>
theorem is_a_decides:
  "is_a e c = Some ((ruby_class_name e, c) \<in> subclass_of\<^sup>*) \<and>
   is_a (ResourceExhausted m) ''StandardError'' = Some False \<and> is_a (ResourceExhausted m) ''Exception'' = Some True \<and>
   is_a (SystemStackError m) ''StandardError'' = Some False \<and> is_a (Interrupt m) ''StandardError'' = Some False"
proof -
  have "is_a e c = Some ((ruby_class_name e, c) \<in> subclass_of\<^sup>*)"
    by (simp add: is_a_def is_a_loop_total)
  moreover have "is_a (ResourceExhausted m) ''StandardError'' = Some False \<and>
      is_a (ResourceExhausted m) ''Exception'' = Some True \<and>
      is_a (SystemStackError m) ''StandardError'' = Some False \<and> is_a (Interrupt m) ''StandardError'' = Some False"
    unfolding is_a_def ruby_class_name_def ruby_error.case class_name.simps by code_simp
  ultimately show ?thesis by blast
qed

text \<open>\<open>is\<close> is the exact match, so it implies \<open>is_a\<close>.\<close>

lemma is_class_iff: "is_class e c \<longleftrightarrow> ruby_class_name e = c"
  by (cases e) (auto simp: is_class_def ruby_class_name_def)

lemma is_implies_is_a: "is_class e c \<Longrightarrow> is_a e c = Some True"
  by (simp add: is_class_iff is_a_def is_a_loop.simps)

section \<open>Lines and columns\<close>

text \<open>
  A source text is its list of characters (code points). \<open>char_indices\<close> pairs each with the byte offset it
  starts at in UTF-8; the offset and the counters are \<open>u32\<close> and wrap.
\<close>

definition len_utf8 :: "nat \<Rightarrow> nat" where
  "len_utf8 ch = (if ch < 0x80 then 1 else if ch < 0x800 then 2 else if ch < 0x10000 then 3 else 4)"

fun char_indices :: "nat \<Rightarrow> nat list \<Rightarrow> (nat \<times> nat) list" where
  "char_indices i [] = []"
| "char_indices i (ch # chs) = (i, ch) # char_indices (i + len_utf8 ch) chs"

definition newline :: nat where
  "newline = 10"

fun advance_pos :: "nat \<Rightarrow> u32 \<times> u32 \<Rightarrow> u32 \<times> u32" where
  "advance_pos ch (line, col) = (if ch = newline then (line + 1, 1) else (line, col + 1))"

fun line_col_loop :: "u32 \<Rightarrow> (nat \<times> nat) list \<Rightarrow> u32 \<times> u32 \<Rightarrow> u32 \<times> u32" where
  "line_col_loop off [] pos = pos"
| "line_col_loop off ((i, ch) # cs) pos =
     (if off \<le> of_nat i then pos else line_col_loop off cs (advance_pos ch pos))"

definition line_col :: "nat list \<Rightarrow> u32 \<Rightarrow> u32 \<times> u32" where
  "line_col src off = line_col_loop off (char_indices 0 src) (1, 1)"

text \<open>\<open>line_with_base\<close>: in 64-bit signed arithmetic, at least 1, then cut to 32 bits.\<close>

definition line_with_base :: "u32 \<Rightarrow> 32 word \<Rightarrow> u32" where
  "line_with_base raw base = word_of_int (max (uint raw + sint base - 1) 1)"

text \<open>The batch: the offsets in ascending order over one cursor (the rest of the characters, the position).\<close>

fun skip_to :: "u32 \<Rightarrow> (nat \<times> nat) list \<Rightarrow> u32 \<times> u32 \<Rightarrow> (nat \<times> nat) list \<times> (u32 \<times> u32)" where
  "skip_to off [] pos = ([], pos)"
| "skip_to off ((i, ch) # cs) pos =
     (if off \<le> of_nat i then ((i, ch) # cs, pos) else skip_to off cs (advance_pos ch pos))"

fun resolve_loop ::
  "u32 list \<Rightarrow> nat list \<Rightarrow> (nat \<times> nat) list \<Rightarrow> u32 \<times> u32 \<Rightarrow> (u32 \<times> u32) list \<Rightarrow> (u32 \<times> u32) list" where
  "resolve_loop offs [] cs pos out = out"
| "resolve_loop offs (i # is) cs pos out =
     (case skip_to (offs ! i) cs pos of (cs', pos') \<Rightarrow> resolve_loop offs is cs' pos' (out[i := pos']))"

definition resolve_line_cols :: "nat list \<Rightarrow> u32 list \<Rightarrow> (u32 \<times> u32) list" where
  "resolve_line_cols src offs =
     resolve_loop offs (sort_key (\<lambda>i. offs ! i) [0..<length offs]) (char_indices 0 src) (1, 1)
       (replicate (length offs) (1, 1))"

text \<open>The cursor left by a smaller offset gives the same position as the start.\<close>

lemma skip_to_position: "snd (skip_to off cs pos) = line_col_loop off cs pos"
  by (induction off cs pos rule: skip_to.induct) auto

lemma skip_to_resumes:
  "lo \<le> off \<Longrightarrow> line_col_loop off (fst (skip_to lo cs pos)) (snd (skip_to lo cs pos)) = line_col_loop off cs pos"
  by (induction lo cs pos rule: skip_to.induct) auto

lemma resolve_loop_correct:
  assumes "sorted (List.map (\<lambda>i. offs ! i) is)" and "distinct is" and "\<And>i. i \<in> set is \<Longrightarrow> i < length out"
    and "\<And>i. i \<in> set is \<Longrightarrow> line_col_loop (offs ! i) cs pos = P i"
  shows "resolve_loop offs is cs pos out =
    List.map (\<lambda>i. if i \<in> set is then P i else out ! i) [0..<length out]"
  using assms
proof (induction "is" arbitrary: cs pos out)
  case Nil
  then show ?case by (simp add: map_nth)
next
  case (Cons i "is")
  obtain cs' pos' where s: "skip_to (offs ! i) cs pos = (cs', pos')" by (cases "skip_to (offs ! i) cs pos")
  have pos': "pos' = P i"
    using skip_to_position [of "offs ! i" cs pos] Cons.prems(4) [of i] s by simp
  have "line_col_loop (offs ! j) cs' pos' = P j" if "j \<in> set is" for j
  proof -
    have "offs ! i \<le> offs ! j" using Cons.prems(1) that by simp
    from skip_to_resumes [OF this, of cs pos] show ?thesis using s Cons.prems(4) [of j] that by simp
  qed
  then have "resolve_loop offs is cs' pos' (out[i := pos']) =
      List.map (\<lambda>k. if k \<in> set is then P k else out[i := pos'] ! k) [0..<length (out[i := pos'])]"
    using Cons by (intro Cons.IH) auto
  also have "\<dots> = List.map (\<lambda>k. if k \<in> set (i # is) then P k else out ! k) [0..<length out]"
    using Cons.prems(3) [of i] by (auto simp: pos' nth_list_update)
  finally show ?case by (simp add: s)
qed

lemma resolve_line_cols_eq: "resolve_line_cols src offs = List.map (line_col src) offs"
proof -
  let ?is = "sort_key (\<lambda>i. offs ! i) [0..<length offs]"
  have "sorted (List.map (\<lambda>i. offs ! i) ?is)" by (rule sorted_sort_key)
  then have "resolve_line_cols src offs = List.map
      (\<lambda>i. if i \<in> set ?is then line_col src (offs ! i) else replicate (length offs) (1, 1) ! i)
      [0..<length (replicate (length offs) (1 :: u32, 1 :: u32))]"
    unfolding resolve_line_cols_def
    by (rule resolve_loop_correct) (simp_all only: line_col_def distinct_sort distinct_upt set_sort set_upt
        length_replicate atLeastLessThan_iff)
  then have "resolve_line_cols src offs = List.map (\<lambda>i. line_col src (offs ! i)) [0..<length offs]"
    by (simp only: length_replicate set_sort set_upt atLeast0LessThan lessThan_iff cong: map_cong) simp
  also have "\<dots> = List.map (line_col src) (List.map (\<lambda>i. offs ! i) [0..<length offs])"
    by (simp only: map_map comp_def)
  finally show ?thesis by (simp only: map_nth)
qed

text \<open>
  The one forward pass over the source that resolves a batch of diagnostics gives every offset,
  in the order asked and with repetitions or offsets past the end, the line and column that the
  rescan from the start gives.
\<close>
theorem batch_positions: "resolve_line_cols src offs = List.map (line_col src) offs"
  by (rule resolve_line_cols_eq)

section \<open>The syntax error message\<close>

text \<open>The decimal of a number, as \<open>format!\<close> prints it.\<close>

fun decimal :: "nat \<Rightarrow> string" where
  "decimal n = (if n < 10 then [char_of (48 + n)] else decimal (n div 10) @ [char_of (48 + n mod 10)])"

declare decimal.simps [simp del]

definition max_shown :: nat where
  "max_shown = 10"

text \<open>A parser diagnostic: its start offset and its message. Only the first ten are kept, all are counted.\<close>

fun collect_diags :: "(nat \<times> string) list \<Rightarrow> u32 list \<times> string list \<times> nat \<Rightarrow> u32 list \<times> string list \<times> nat" where
  "collect_diags [] acc = acc"
| "collect_diags ((off, msg) # es) (offs, msgs, seen) =
     collect_diags es
       (if length offs < max_shown then (offs @ [of_nat off], msgs @ [msg], seen + 1) else (offs, msgs, seen + 1))"

definition show_diag :: "u32 \<times> u32 \<Rightarrow> string \<Rightarrow> string" where
  "show_diag pos msg = ''L'' @ decimal (unat (fst pos)) @ '':'' @ decimal (unat (snd pos)) @ '': '' @ msg"

fun render_diags :: "nat \<Rightarrow> (u32 \<times> u32) list \<Rightarrow> string list \<Rightarrow> string \<Rightarrow> string" where
  "render_diags i line_cols [] out = out"
| "render_diags i line_cols (msg # msgs) out =
     (let out = (if 0 < i then out @ ''; '' else out)
      in render_diags (Suc i) line_cols msgs (out @ show_diag (line_cols ! i) msg))"

definition format_prism_errors :: "nat list \<Rightarrow> (nat \<times> string) list \<Rightarrow> string" where
  "format_prism_errors src errors =
     (let (offsets, msgs, seen) = collect_diags errors ([], [], 0);
          line_cols = resolve_line_cols src offsets;
          out = render_diags 0 line_cols msgs []
      in if length offsets < seen
         then out @ ''; ... and '' @ decimal (seen - length offsets) @ '' more error(s)''
         else out)"

text \<open>What the message is to say: the positions of \<open>line_col\<close>, separated, and the number left out.\<close>

fun join :: "string \<Rightarrow> string list \<Rightarrow> string" where
  "join sep [] = []"
| "join sep [x] = x"
| "join sep (x # y # xs) = x @ sep @ join sep (y # xs)"

definition diag_text :: "nat list \<Rightarrow> nat \<times> string \<Rightarrow> string" where
  "diag_text src e = show_diag (line_col src (of_nat (fst e))) (snd e)"

lemma collect_diags_full:
  "length offs = max_shown \<Longrightarrow> collect_diags es (offs, msgs, n) = (offs, msgs, n + length es)"
  by (induction es arbitrary: n) auto

lemma collect_diags_eq:
  "length offs \<le> max_shown \<Longrightarrow> collect_diags es (offs, msgs, n) =
     (offs @ List.map (of_nat \<circ> fst) (take (max_shown - length offs) es),
      msgs @ List.map snd (take (max_shown - length offs) es), n + length es)"
proof (induction es arbitrary: offs msgs n)
  case (Cons e es)
  show ?case
  proof (cases "length offs < max_shown")
    case True
    then have "max_shown - length offs = Suc (max_shown - Suc (length offs))" by simp
    with True Cons show ?thesis by (cases e) simp
  next
    case False
    with Cons.prems show ?thesis by (cases e) (simp add: collect_diags_full)
  qed
qed simp

lemma render_diags_rest:
  "k + length msgs \<le> length pos \<Longrightarrow> 0 < k \<Longrightarrow>
   render_diags k pos msgs out = out @ concat (List.map (\<lambda>(p, m). ''; '' @ show_diag p m) (zip (drop k pos) msgs))"
proof (induction msgs arbitrary: k out)
  case (Cons m msgs)
  then have "drop k pos = pos ! k # drop (Suc k) pos" by (simp add: Cons_nth_drop_Suc)
  with Cons show ?case by (simp add: Let_def)
qed simp

lemma join_Cons: "join sep (x # xs) = x @ concat (List.map (\<lambda>y. sep @ y) xs)"
  by (induction xs arbitrary: x) auto

lemma render_diags_join:
  assumes "length pos = length msgs"
  shows "render_diags 0 pos msgs [] = join ''; '' (List.map (\<lambda>(p, m). show_diag p m) (zip pos msgs))"
proof (cases msgs)
  case (Cons m ms)
  with assms obtain p ps where "pos = p # ps" by (cases pos) auto
  with Cons assms show ?thesis
    by (simp add: Let_def render_diags_rest join_Cons comp_def) (simp add: case_prod_beta')
qed simp

text \<open>C39. However many diagnostics the parser gives, the message of a \<open>SyntaxError\<close> holds the first ten of
  them in the parser's order, each with the line and column of its own offset, separated by
  semicolons; when there are more it ends with how many are left out, and it is empty when there are
  none.
\<close>
theorem syntax_error_message:
  "format_prism_errors src errors =
     join ''; '' (List.map (diag_text src) (take 10 errors)) @
     (if length errors > 10 then ''; ... and '' @ decimal (length errors - 10) @ '' more error(s)'' else [])"
proof -
  have c: "collect_diags errors ([], [], 0) =
      (List.map (of_nat \<circ> fst) (take 10 errors), List.map snd (take 10 errors), length errors)"
    by (simp add: collect_diags_eq max_shown_def)
  have z: "zip (List.map (line_col src) (List.map (of_nat \<circ> fst) es)) (List.map snd es)
      = List.map (\<lambda>e. (line_col src (of_nat (fst e)), snd e)) es" for es :: "(nat \<times> string) list"
    by (induction es) auto
  have "render_diags 0 (resolve_line_cols src (List.map (of_nat \<circ> fst) (take 10 errors))) (List.map snd (take 10 errors)) []
      = join ''; '' (List.map (diag_text src) (take 10 errors))"
    unfolding resolve_line_cols_eq
    by (subst render_diags_join, simp, unfold z) (simp add: diag_text_def [abs_def] comp_def)
  then show ?thesis by (auto simp: format_prism_errors_def c Let_def min_def)
qed

end
