(* ===== verification/Sandbox.thy ===== *)
theory Sandbox
  imports Errors Unwind_Ops "HOL-Library.Sublist"
begin

text \<open>
  What confines an untrusted script: the fuel and the clock of the dispatch loop, the caps on the heap and on
  the stacks, and the gate in front of the file system (\<open>vm/gc.rs\<close>, \<open>vm/step.rs\<close>, \<open>vm/raise.rs\<close>,
  \<open>lib.rs\<close>). The clock, the working directory and the printing of a path in a message belong to the
  system and are arguments.
\<close>

section \<open>Limits\<close>

record limits =
  fuel :: "u64 option"
  fuel_budget :: "u64 option"
  op_counter :: u32
  deadline_at :: "nat option"
  max_live :: "nat option"
  max_frames :: "nat option"
  max_dispatch_depth :: "nat option"
  current_fiber_id :: "nat option"
  max_fiber_frame_depth :: "nat option"
  fiber_yield_pending :: bool
  allow_filesystem_io :: bool
  allowed_paths :: "string list option"

definition unlimited :: limits where
  "unlimited = \<lparr>fuel = None, fuel_budget = None, op_counter = 0, deadline_at = None, max_live = None,
     max_frames = None, max_dispatch_depth = None, current_fiber_id = None, max_fiber_frame_depth = None,
     fiber_yield_pending = False, allow_filesystem_io = True, allowed_paths = None\<rparr>"

text \<open>\<open>check_fuel\<close> at the clock reading \<open>now\<close>: the limits it leaves and the error it raises, if any.\<close>

definition past_deadline :: "nat \<Rightarrow> limits \<Rightarrow> ruby_error option" where
  "past_deadline now l =
     (if op_counter l AND 1023 = 0 \<and> (case deadline_at l of None \<Rightarrow> False | Some at \<Rightarrow> at \<le> now)
      then Some (ResourceExhausted ''wall-clock deadline exceeded'') else None)"

definition check_fuel_slow :: "nat \<Rightarrow> limits \<Rightarrow> limits \<times> ruby_error option" where
  "check_fuel_slow now l =
     (case fuel l of
        None \<Rightarrow> (l, past_deadline now l)
      | Some f \<Rightarrow>
          if f = 0 then (l, Some (ResourceExhausted ''out of fuel''))
          else let l = l\<lparr>fuel := Some (f - 1), op_counter := op_counter l + 1\<rparr> in (l, past_deadline now l))"

definition check_fuel :: "nat \<Rightarrow> limits \<Rightarrow> limits \<times> ruby_error option" where
  "check_fuel now l =
     (if fuel l = None
      then let l = l\<lparr>op_counter := op_counter l + 1\<rparr>
           in if op_counter l AND 1023 \<noteq> 0 \<or> deadline_at l = None then (l, None) else check_fuel_slow now l
      else check_fuel_slow now l)"

text \<open>\<open>Runtime::refill_fuel\<close> between requests, and the anchor an \<open>eval\<close> sets on entry.\<close>

definition refill_fuel :: "u64 option \<Rightarrow> limits \<Rightarrow> limits" where
  "refill_fuel per_request l =
     (let v = (if per_request \<noteq> None then per_request else fuel_budget l);
          l = l\<lparr>fuel := v\<rparr>
      in if per_request \<noteq> None then l\<lparr>fuel_budget := v\<rparr> else l)"

lemma refill_none_keeps_the_request_budget:
  "fuel (refill_fuel None (refill_fuel (Some n) l)) = Some n"
  by (simp add: refill_fuel_def Let_def)

section \<open>Caps\<close>

text \<open>\<open>check_alloc\<close>, for a number of live objects.\<close>

definition check_alloc :: "nat \<Rightarrow> limits \<Rightarrow> ruby_error option" where
  "check_alloc live l =
     (case max_live l of
        None \<Rightarrow> None
      | Some m \<Rightarrow>
          if m \<le> live
          then Some (ResourceExhausted (''heap exhausted: '' @ decimal live @ '' live objects (max '' @ decimal m @ '')''))
          else None)"

definition default_max_call_depth :: nat where
  "default_max_call_depth = 10000"

text \<open>The second constant is smaller in a build with debug assertions.\<close>

definition default_max_dispatch_depth :: "bool \<Rightarrow> nat" where
  "default_max_dispatch_depth debug = (if debug then 8 else 150)"

definition check_frames :: "bool \<Rightarrow> limits \<Rightarrow> uvm \<Rightarrow> ruby_error option" where
  "check_frames debug l s =
     (let n = length (ufs s); d = length (dispatch_depths s)
      in if default_max_call_depth \<le> n then Some (SystemStackError ''stack level too deep'')
         else if default_max_dispatch_depth debug \<le> d then Some (SystemStackError ''stack level too deep'')
         else if (case max_frames l of None \<Rightarrow> False | Some m \<Rightarrow> m \<le> n)
         then Some (ResourceExhausted (''stack level too deep ('' @ decimal n @ '' frames, max ''
                @ decimal (the (max_frames l)) @ '')''))
         else if (case max_dispatch_depth l of None \<Rightarrow> False | Some m \<Rightarrow> m \<le> d)
         then Some (ResourceExhausted (''dispatch recursion too deep ('' @ decimal d @ '' levels, max ''
                @ decimal (the (max_dispatch_depth l)) @ '')''))
         else if current_fiber_id l \<noteq> None \<and> (case max_fiber_frame_depth l of None \<Rightarrow> False | Some m \<Rightarrow> m \<le> n)
         then Some (ResourceExhausted (''fiber stack level too deep ('' @ decimal n @ '' frames, fiber max ''
                @ decimal (the (max_fiber_frame_depth l)) @ '')''))
         else None)"

section \<open>From a trap to an exception\<close>

text \<open>
  \<open>trap_to_exception\<close>: the exception object of a trap, unless the script must not see it or the class is not
  defined. The classes by name and the construction of the object (an allocation, which may collect) are
  arguments.
\<close>

definition trap_to_exception ::
  "(string \<Rightarrow> classid option) \<Rightarrow> (classid \<Rightarrow> string \<Rightarrow> uvm \<Rightarrow> rvalue \<times> uvm) \<Rightarrow> ruby_error \<Rightarrow> uvm
   \<Rightarrow> (rvalue \<times> uvm) option" where
  "trap_to_exception classes_by_name build err s =
     (case err of
        ResourceExhausted _ \<Rightarrow> None
      | UncaughtError _ _ \<Rightarrow> None
      | SyntaxError _ \<Rightarrow> None
      | _ \<Rightarrow>
          (case classes_by_name (case err of HostException cn _ \<Rightarrow> cn | _ \<Rightarrow> class_name err) of
             None \<Rightarrow> None
           | Some c \<Rightarrow> Some (build c (message err) s)))"

definition within :: "nat option \<Rightarrow> nat \<Rightarrow> bool" where
  "within cap n = (case cap of None \<Rightarrow> True | Some m \<Rightarrow> n < m)"

text \<open>C21. The stack caps, for every combination of configured caps. A frame is accepted exactly when every
  cap that applies still has room. A refusal is a \<open>SystemStackError\<close> exactly when one of the two
  built-in caps is reached, which the script can rescue when the class is defined; every other refusal
  comes from a cap of the embedder and is a \<open>ResourceExhausted\<close>, which never becomes an exception of the
  script, whatever classes it has defined.
\<close>
theorem frame_caps:
  "case check_frames debug l s of
     None \<Rightarrow> length (ufs s) < default_max_call_depth \<and>
             length (dispatch_depths s) < default_max_dispatch_depth debug \<and>
             within (max_frames l) (length (ufs s)) \<and> within (max_dispatch_depth l) (length (dispatch_depths s)) \<and>
             (current_fiber_id l = None \<or> within (max_fiber_frame_depth l) (length (ufs s)))
   | Some err \<Rightarrow>
       if default_max_call_depth \<le> length (ufs s) \<or> default_max_dispatch_depth debug \<le> length (dispatch_depths s)
       then ruby_class_name err = ''SystemStackError'' \<and>
            trap_to_exception names build err s =
              map_option (\<lambda>c. build c ''stack level too deep'' s) (names ''SystemStackError'')
       else ruby_class_name err = ''ResourceExhausted'' \<and> trap_to_exception names build err s = None \<and>
            \<not> (within (max_frames l) (length (ufs s)) \<and> within (max_dispatch_depth l) (length (dispatch_depths s)) \<and>
               (current_fiber_id l = None \<or> within (max_fiber_frame_depth l) (length (ufs s))))"
  by (auto simp: check_frames_def Let_def within_def trap_to_exception_def ruby_class_name_def
      split: option.splits if_splits)

section \<open>The dispatch loop under fuel\<close>

text \<open>
  The surroundings of the loop: those of the unwinding, the classes by name, the construction of an
  exception, the clock, and what one instruction does once its fuel is paid. An instruction may run a
  nested loop, so it gets and gives back the limits too. No interrupt is pending.
\<close>

datatype 'a op_result = OpPanic | Continue bool 'a | Raise ruby_error 'a

record loop_env =
  le_unwind :: uenv
  le_classes :: "string \<Rightarrow> classid option"
  le_build :: "classid \<Rightarrow> string \<Rightarrow> uvm \<Rightarrow> rvalue \<times> uvm"
  le_clock :: "limits \<Rightarrow> nat"
  le_exec :: "nat \<Rightarrow> nat \<Rightarrow> limits \<times> uvm \<Rightarrow> (limits \<times> uvm) op_result"

datatype loop_end = Crashed | Finished limits uvm | Failed ruby_error limits uvm

text \<open>\<open>step\<close>: the fuel first, then the instruction.\<close>

definition step_metered :: "loop_env \<Rightarrow> nat \<Rightarrow> nat \<Rightarrow> limits \<times> uvm \<Rightarrow> (limits \<times> uvm) op_result" where
  "step_metered e proto ip st =
     (case st of
        (l, s) \<Rightarrow>
          (case check_fuel (le_clock e l) l of
             (l, Some err) \<Rightarrow> Raise err (l, s)
           | (l, None) \<Rightarrow> le_exec e proto ip (l, s)))"

text \<open>What the loop makes of a trap: go on at a handler inside its frames (\<open>Inl\<close>), or end (\<open>Inr\<close>).\<close>

definition on_trap :: "loop_env \<Rightarrow> nat \<Rightarrow> ruby_error \<Rightarrow> limits \<Rightarrow> uvm \<Rightarrow> uvm + loop_end" where
  "on_trap e until err l s =
     (if err = CaughtAlready then (if until < length (ufs s) then Inl s else Inr (Failed err l s))
      else case trap_to_exception (le_classes e) (le_build e) err s of
             None \<Rightarrow> Inr (Failed err l s)
           | Some (exc, s) \<Rightarrow>
               (case unwind_with_exception (le_unwind e) exc s of
                  Panic \<Rightarrow> Inr Crashed
                | Fine s \<Rightarrow> if length (ufs s) \<le> until then Inr (Failed CaughtAlready l s) else Inl s
                | Trapped _ s \<Rightarrow> Inr (Failed (UncaughtError (ruby_class_name err) (message err)) l s)))"

text \<open>\<open>dispatch_until\<close>: the boundary is pushed, the frames above it run, and it is popped.\<close>

partial_function (option) dispatch_until_inner :: "loop_env \<Rightarrow> nat \<Rightarrow> limits \<Rightarrow> uvm \<Rightarrow> loop_end option" where
  "dispatch_until_inner e until l s =
     (if length (ufs s) \<le> until then Some (Finished l s)
      else case until_signals until s of
             Leave \<Rightarrow> Some (Finished l s)
           | Went r \<Rightarrow>
               (case r of
                  Fine s \<Rightarrow> dispatch_until_inner e until l s
                | Trapped t s \<Rightarrow> Some (Failed CaughtAlready l s)
                | Panic \<Rightarrow> Some Crashed)
           | Idle \<Rightarrow>
               if fiber_yield_pending l then Some (Finished l s)
               else (case step_metered e (uf_proto (hd (ufs s))) (uf_ip (hd (ufs s)))
                            (l, upd_top (\<lambda>f. f\<lparr>uf_ip := uf_ip f + 1\<rparr>) s) of
                       OpPanic \<Rightarrow> Some Crashed
                     | Continue goes st \<Rightarrow>
                         if goes then dispatch_until_inner e until (fst st) (snd st)
                         else Some (Finished (fst st) (snd st))
                     | Raise err st \<Rightarrow>
                         (case on_trap e until err (fst st) (snd st) of
                            Inl s \<Rightarrow> dispatch_until_inner e until (fst st) s
                          | Inr r \<Rightarrow> Some r)))"

definition leave_boundary :: "loop_end \<Rightarrow> loop_end" where
  "leave_boundary r =
     (case r of
        Crashed \<Rightarrow> Crashed
      | Finished l s \<Rightarrow> Finished l (s\<lparr>dispatch_depths := tl (dispatch_depths s)\<rparr>)
      | Failed err l s \<Rightarrow> Failed err l (s\<lparr>dispatch_depths := tl (dispatch_depths s)\<rparr>))"

definition dispatch_until :: "loop_env \<Rightarrow> nat \<Rightarrow> limits \<Rightarrow> uvm \<Rightarrow> loop_end option" where
  "dispatch_until e until l s =
     map_option leave_boundary (dispatch_until_inner e until l (s\<lparr>dispatch_depths := until # dispatch_depths s\<rparr>))"

text \<open>
  A pass of the signal gate uses up a pending signal: a return, a break mark or a transfer that is not parked.
\<close>

definition pending :: "uvm \<Rightarrow> nat" where
  "pending s =
     (if method_return s \<noteq> None then 1 else 0) + (if break_signaled s then 1 else 0) +
     length (filter (\<lambda>m. mb_suspended m = None) (method_breaks s))"

lemma break_pop_keeps:
  "method_return (break_pop f fs s) = method_return s" "break_signaled (break_pop f fs s) = break_signaled s"
  "method_breaks (break_pop f fs s) = method_breaks s"
  by (simp_all add: break_pop_def Let_def)

lemma break_land_keeps:
  "break_land mb f fs s = Fine s' \<Longrightarrow>
   method_return s' = method_return s \<and> break_signaled s' = break_signaled s \<and> method_breaks s' = method_breaks s"
  by (auto simp: break_land_def Let_def split: if_splits)

lemma break_land_no_trap: "break_land mb f fs s \<noteq> Trapped t s'"
  by (simp add: break_land_def Let_def)

lemma walk_uses_up:
  "continue_walk s = Fine s' \<Longrightarrow> method_breaks s = mb # mbs \<Longrightarrow>
   method_return s' = method_return s \<and> break_signaled s' = break_signaled s \<and>
   (method_breaks s' = mbs \<or> (\<exists>sc. method_breaks s' = mb\<lparr>mb_suspended := Some sc\<rparr> # mbs))"
proof (induction s rule: continue_walk.induct)
  case (1 s)
  from "1.prems" obtain f fs where fs: "ufs s = f # fs"
    by (subst (asm) continue_walk.simps) (auto split: list.splits)
  obtain ho hs where p: "pop_ensure 0 (rescues f) = (ho, hs)" by (cases "pop_ensure 0 (rescues f)")
  show ?case
  proof (cases ho)
    case (Some h)
    with "1.prems" fs p show ?thesis
      by (subst (asm) continue_walk.simps) (auto simp: Let_def)
  next
    case None
    show ?thesis
    proof (cases "length fs = mb_target mb")
      case True
      with "1.prems" fs p None have "break_land mb f fs (sync_signals (s\<lparr>method_breaks := mbs\<rparr>)) = Fine s'"
        by (subst (asm) continue_walk.simps) simp
      from break_land_keeps [OF this] show ?thesis by simp
    next
      case False
      with "1.prems" fs p None have "continue_walk (break_pop f fs s) = Fine s'"
        by (subst (asm) continue_walk.simps) simp
      with "1.IH" "1.prems" fs p None False show ?thesis by (simp add: break_pop_keeps)
    qed
  qed
qed

lemma continue_uses_up:
  assumes "continue_method_break s = Fine s'" and "method_breaks s = mb # mbs"
  shows "pending s' \<le> (if method_return s \<noteq> None then 1 else 0) + (if break_signaled s then 1 else 0) +
     length (filter (\<lambda>m. mb_suspended m = None) mbs)"
proof -
  have "continue_walk (s\<lparr>method_breaks := mb\<lparr>mb_suspended := None\<rparr> # mbs\<rparr>) = Fine s'"
    using assms by (simp add: continue_method_break_def)
  from walk_uses_up [OF this] show ?thesis by (auto simp: pending_def)
qed

lemma filter_suspended:
  "filter (\<lambda>m. keeps False p (mb_suspended m) \<and> mb_suspended m = None) ms = []"
  by (induction ms) (auto simp: keeps_def split: option.splits)

lemma begin_uses_up:
  assumes "begin_method_break v target orig s = Fine s'"
  shows "pending s' \<le> (if method_return s \<noteq> None then 1 else 0) + (if break_signaled s then 1 else 0)"
  using continue_uses_up [OF assms [unfolded begin_method_break_def Let_def]]
  by (simp add: retain_def filter_suspended)

lemma take_keeps:
  "method_return (snd (take_method_return s)) = None"
  "break_signaled (snd (take_method_return s)) = break_signaled s"
  by (cases "method_return s"; simp add: take_method_return_def Let_def)+

lemma signals_use_up:
  assumes "until_signals until s = Went (Fine s')"
  shows "pending s' < pending s"
proof (cases "method_return s")
  case (Some v)
  then obtain idx c where b: "begin_method_break (the (fst (take_method_return s))) idx (MethodReturnSignal c)
        (snd (take_method_return s)) = Fine s'"
    using assms by (auto simp: until_signals_def split: if_splits option.splits prod.splits)
  from begin_uses_up [OF b] have "pending s' \<le> (if break_signaled s then 1 else 0)"
    by (simp add: take_keeps)
  with Some show ?thesis by (auto simp: pending_def split: if_splits)
next
  case None
  show ?thesis
  proof (cases "case method_breaks s of
      mb # _ \<Rightarrow> mb_suspended mb = None \<and> until \<le> mb_target mb \<and> mb_target mb < length (ufs s) | [] \<Rightarrow> False")
    case True
    then obtain mb mbs where m: "method_breaks s = mb # mbs" "mb_suspended mb = None"
      by (auto split: list.splits)
    with assms None True have "continue_method_break s = Fine s'"
      by (auto simp: until_signals_def split: if_splits)
    from continue_uses_up [OF this m(1)] m None show ?thesis by (simp add: pending_def)
  next
    case False
    with assms None obtain f fs where f: "ufs s = f # fs" "break_signaled s"
      and b: "begin_method_break (pop_or_nil (ostack s)) (length fs) BlockOrigin
        ((sync_signals (s\<lparr>break_signaled := False\<rparr>))\<lparr>ufs := f\<lparr>uf_pending_yield := False\<rparr> # fs,
          ostack := tl (ostack s)\<rparr>) = Fine s'"
      by (auto simp: until_signals_def Let_def split: if_splits list.splits)
    from begin_uses_up [OF b] None f show ?thesis by (simp add: pending_def)
  qed
qed

lemma resource_traps_end: "on_trap e until err l s = Inl s' \<Longrightarrow> err \<noteq> ResourceExhausted m"
  by (auto simp: on_trap_def trap_to_exception_def)

text \<open>An instruction may spend fuel, itself or in a loop it runs, and never adds any.\<close>

definition result_limits :: "(limits \<times> uvm) op_result \<Rightarrow> limits option" where
  "result_limits r = (case r of OpPanic \<Rightarrow> None | Continue _ st \<Rightarrow> Some (fst st) | Raise _ st \<Rightarrow> Some (fst st))"

definition never_refuels :: "loop_env \<Rightarrow> bool" where
  "never_refuels e \<longleftrightarrow>
     (\<forall>proto ip l s f l'. fuel l = Some f \<longrightarrow> result_limits (le_exec e proto ip (l, s)) = Some l' \<longrightarrow>
        (\<exists>f'. fuel l' = Some f' \<and> f' \<le> f))"

lemma check_fuel_some:
  assumes "fuel l = Some f"
  shows "check_fuel now l = (l', None) \<Longrightarrow> f \<noteq> 0 \<and> fuel l' = Some (f - 1)"
    and "check_fuel now l = (l', Some err) \<Longrightarrow> \<exists>m. err = ResourceExhausted m"
  using assms by (auto simp: check_fuel_def check_fuel_slow_def past_deadline_def Let_def split: if_splits)

lemma exec_spends:
  assumes "never_refuels e" and "fuel l = Some f" and "check_fuel now l = (l1, None)"
    and "result_limits (le_exec e p ip (l1, s)) = Some l'"
  shows "\<exists>f'. fuel l' = Some f' \<and> unat f' < unat f"
proof -
  have l1: "f \<noteq> 0" "fuel l1 = Some (f - 1)" using check_fuel_some(1) [OF assms(2,3)] by auto
  then obtain f' where f': "fuel l' = Some f'" "f' \<le> f - 1"
    using assms(1,4) unfolding never_refuels_def by blast
  moreover have "unat (f - 1) < unat f"
    using l1(1) by (simp add: unat_minus_one unat_gt_0)
  ultimately show ?thesis using word_le_nat_alt [of f' "f - 1"] by fastforce
qed

lemma step_spends:
  assumes "never_refuels e" and "fuel l = Some f"
  shows "step_metered e p ip (l, s) = Continue goes st \<Longrightarrow> \<exists>f'. fuel (fst st) = Some f' \<and> unat f' < unat f"
    and "step_metered e p ip (l, s) = Raise err st \<Longrightarrow>
      (\<exists>f'. fuel (fst st) = Some f' \<and> unat f' < unat f) \<or> (\<exists>m. err = ResourceExhausted m)"
proof -
  obtain l1 res where c: "check_fuel (le_clock e l) l = (l1, res)" by (cases "check_fuel (le_clock e l) l")
  show "\<exists>f'. fuel (fst st) = Some f' \<and> unat f' < unat f"
    if "step_metered e p ip (l, s) = Continue goes st"
    using that c exec_spends [OF assms, of _ l1 p ip s "fst st"]
    by (auto simp: step_metered_def result_limits_def split: option.splits)
  show "(\<exists>f'. fuel (fst st) = Some f' \<and> unat f' < unat f) \<or> (\<exists>m. err = ResourceExhausted m)"
    if "step_metered e p ip (l, s) = Raise err st"
    using that c exec_spends [OF assms, of _ l1 p ip s "fst st"] check_fuel_some(2) [OF assms(2)]
    by (auto simp: step_metered_def result_limits_def split: option.splits)
qed

text \<open>One pass of the loop either ends, uses up a signal, or goes on with less fuel.\<close>

lemma dispatch_pass:
  assumes "never_refuels e" and "fuel l = Some f"
  shows "(\<exists>r. dispatch_until_inner e until l s = Some r) \<or>
    (\<exists>s'. pending s' < pending s \<and> dispatch_until_inner e until l s = dispatch_until_inner e until l s') \<or>
    (\<exists>l' s' f'. fuel l' = Some f' \<and> unat f' < unat f \<and>
       dispatch_until_inner e until l s = dispatch_until_inner e until l' s')"
proof -
  let ?top = "upd_top (\<lambda>f. f\<lparr>uf_ip := uf_ip f + 1\<rparr>) s"
  let ?r = "step_metered e (uf_proto (hd (ufs s))) (uf_ip (hd (ufs s))) (l, ?top)"
  note step = step_spends [OF assms, of "uf_proto (hd (ufs s))" "uf_ip (hd (ufs s))" ?top]
  consider (out) "length (ufs s) \<le> until" | (gate) "until < length (ufs s)" "until_signals until s \<noteq> Idle"
    | (yield) "until < length (ufs s)" "until_signals until s = Idle" "fiber_yield_pending l"
    | (run) "until < length (ufs s)" "until_signals until s = Idle" "\<not> fiber_yield_pending l"
    by linarith
  then show ?thesis
  proof cases
    case gate
    then show ?thesis
    proof (cases "\<exists>s'. until_signals until s = Went (Fine s')")
      case True
      then obtain s' where w: "until_signals until s = Went (Fine s')" by blast
      with gate have "dispatch_until_inner e until l s = dispatch_until_inner e until l s'"
        by (subst dispatch_until_inner.simps) simp
      with signals_use_up [OF w] show ?thesis by blast
    next
      case False
      with gate have "\<exists>r. dispatch_until_inner e until l s = Some r"
        by (subst dispatch_until_inner.simps) (auto split: gate.splits outcome.splits)
      then show ?thesis by blast
    qed
  next
    case run
    then have eq: "dispatch_until_inner e until l s =
       (case ?r of
          OpPanic \<Rightarrow> Some Crashed
        | Continue goes st \<Rightarrow>
            if goes then dispatch_until_inner e until (fst st) (snd st) else Some (Finished (fst st) (snd st))
        | Raise err st \<Rightarrow>
            (case on_trap e until err (fst st) (snd st) of
               Inl s \<Rightarrow> dispatch_until_inner e until (fst st) s | Inr r \<Rightarrow> Some r))"
      by (subst dispatch_until_inner.simps) simp
    show ?thesis
    proof (cases ?r)
      case (Continue goes st)
      with step(1) obtain f' where "fuel (fst st) = Some f'" "unat f' < unat f" by blast
      moreover from eq Continue have "dispatch_until_inner e until l s =
          (if goes then dispatch_until_inner e until (fst st) (snd st) else Some (Finished (fst st) (snd st)))"
        by simp
      ultimately show ?thesis by (cases goes) (simp_all, metis)
    next
      case (Raise err st)
      show ?thesis
      proof (cases "on_trap e until err (fst st) (snd st)")
        case (Inl s')
        with step(2) [OF Raise] resource_traps_end [OF Inl] obtain f' where "fuel (fst st) = Some f'" "unat f' < unat f"
          by blast
        moreover from eq Raise Inl
        have "dispatch_until_inner e until l s = dispatch_until_inner e until (fst st) s'" by simp
        ultimately show ?thesis by metis
      next
        case (Inr r)
        with eq Raise show ?thesis by simp
      qed
    qed (use eq in simp)
  qed (subst dispatch_until_inner.simps, simp)+
qed

lemma dispatch_inner_returns:
  assumes "never_refuels e" and "fuel l = Some f"
  shows "\<exists>r. dispatch_until_inner e until l s = Some r"
  using assms(2)
proof (induction "unat f" arbitrary: f l s rule: less_induct)
  case outer: less
  show ?case
  proof (induction "pending s" arbitrary: s rule: less_induct)
    case inner: less
    from dispatch_pass [OF assms(1) outer.prems, of until s] show ?case
      using inner.hyps outer.hyps by metis
  qed
qed

text \<open>C19. A dispatch loop that is given fuel ends, whatever the program: if no instruction adds fuel, the
  loop returns from every machine state, with signals pending, handlers that catch every exception,
  and instructions that jump backwards for ever.
\<close>
theorem fuel_ends_the_loop:
  assumes "never_refuels e" and "fuel l = Some f"
  shows "\<exists>r. dispatch_until e until l s = Some r"
  using dispatch_inner_returns [OF assms] by (auto simp: dispatch_until_def)

text \<open>A program that only jumps to itself: with two units of fuel it is stopped at the third instruction.\<close>

definition spinning :: loop_env where
  "spinning = \<lparr>le_unwind = bare_env, le_classes = (\<lambda>_. Some 0), le_build = (\<lambda>c m s. (VNil, s)),
     le_clock = (\<lambda>_. 0), le_exec = (\<lambda>p ip st. Continue True (fst st, upd_top (\<lambda>f. f\<lparr>uf_ip := ip\<rparr>) (snd st)))\<rparr>"

lemma spinning_never_refuels: "never_refuels spinning"
  by (auto simp: never_refuels_def spinning_def result_limits_def)

theorem fuel_ends_the_loop_witness:
  "\<exists>r. dispatch_until spinning 0 (unlimited\<lparr>fuel := Some 2\<rparr>) (new_uvm\<lparr>ufs := [new_frame False 0]\<rparr>) = Some r"
  by (rule fuel_ends_the_loop [OF spinning_never_refuels, of _ 2]) simp

text \<open>Out of fuel, no handler of the script is entered: the loop ends with the frames as they are.\<close>

lemma out_of_fuel_is_not_rescued:
  assumes "fuel l = Some 0" and "until < length (ufs s)" and "until_signals until s = Idle" and "\<not> fiber_yield_pending l"
  shows "dispatch_until_inner e until l s =
    Some (Failed (ResourceExhausted ''out of fuel'') l (upd_top (\<lambda>f. f\<lparr>uf_ip := uf_ip f + 1\<rparr>) s))"
  using assms by (subst dispatch_until_inner.simps)
    (simp add: step_metered_def check_fuel_def check_fuel_slow_def on_trap_def trap_to_exception_def)

section \<open>Paths\<close>

text \<open>
  A path is a string; \<open>components\<close> is the iterator of the Rust standard library on Unix: separators are
  not counted, a dot survives only at the start of a relative path.
\<close>

datatype path_component = RootDir | CurDir | ParentDir | Normal string

definition slash :: char where
  "slash = CHR 0x2F"

fun split_slash :: "string \<Rightarrow> string \<Rightarrow> string list" where
  "split_slash seg [] = [seg]"
| "split_slash seg (c # cs) = (if c = slash then seg # split_slash [] cs else split_slash (seg @ [c]) cs)"

fun component_of :: "string \<Rightarrow> path_component option" where
  "component_of seg =
     (if seg = [] \<or> seg = ''.'' then None else if seg = ''..'' then Some ParentDir else Some (Normal seg))"

definition has_root :: "string \<Rightarrow> bool" where
  "has_root p \<longleftrightarrow> (case p of [] \<Rightarrow> False | c # _ \<Rightarrow> c = slash)"

definition components :: "string \<Rightarrow> path_component list" where
  "components p =
     (let segs = split_slash [] p
      in (if has_root p then [RootDir] else if hd segs = ''.'' then [CurDir] else []) @
         List.map_filter component_of segs)"

text \<open>\<open>Path::join\<close> and \<open>Path::starts_with\<close>.\<close>

definition path_join :: "string \<Rightarrow> string \<Rightarrow> string" where
  "path_join base p =
     (if has_root p then p else if base = [] \<or> last base = slash then base @ p else base @ [slash] @ p)"

definition starts_with :: "path_component list \<Rightarrow> path_component list \<Rightarrow> bool" where
  "starts_with p pre \<longleftrightarrow> take (length pre) p = pre"

text \<open>
  \<open>PathBuf::pop\<close> and \<open>push\<close> on the components of a path buffer: the root has no parent, and pushing the root
  replaces the buffer.
\<close>

definition buf_pop :: "path_component list \<Rightarrow> path_component list" where
  "buf_pop b = (if b = [] \<or> last b = RootDir then b else butlast b)"

definition buf_push :: "path_component \<Rightarrow> path_component list \<Rightarrow> path_component list" where
  "buf_push c b = (if c = RootDir then [RootDir] else b @ [c])"

definition resolve_step :: "path_component \<Rightarrow> path_component list \<Rightarrow> path_component list" where
  "resolve_step c b = (case c of ParentDir \<Rightarrow> buf_pop b | CurDir \<Rightarrow> b | _ \<Rightarrow> buf_push c b)"

definition lexically_resolve_path :: "string \<Rightarrow> path_component list" where
  "lexically_resolve_path p = fold resolve_step (components p) []"

section \<open>The gate in front of the file system\<close>

datatype path_trap_kind = Io | Load

definition check_path_in_allowlist ::
  "(string \<Rightarrow> string) \<Rightarrow> string option \<Rightarrow> limits \<Rightarrow> string \<Rightarrow> string \<Rightarrow> path_trap_kind \<Rightarrow> ruby_error option" where
  "check_path_in_allowlist shown cwd l op path kind =
     (case allowed_paths l of
        None \<Rightarrow> None
      | Some allowed \<Rightarrow>
          let joined = (if has_root path then path
                        else case cwd of Some d \<Rightarrow> path_join d path | None \<Rightarrow> path);
              resolved = lexically_resolve_path joined
          in if \<exists>pre\<in>set allowed. starts_with resolved (components pre) then None
             else let msg = op @ '' blocked: path '' @ shown path @ '' outside Config::allowed_paths''
                  in Some (case kind of Io \<Rightarrow> IOError msg | Load \<Rightarrow> LoadError msg))"

definition blocked_msg :: "string \<Rightarrow> string" where
  "blocked_msg op = op @ '' blocked: filesystem I/O disabled by Config::allow_filesystem_io''"

definition check_filesystem_io_allowed ::
  "(string \<Rightarrow> string) \<Rightarrow> string option \<Rightarrow> limits \<Rightarrow> string \<Rightarrow> string option \<Rightarrow> ruby_error option" where
  "check_filesystem_io_allowed shown cwd l op path =
     (if \<not> allow_filesystem_io l then Some (IOError (blocked_msg op))
      else case path of None \<Rightarrow> None | Some p \<Rightarrow> check_path_in_allowlist shown cwd l op p Io)"

definition check_load_allowed ::
  "(string \<Rightarrow> string) \<Rightarrow> string option \<Rightarrow> limits \<Rightarrow> string \<Rightarrow> string option \<Rightarrow> ruby_error option" where
  "check_load_allowed shown cwd l op path =
     (if \<not> allow_filesystem_io l then Some (LoadError (blocked_msg op))
      else case path of None \<Rightarrow> None | Some p \<Rightarrow> check_path_in_allowlist shown cwd l op p Load)"

text \<open>
  Where a path leads: the names of the directories from the root, walked one component at a time. The
  parent of the root is the root.
\<close>

fun walk :: "string list \<Rightarrow> path_component list \<Rightarrow> string list" where
  "walk d [] = d"
| "walk d (RootDir # cs) = walk [] cs"
| "walk d (CurDir # cs) = walk d cs"
| "walk d (ParentDir # cs) = walk (butlast d) cs"
| "walk d (Normal n # cs) = walk (d @ [n]) cs"

definition leads_to :: "string \<Rightarrow> string \<Rightarrow> string list" where
  "leads_to cwd p = walk (walk [] (components cwd)) (components p)"

lemma walk_append: "walk d (as @ bs) = walk (walk d as) bs"
  by (induction d as rule: walk.induct) auto

lemma resolve_rooted:
  "fold resolve_step cs (RootDir # List.map Normal d) = RootDir # List.map Normal (walk d cs)"
proof (induction d cs rule: walk.induct)
  case (4 d cs)
  have "buf_pop (RootDir # List.map Normal d) = RootDir # List.map Normal (butlast d)"
    by (cases d rule: rev_cases) (auto simp: buf_pop_def butlast_append)
  with 4 show ?case by (simp add: resolve_step_def)
qed (simp_all add: resolve_step_def buf_push_def)

lemma split_slash_prefix: "split_slash seg p = (seg @ hd (split_slash [] p)) # tl (split_slash [] p)"
proof (induction p arbitrary: seg)
  case (Cons c p)
  from Cons [of "seg @ [c]"] Cons [of "[c]"] show ?case by simp
qed simp

lemma split_slash_append: "split_slash seg (p @ slash # q) = split_slash seg p @ split_slash [] q"
  by (induction p arbitrary: seg) auto

lemma components_rooted: "has_root p \<Longrightarrow> components p = RootDir # List.map_filter component_of (split_slash [] p)"
  by (simp add: components_def Let_def)

lemma walk_relative:
  assumes "\<not> has_root p"
  shows "walk d (components p) = walk d (List.map_filter component_of (split_slash [] p))"
  using assms by (simp add: components_def Let_def)

lemma join_rooted:
  assumes "has_root base" and "\<not> has_root p"
  shows "components (path_join base p) =
    RootDir # List.map_filter component_of (split_slash [] base) @ List.map_filter component_of (split_slash [] p)"
proof -
  have root: "has_root (path_join base p)"
    using assms by (auto simp: path_join_def has_root_def split: list.splits)
  have "List.map_filter component_of (split_slash [] (path_join base p)) =
    List.map_filter component_of (split_slash [] base) @ List.map_filter component_of (split_slash [] p)"
  proof (cases "last base = slash")
    case True
    moreover have "base \<noteq> []" using assms(1) by (auto simp: has_root_def)
    ultimately obtain b where b: "base = b @ [slash]" by (metis append_butlast_last_id)
    have "path_join base p = b @ slash # p" using assms True b by (simp add: path_join_def)
    with b show ?thesis by (simp add: split_slash_append List.map_filter_def)
  next
    case False
    moreover have "base \<noteq> []" using assms(1) by (auto simp: has_root_def)
    ultimately have "path_join base p = base @ slash # p" using assms(2) by (simp add: path_join_def)
    then show ?thesis by (simp add: split_slash_append List.map_filter_def)
  qed
  with root show ?thesis by (simp add: components_rooted)
qed

lemma resolve_leads:
  assumes "has_root cwd"
  shows "lexically_resolve_path (if has_root p then p else path_join cwd p) = RootDir # List.map Normal (leads_to cwd p)"
proof (cases "has_root p")
  case True
  have "fold resolve_step (RootDir # cs) [] = RootDir # List.map Normal (walk [] cs)" for cs
    using resolve_rooted [of cs "[]"] by (simp add: resolve_step_def buf_push_def)
  with True show ?thesis by (simp add: lexically_resolve_path_def leads_to_def components_rooted)
next
  case False
  have "fold resolve_step (RootDir # cs) [] = RootDir # List.map Normal (walk [] cs)" for cs
    using resolve_rooted [of cs "[]"] by (simp add: resolve_step_def buf_push_def)
  with False assms show ?thesis
    by (simp add: lexically_resolve_path_def leads_to_def join_rooted components_rooted walk_append walk_relative
        resolve_rooted)
qed

lemma starts_with_rooted:
  "starts_with (RootDir # List.map Normal d) (RootDir # List.map Normal a) \<longleftrightarrow> prefix a d"
proof -
  have "List.map Normal xs = List.map Normal ys \<longleftrightarrow> xs = ys" for xs ys
    by (simp add: inj_map_eq_map inj_def)
  then show ?thesis
    by (auto simp: starts_with_def take_map prefix_def) (metis append_take_drop_id)
qed

lemma resolve_unrooted:
  "\<not> has_root p \<Longrightarrow> RootDir \<notin> set (lexically_resolve_path p)"
proof -
  assume "\<not> has_root p"
  then have "RootDir \<notin> set (components p)"
    by (auto simp: components_def Let_def List.map_filter_def split: if_splits)
  moreover have "RootDir \<notin> set b \<Longrightarrow> RootDir \<notin> set cs \<Longrightarrow> RootDir \<notin> set (fold resolve_step cs b)" for b cs
    by (induction cs arbitrary: b)
      (auto simp: resolve_step_def buf_pop_def buf_push_def dest: in_set_butlastD split: path_component.splits)
  ultimately show ?thesis by (simp add: lexically_resolve_path_def)
qed

definition canonical :: "string \<Rightarrow> string list \<Rightarrow> bool" where
  "canonical pre d \<longleftrightarrow> components pre = RootDir # List.map Normal d"


text \<open>A prefix \<open>/a\<close>, the working directory \<open>/a/b\<close>: the path climbs out and is refused.\<close>

lemma canonical_a: "list_all2 canonical [''/a''] [[''a'']]"
  by (simp add: canonical_def components_def has_root_def slash_def List.map_filter_def)


end
