(* ===== verification/Bytecode.thy ===== *)
theory Bytecode
  imports Int_Ops
begin

text \<open>
  The instructions (\<open>bytecode.rs\<close>, \<open>Op\<close>) and the syntax tree (\<open>ast.rs\<close>, \<open>Expr\<close>) the compiler works on.

  An interned name is the string it stands for. The pools of a proto that instructions index (byte
  literals, constant chains, keyword keys) are written into the instruction, and the numbers of inline
  cache sites, which only select a cache entry, are left out. Jump offsets are relative to the next
  instruction. Argument counts keep their width.
\<close>

datatype case_lit =
    LitInt i64
  | LitFloat f64
  | LitSym string
  | LitStr string
  | LitNil
  | LitTrue
  | LitFalse

text \<open>The body of an accessor method that the compiler generates for a literal \<open>attr_reader\<close> or \<open>attr_writer\<close>.\<close>

datatype accessor = ReadsIvar string | WritesIvar string

text \<open>
  The instructions fall into three groups: those that only push, pop or store, those that dispatch to
  a method, a block or the class machinery, and the ones that read locals or steer control.
\<close>

datatype (plugins only: code size) plain =
    LoadConstInt i64
  | LoadConstFloat f64
  | LoadConstStr string
  | LoadConstStrBytes bytes
  | LoadRegex string u8
  | LoadBigInt string
  | LoadRational string string
  | LoadSymbol string
  | LoadNil
  | LoadTrue
  | LoadFalse
  | LoadSelf
  | LoadIvar string
  | StoreIvar string
  | IncIvar string
  | IncIvarNoPush string
  | LoadCvar string
  | StoreCvar string
  | LoadConst string
  | LoadConstOrNil string
  | LoadConstChain "string list"
  | LoadConstChainOrNil "string list"
  | LoadConstFromValue string
  | StoreConst string
  | LoadGlobal string
  | StoreGlobal string
  | NewArray u32
  | NewHash u32
  | NewRange bool
  | CompileRegex u8
  | InterpToS
  | CreateBlock nat
  | CreateLambda nat

datatype (plugins only: code size) dispatch =
    Call string u8
  | CallNoRecv string u8
  | CallKw string u8
  | CallKwNoRecv string u8
  | CallBlock string u8
  | CallNoRecvBlock string u8
  | CallKwBlock string u8
  | CallKwNoRecvBlock string u8
  | CallKwLit string u8 "string list"
  | CallKwLitNoRecv string u8 "string list"
  | CallAset string u8
  | ApplyCall string
  | ApplyCallNoRecv string
  | ApplyCallKw string
  | ApplyCallKwNoRecv string
  | ApplyCallKwBlock string
  | ApplyCallKwNoRecvBlock string
  | ApplyCallBlock string
  | ApplyCallNoRecvBlock string
  | Super string u8
  | ApplySuper string
  | ApplySuperBlock string
  | ImplicitSuperGuard
  | DefMethod string accessor
  | AliasMethod string string
  | AliasSingletonMethod string string
  | SingletonChainPrepend
  | PushClassVisibilityPublic
  | PopClassVisibility
  | DefMethodBlock string
  | DefObjectSingletonMethodBlock string
  | Yield u8
  | ApplyYield
  | BinOp binop_kind
  | BinOpInt binop_kind i64
  | CaseEqLit case_lit

datatype (plugins only: code size) instr =
    Plain plain
  | Invoke dispatch
  | LoadLocal nat
  | StoreLocal nat
  | IncLocal nat
  | IncLocalNoPush nat
  | BinOpLocalLocal binop_kind nat nat
  | LoadLocalCall nat string
  | Dup
  | Pop
  | Jump int
  | JumpIfFalse int
  | JumpIfArgGiven nat int
  | JumpIfKwArgGiven nat int
  | PushRescue int nat bool string
  | PushRescueSplatLocal int nat bool nat
  | PopRescue
  | EnterBegin
  | ExitBegin
  | TruncateRescuesToBeginBaseline
  | PushEnsure int
  | PopEnsure
  | Raise
  | EndEnsure
  | Break
  | EnterLoop
  | ExitLoop
  | BreakLoop int
  | NextLoop int
  | Return
  | ReturnMethod

section \<open>The syntax tree\<close>

text \<open>
  The constructors carry an \<open>E\<close>, the leaves are an \<open>atom\<close>. A block or lambda literal is compiled to a proto of
  its own and is a number here; definitions of methods and classes and multiple assignment are not in
  the tree. Source positions are left out.
\<close>

text \<open>A block literal: the number of its proto and how many local slots the block reserves.\<close>

datatype block_lit = BlockLit (block_proto: nat) (block_slots: nat)

datatype (plugins only: code size) atom =
    IntLit i64
  | FloatLit f64
  | StrLit string
  | StrLitBytes bytes
  | RegexLit string u8
  | BigIntLit string
  | RationalLit string string
  | SymbolLit string
  | BoolLit bool
  | NilLit
  | SelfExpr
  | IVarRead string
  | GVarRead string
  | CvarRead string
  | SourceFile
  | SourceLine i64
  | ConstRead string
  | ConstReadOrNil string
  | AliasSingleton string string
  | PushVisibility
  | PopVisibility
  | LambdaLit block_lit bool

datatype (plugins only: code size) expr =
    EAtom atom
  | EInterpStr "expr list"
  | EInterpRegex "expr list" u8
  | ELVar string
  | ELVarWrite string expr
  | EIVarWrite string expr
  | EGVarWrite string expr
  | ECvarWrite string expr
  | EDynConst expr string
  | EConstWrite string bool expr
  | EIf expr "expr list" "expr list"
  | EOr expr expr
  | EAnd expr expr
  | EWhile expr "expr list" bool
  | ECall "expr option" string "expr list" bool
  | EAssignCall expr string "expr list"
  | EArray "expr list"
  | EHash "(expr \<times> expr) list"
  | ERange expr expr bool
  | ECallWithBlock "expr option" string "expr list" block_lit bool
  | ECallWithBlockArg "expr option" string "expr list" expr bool
  | EApply "expr option" string expr "expr option" "expr option"
  | ESuper "expr list option"
  | ESuperApply expr "expr option"
  | ESuperWithBlock "expr list option" block_lit
  | ESingletonChainPrepend expr
  | EYield "expr list"
  | EYieldSplat expr
  | EReturn "expr option"
  | ENext "expr option"
  | EBreak "expr option"
  | ERetry
  | ERedo
  | EBegin "expr list" "rescue_clause list" "expr list option"
and rescue_clause = Clause "string list" "string option" "expr list"

end
