(* ===== verification/Compile_Model.thy ===== *)
theory Compile_Model
  imports Bytecode
begin

text \<open>
  The compiler from the syntax tree to instructions (\<open>compiler.rs\<close>): the builder of a proto and the
  arms of \<open>compile_expr\<close>, \<open>compile_stmt\<close> and \<open>compile_body\<close>. Jumps to a label that is not known yet are
  emitted as placeholders and patched later; a patch of anything else panics in the source and leaves
  the code alone here.
\<close>

section \<open>The builder\<close>

record builder =
  code :: "instr list"
  locals :: "string \<rightharpoonup> nat"
  n_locals :: nat
  filename :: string
  method_name :: "string option"
  method_param_count :: nat
  method_rest_slot :: "nat option"
  method_block_slot :: "nat option"
  method_n_positional :: nat
  method_n_post_rest :: nat
  method_has_kw :: bool
  method_kw_params :: "(string \<times> nat) list"
  method_kw_rest_slot :: "nat option"
  is_method_body :: bool
  loop_break_jumps :: "nat list list"
  loop_next_jumps :: "nat list list"
  loop_redo_jumps :: "nat list list"
  block_redo_target :: "nat option"
  retry_targets :: "nat list"
  class_path :: "string list"
  in_singleton_body :: bool
  n_kw_calls :: nat

text \<open>
  The stacks of loops and of \<open>retry\<close> targets are only used at the top, which is the head here. The
  slot counter is a \<open>u16\<close> in the source; a proto with 65536 locals is not considered.
\<close>

definition define_local_slot :: "string \<Rightarrow> builder \<Rightarrow> nat \<times> builder" where
  "define_local_slot name b =
     (n_locals b, b\<lparr>locals := (locals b)(name \<mapsto> n_locals b), n_locals := n_locals b + 1\<rparr>)"

definition local_slot :: "string \<Rightarrow> builder \<Rightarrow> nat \<times> builder" where
  "local_slot name b = (case locals b name of Some s \<Rightarrow> (s, b) | None \<Rightarrow> define_local_slot name b)"

definition new_builder :: "string list \<Rightarrow> string \<Rightarrow> builder" where
  "new_builder params file =
     fold (\<lambda>p b. snd (local_slot p b)) params
       \<lparr>code = [], locals = Map.empty, n_locals = 0, filename = file, method_name = None, method_param_count = 0,
        method_rest_slot = None, method_block_slot = None, method_n_positional = 0, method_n_post_rest = 0,
        method_has_kw = False, method_kw_params = [], method_kw_rest_slot = None, is_method_body = False,
        loop_break_jumps = [], loop_next_jumps = [], loop_redo_jumps = [], block_redo_target = None,
        retry_targets = [], class_path = [], in_singleton_body = False, n_kw_calls = 0\<rparr>"

text \<open>\<open>emit\<close> returns the position of the instruction, which is \<open>pos\<close> before it.\<close>

definition pos :: "builder \<Rightarrow> nat" where
  "pos b = length (code b)"

definition emit :: "instr \<Rightarrow> builder \<Rightarrow> builder" where
  "emit i b = b\<lparr>code := code b @ [i]\<rparr>"

definition emits :: "instr list \<Rightarrow> builder \<Rightarrow> builder" where
  "emits is b = b\<lparr>code := code b @ is\<rparr>"

fun retarget :: "int \<Rightarrow> instr \<Rightarrow> instr" where
  "retarget off (Jump _) = Jump off"
| "retarget off (JumpIfFalse _) = JumpIfFalse off"
| "retarget off (JumpIfArgGiven s _) = JumpIfArgGiven s off"
| "retarget off (JumpIfKwArgGiven s _) = JumpIfKwArgGiven s off"
| "retarget off (BreakLoop _) = BreakLoop off"
| "retarget off (NextLoop _) = NextLoop off"
| "retarget off (PushRescue _ s bind n) = PushRescue off s bind n"
| "retarget off (PushRescueSplatLocal _ s bind src) = PushRescueSplatLocal off s bind src"
| "retarget off (PushEnsure _) = PushEnsure off"
| "retarget off i = i"

text \<open>\<open>patch_jump\<close>, and the direct patches of the handler instructions in \<open>compile_begin_arm\<close>.\<close>

definition patch_jump :: "nat \<Rightarrow> nat \<Rightarrow> builder \<Rightarrow> builder" where
  "patch_jump ix target b =
     b\<lparr>code := (code b)[ix := retarget (int target - int ix - 1) (code b ! ix)]\<rparr>"

definition patch_all :: "nat list \<Rightarrow> nat \<Rightarrow> builder \<Rightarrow> builder" where
  "patch_all js target b = fold (\<lambda>j. patch_jump j target) js b"

abbreviation emit_plain :: "plain \<Rightarrow> builder \<Rightarrow> builder" where
  "emit_plain p \<equiv> emit (Plain p)"

abbreviation emit_invoke :: "dispatch \<Rightarrow> builder \<Rightarrow> builder" where
  "emit_invoke d \<equiv> emit (Invoke d)"

section \<open>Constants\<close>

text \<open>The marker of an absolute path is a leading double colon, that of a splatted local an ampersand.\<close>

definition strip_absolute :: "string \<Rightarrow> string option" where
  "strip_absolute name = (if take 2 name = ''::'' then Some (drop 2 name) else None)"

definition strip_splat_local :: "string \<Rightarrow> string option" where
  "strip_splat_local name = (case name of c # cs \<Rightarrow> if c = CHR ''&'' then Some cs else None | [] \<Rightarrow> None)"

text \<open>\<open>split_once\<close> and \<open>rsplit_once\<close> at a double colon.\<close>

fun split_once :: "string \<Rightarrow> (string \<times> string) option" where
  "split_once (a # b # s) =
     (if a = CHR '':'' \<and> b = CHR '':'' then Some ([], s)
      else map_option (\<lambda>(h, t). (a # h, t)) (split_once (b # s)))"
| "split_once _ = None"

fun rsplit_once :: "string \<Rightarrow> (string \<times> string) option" where
  "rsplit_once (a # b # s) =
     (case rsplit_once (b # s) of
        Some (h, t) \<Rightarrow> Some (a # h, t)
      | None \<Rightarrow> if a = CHR '':'' \<and> b = CHR '':'' then Some ([], s) else None)"
| "rsplit_once _ = None"

fun join_path :: "string list \<Rightarrow> string" where
  "join_path [] = []"
| "join_path [s] = s"
| "join_path (s # t # ss) = s @ ''::'' @ join_path (t # ss)"

text \<open>The names to try, innermost scope first; only the first segment is resolved lexically.\<close>

definition chain_entry :: "string \<Rightarrow> string option \<Rightarrow> string \<Rightarrow> string" where
  "chain_entry h t prefix =
     (if prefix = [] then [] else prefix @ ''::'') @ h @ (case t of None \<Rightarrow> [] | Some t \<Rightarrow> ''::'' @ t)"

definition build_const_chain :: "string list \<Rightarrow> string \<Rightarrow> string list option" where
  "build_const_chain path bare =
     (if path = [] then None
      else let (h, t) = (case split_once bare of Some (h, t) \<Rightarrow> (h, Some t) | None \<Rightarrow> (bare, None))
           in Some (List.map (\<lambda>i. chain_entry h t (join_path (take (Suc i) path))) (rev [0..<length path]) @
                [chain_entry h t []]))"

definition emit_const_read :: "string \<Rightarrow> builder \<Rightarrow> builder" where
  "emit_const_read name b =
     (case strip_absolute name of
        Some n \<Rightarrow> emit_plain (LoadConst n) b
      | None \<Rightarrow>
          (case build_const_chain (class_path b) name of
             Some chain \<Rightarrow> emit_plain (LoadConstChain chain) b
           | None \<Rightarrow> emit_plain (LoadConst name) b))"

definition emit_const_read_or_nil :: "string \<Rightarrow> builder \<Rightarrow> builder" where
  "emit_const_read_or_nil name b =
     (case strip_absolute name of
        Some n \<Rightarrow> emit_plain (LoadConstOrNil n) b
      | None \<Rightarrow>
          (case build_const_chain (class_path b) name of
             Some chain \<Rightarrow> emit_plain (LoadConstChainOrNil chain) b
           | None \<Rightarrow> emit_plain (LoadConstOrNil name) b))"

definition emit_const_owner_read :: "string \<Rightarrow> bool \<Rightarrow> builder \<Rightarrow> builder" where
  "emit_const_owner_read name absolute b =
     (if absolute then b
      else case rsplit_once name of
             None \<Rightarrow> b
           | Some (owner, _) \<Rightarrow> emit Pop (emit_const_read owner b))"

definition singleton_scoped_path :: "string list \<Rightarrow> bool" where
  "singleton_scoped_path path \<longleftrightarrow> path \<noteq> [] \<and> take 8 (last path) = ''#<Class:''"

text \<open>The stores of a constant assignment; the value is on the stack.\<close>

definition emit_const_store :: "string \<Rightarrow> bool \<Rightarrow> builder \<Rightarrow> builder" where
  "emit_const_store name absolute b =
     (let prefixed = (if class_path b \<noteq> [] \<and> \<not> absolute \<and> split_once name = None
                      then Some (join_path (class_path b) @ ''::'' @ name) else None)
      in case prefixed of
           None \<Rightarrow> emit_plain (StoreConst name) b
         | Some pid \<Rightarrow>
             if \<not> in_singleton_body b \<or> singleton_scoped_path (class_path b)
             then emit_plain (StoreConst pid) b
             else emit_plain (StoreConst pid) (emit_plain (StoreConst name) (emit Dup b)))"

section \<open>Calls\<close>

text \<open>\<open>emit_method_call\<close>: receiver, block, keywords.\<close>

definition method_call :: "string \<Rightarrow> u8 \<Rightarrow> bool \<Rightarrow> bool \<Rightarrow> bool \<Rightarrow> dispatch" where
  "method_call name argc has_recv has_block has_kw =
     (if has_recv
      then (if has_block then (if has_kw then CallKwBlock name argc else CallBlock name argc)
            else (if has_kw then CallKw name argc else Call name argc))
      else (if has_block then (if has_kw then CallKwNoRecvBlock name argc else CallNoRecvBlock name argc)
            else (if has_kw then CallKwNoRecv name argc else CallNoRecv name argc)))"

text \<open>The case literal of a receiver of \<open>===\<close>.\<close>

definition case_lit_of :: "expr option \<Rightarrow> case_lit option" where
  "case_lit_of r =
     (case r of
        Some (EAtom (IntLit i)) \<Rightarrow> Some (LitInt i)
      | Some (EAtom (FloatLit f)) \<Rightarrow> Some (LitFloat f)
      | Some (EAtom (SymbolLit s)) \<Rightarrow> Some (LitSym s)
      | Some (EAtom (StrLit s)) \<Rightarrow> Some (LitStr s)
      | Some (EAtom (BoolLit bl)) \<Rightarrow> Some (if bl then LitTrue else LitFalse)
      | Some (EAtom NilLit) \<Rightarrow> Some LitNil
      | _ \<Rightarrow> None)"

text \<open>The keys of literal keywords: symbols without repetition.\<close>

fun lit_keys :: "(expr \<times> expr) list \<Rightarrow> string list \<Rightarrow> string list option" where
  "lit_keys [] seen = Some []"
| "lit_keys ((k, v) # ps) seen =
     (case k of
        EAtom (SymbolLit name) \<Rightarrow>
          if name \<in> set seen then None else map_option (\<lambda>ks. name # ks) (lit_keys ps (name # seen))
      | _ \<Rightarrow> None)"

definition kw_lit_keys :: "expr \<Rightarrow> string list option" where
  "kw_lit_keys e =
     (case e of EHash pairs \<Rightarrow> if pairs = [] then None else lit_keys pairs [] | _ \<Rightarrow> None)"

text \<open>\<open>attr_reader_writer_flags\<close> and the two literal forms the compiler turns into accessor methods.\<close>

definition attr_reader_writer_flags :: "string \<Rightarrow> (bool \<times> bool) option" where
  "attr_reader_writer_flags name =
     (if name = ''attr_reader'' \<or> name = ''attr'' then Some (True, False)
      else if name = ''attr_writer'' then Some (False, True)
      else if name = ''attr_accessor'' then Some (True, True)
      else None)"

definition def_accessors :: "bool \<Rightarrow> bool \<Rightarrow> string \<Rightarrow> instr list" where
  "def_accessors reader writer s =
     (if reader then [Invoke (DefMethod s (ReadsIvar (''@'' @ s)))] else []) @
     (if writer then [Invoke (DefMethod (s @ ''='') (WritesIvar (''@'' @ s)))] else [])"

fun symbol_of :: "expr \<Rightarrow> string option" where
  "symbol_of (EAtom (SymbolLit s)) = Some s"
| "symbol_of _ = None"

definition all_symbols :: "expr list \<Rightarrow> bool" where
  "all_symbols args \<longleftrightarrow> list_all (\<lambda>a. symbol_of a \<noteq> None) args"

text \<open>\<open>try_call_compile_time_intercept\<close>: the instructions, when the call is one of the literal forms.\<close>

definition intercepted :: "expr option \<Rightarrow> string \<Rightarrow> expr list \<Rightarrow> instr list option" where
  "intercepted recv name args =
     (if recv \<noteq> None then None
      else case (if name = ''attr'' then args else []) of
             [EAtom (SymbolLit s), EAtom (BoolLit acc)] \<Rightarrow> Some (def_accessors True acc s @ [Plain LoadNil])
           | _ \<Rightarrow>
               (case (attr_reader_writer_flags name, all_symbols args) of
                  (Some (r, w), True) \<Rightarrow>
                    Some (concat (List.map (\<lambda>a. def_accessors r w (the (symbol_of a))) args) @ [Plain LoadNil])
                | _ \<Rightarrow>
                    if name = ''alias_method'' \<and> length args = 2 \<and> all_symbols args
                    then Some [Invoke (AliasMethod (the (symbol_of (args ! 0))) (the (symbol_of (args ! 1))))]
                    else None))"

text \<open>\<open>name = name + 1\<close> with the literal one, for a local and for an instance variable.\<close>

definition is_incr :: "expr \<Rightarrow> expr \<Rightarrow> bool" where
  "is_incr var val =
     (case val of
        ECall (Some r) opname [EAtom (IntLit n)] _ \<Rightarrow> opname = ''+'' \<and> n = 1 \<and> r = var
      | _ \<Rightarrow> False)"

definition map_or_collect :: "instr \<Rightarrow> bool" where
  "map_or_collect i \<longleftrightarrow> i = Invoke (CallBlock ''map'' 0) \<or> i = Invoke (CallBlock ''collect'' 0)"

section \<open>Leaves\<close>

text \<open>The proto of a block is compiled on its own; its slots are taken from the ones of this proto.\<close>

definition reserve_block :: "block_lit \<Rightarrow> builder \<Rightarrow> builder" where
  "reserve_block blk b = b\<lparr>n_locals := n_locals b + block_slots blk\<rparr>"

fun compile_atom :: "atom \<Rightarrow> builder \<Rightarrow> builder" where
  "compile_atom (IntLit i) b = emit_plain (LoadConstInt i) b"
| "compile_atom (FloatLit f) b = emit_plain (LoadConstFloat f) b"
| "compile_atom (StrLit s) b = emit_plain (LoadConstStr s) b"
| "compile_atom (StrLitBytes bs) b = emit_plain (LoadConstStrBytes bs) b"
| "compile_atom (RegexLit src flags) b = emit_plain (LoadRegex src flags) b"
| "compile_atom (BigIntLit d) b = emit_plain (LoadBigInt d) b"
| "compile_atom (RationalLit num den) b = emit_plain (LoadRational num den) b"
| "compile_atom (SymbolLit s) b = emit_plain (LoadSymbol s) b"
| "compile_atom (BoolLit v) b = emit_plain (if v then LoadTrue else LoadFalse) b"
| "compile_atom NilLit b = emit_plain LoadNil b"
| "compile_atom SelfExpr b = emit_plain LoadSelf b"
| "compile_atom (IVarRead n) b = emit_plain (LoadIvar n) b"
| "compile_atom (GVarRead n) b = emit_plain (LoadGlobal n) b"
| "compile_atom (CvarRead n) b = emit_plain (LoadCvar n) b"
| "compile_atom SourceFile b = emit_plain (LoadConstStr (filename b)) b"
| "compile_atom (SourceLine n) b = emit_plain (LoadConstInt n) b"
| "compile_atom (ConstRead n) b = emit_const_read n b"
| "compile_atom (ConstReadOrNil n) b = emit_const_read_or_nil n b"
| "compile_atom (AliasSingleton new old) b = emit_invoke (AliasSingletonMethod new old) b"
| "compile_atom PushVisibility b = emit_invoke PushClassVisibilityPublic b"
| "compile_atom PopVisibility b = emit_invoke PopClassVisibility b"
| "compile_atom (LambdaLit blk is_lambda) b =
     emit_plain ((if is_lambda then CreateLambda else CreateBlock) (block_proto blk)) (reserve_block blk b)"

section \<open>super\<close>

text \<open>\<open>super\<close> with the arguments of the enclosing method: the arguments as received, keywords rebuilt as a hash.\<close>

definition load_slots :: "nat \<Rightarrow> instr list" where
  "load_slots n = List.map LoadLocal [0..<n]"

definition super_name :: "builder \<Rightarrow> string" where
  "super_name b = (case method_name b of Some n \<Rightarrow> n | None \<Rightarrow> ''<super-outside-method>'')"

definition super_forward_array :: "nat \<Rightarrow> instr list" where
  "super_forward_array rs = load_slots rs @ [Plain (NewArray (of_nat rs)), LoadLocal rs, Invoke (Call ''+'' 1)]"

definition block_slot_load :: "builder \<Rightarrow> instr list" where
  "block_slot_load b = (case method_block_slot b of Some bs \<Rightarrow> [LoadLocal bs] | None \<Rightarrow> [])"

definition super_apply :: "builder \<Rightarrow> instr" where
  "super_apply b =
     Invoke (if method_block_slot b \<noteq> None then ApplySuperBlock (super_name b) else ApplySuper (super_name b))"

definition super_kwargs :: "builder \<Rightarrow> instr list" where
  "super_kwargs b =
     (case method_kw_rest_slot b of Some krs \<Rightarrow> [LoadLocal krs] | None \<Rightarrow> []) @
     concat (List.map (\<lambda>(k, slot). [Plain (LoadSymbol k), LoadLocal slot]) (method_kw_params b)) @
     [Plain (NewHash (of_nat (length (method_kw_params b))))] @
     (if method_kw_rest_slot b \<noteq> None then [Invoke (Call ''merge'' 1)] else [])"

definition simple_super :: "builder \<Rightarrow> bool" where
  "simple_super b \<longleftrightarrow> \<not> method_has_kw b \<and> method_n_post_rest b = 0"

definition bare_super :: "builder \<Rightarrow> instr list" where
  "bare_super b =
     (if is_method_body b then [] else [Invoke ImplicitSuperGuard]) @
     (if simple_super b \<and> method_rest_slot b \<noteq> None
      then block_slot_load b @ super_forward_array (the (method_rest_slot b)) @ [super_apply b]
      else if simple_super b \<and> method_block_slot b \<noteq> None
      then block_slot_load b @ load_slots (method_n_positional b) @
        [Plain (NewArray (of_nat (method_n_positional b))), Invoke (ApplySuperBlock (super_name b))]
      else if method_has_kw b \<and> method_rest_slot b \<noteq> None \<and> method_n_post_rest b = 0
      then block_slot_load b @ super_forward_array (the (method_rest_slot b)) @ super_kwargs b @
        [Dup, Invoke (Call ''empty?'' 0), JumpIfFalse 2, Pop, Jump 2, Plain (NewArray 1), Invoke (Call ''+'' 1),
         super_apply b]
      else if method_has_kw b \<and> method_rest_slot b = None
      then block_slot_load b @ load_slots (method_n_positional b) @ super_kwargs b @
        [Plain (NewArray (of_nat (method_n_positional b + 1))), super_apply b]
      else (let n = (if simple_super b then method_n_positional b else method_param_count b)
            in load_slots n @ [Invoke (Super (super_name b) (of_nat n))]))"

definition super_block_args :: "builder \<Rightarrow> instr list" where
  "super_block_args b =
     (if is_method_body b then [] else [Invoke ImplicitSuperGuard]) @
     (if simple_super b \<and> method_rest_slot b \<noteq> None then super_forward_array (the (method_rest_slot b))
      else let n = (if simple_super b then method_n_positional b else method_param_count b)
           in load_slots n @ [Plain (NewArray (of_nat n))])"

section \<open>Expressions\<close>

text \<open>
  An expression is compiled for its value, as a statement whose value is dropped, or, for the hash of
  literal keywords, only its values. A list is a body (the last value stays), statements, arguments, a
  slice of them, or arguments with literal keywords at the end.
\<close>

datatype emode = AsExpr | AsStmt | AsValues

datatype lmode = AsBody | AsStmts | AsArgs | Slice nat nat | AsKwArgs

definition finish :: "emode \<Rightarrow> builder \<Rightarrow> builder" where
  "finish m b = (if m = AsStmt then emit Pop b else b)"

definition interp_part :: "nat \<Rightarrow> bool \<Rightarrow> instr list" where
  "interp_part k str_lit =
     (if str_lit then [] else [Plain InterpToS]) @ (if 0 < k then [Invoke (BinOp Add)] else [])"

text \<open>The loop stacks around the body of a \<open>while\<close>.\<close>

definition open_loop :: "builder \<Rightarrow> builder" where
  "open_loop b =
     (emit EnterLoop b)\<lparr>loop_break_jumps := [] # loop_break_jumps b, loop_next_jumps := [] # loop_next_jumps b,
       loop_redo_jumps := [] # loop_redo_jumps b\<rparr>"

definition close_loop :: "nat \<Rightarrow> nat \<Rightarrow> builder \<Rightarrow> builder" where
  "close_loop redo_target iter_check b =
     (let b = (patch_all (hd (loop_redo_jumps b)) redo_target b)\<lparr>loop_redo_jumps := tl (loop_redo_jumps b)\<rparr>;
          b = (patch_all (hd (loop_next_jumps b)) iter_check b)\<lparr>loop_next_jumps := tl (loop_next_jumps b)\<rparr>;
          b = (patch_all (hd (loop_break_jumps b)) (pos b) b)\<lparr>loop_break_jumps := tl (loop_break_jumps b)\<rparr>
      in emit ExitLoop b)"

text \<open>\<open>compile_while_arm\<close>, for the compiled condition and the compiled body.\<close>

definition while_arm :: "bool \<Rightarrow> (builder \<Rightarrow> builder) \<Rightarrow> (builder \<Rightarrow> builder) \<Rightarrow> builder \<Rightarrow> builder" where
  "while_arm post cond body b =
     (let b = open_loop b
      in if post
         then let body_start = pos b;
                  b = body b;
                  iter_check = pos b;
                  b = cond b;
                  jf = pos b; b = emit (JumpIfFalse 0) b;
                  j = pos b; b = emit (Jump 0) b;
                  b = patch_jump j body_start b;
                  b = patch_jump jf (pos b) b;
                  b = emit_plain LoadNil b
              in close_loop body_start iter_check b
         else let start = pos b;
                  b = cond b;
                  jf = pos b; b = emit (JumpIfFalse 0) b;
                  redo_target = pos b;
                  b = body b;
                  j = pos b; b = emit (Jump 0) b;
                  b = patch_jump j start b;
                  b = patch_jump jf (pos b) b;
                  b = emit_plain LoadNil b
              in close_loop redo_target start b)"

definition if_arm :: "(builder \<Rightarrow> builder) \<Rightarrow> (builder \<Rightarrow> builder) \<Rightarrow> (builder \<Rightarrow> builder) \<Rightarrow> builder \<Rightarrow> builder" where
  "if_arm cond then_body else_body b =
     (let b = cond b;
          jf = pos b; b = emit (JumpIfFalse 0) b;
          b = then_body b;
          je = pos b; b = emit (Jump 0) b;
          b = patch_jump jf (pos b) b;
          b = else_body b
      in patch_jump je (pos b) b)"

definition or_arm :: "(builder \<Rightarrow> builder) \<Rightarrow> (builder \<Rightarrow> builder) \<Rightarrow> builder \<Rightarrow> builder" where
  "or_arm lhs rhs b =
     (let b = emit Dup (lhs b);
          jf = pos b; b = emit (JumpIfFalse 0) b;
          je = pos b; b = emit (Jump 0) b;
          b = patch_jump jf (pos b) b;
          b = rhs (emit Pop b)
      in patch_jump je (pos b) b)"

definition and_arm :: "(builder \<Rightarrow> builder) \<Rightarrow> (builder \<Rightarrow> builder) \<Rightarrow> builder \<Rightarrow> builder" where
  "and_arm lhs rhs b =
     (let b = emit Dup (lhs b);
          jf = pos b; b = emit (JumpIfFalse 0) b;
          b = rhs (emit Pop b);
          je = pos b; b = emit (Jump 0) b;
          b = patch_jump jf (pos b) b
      in patch_jump je (pos b) b)"

text \<open>
  \<open>compile_begin_arm\<close>. The handlers are pushed in reverse order, all classes of a clause for one handler
  body; a group holds the positions of the pushes of one clause.
\<close>

definition push_class :: "nat \<Rightarrow> bool \<Rightarrow> string \<Rightarrow> nat list \<times> builder \<Rightarrow> nat list \<times> builder" where
  "push_class slot bind n acc =
     (case acc of
        (grp, b) \<Rightarrow>
          (case strip_splat_local n of
             Some l \<Rightarrow> (case local_slot l b of
                 (src, b) \<Rightarrow> (grp @ [pos b], emit (PushRescueSplatLocal 0 slot bind src) b))
           | None \<Rightarrow> (grp @ [pos b], emit (PushRescue 0 slot bind n) b)))"

definition push_clause :: "rescue_clause \<Rightarrow> builder \<Rightarrow> nat list \<times> builder" where
  "push_clause c b =
     (case c of
        Clause classes var body \<Rightarrow>
          (case (case var of Some n \<Rightarrow> (case local_slot n b of (s, b) \<Rightarrow> (s, True, b)) | None \<Rightarrow> (0, False, b)) of
             (slot, bind, b) \<Rightarrow>
               if classes = [] then ([pos b], emit (PushRescue 0 slot bind ''StandardError'') b)
               else fold (push_class slot bind) (rev classes) ([], b)))"

fun push_clauses :: "rescue_clause list \<Rightarrow> builder \<Rightarrow> nat list list \<times> builder" where
  "push_clauses [] b = ([], b)"
| "push_clauses (c # cs) b =
     (case push_clauses cs b of
        (gs, b) \<Rightarrow> (case push_clause c b of (g, b) \<Rightarrow> (g # gs, b)))"

text \<open>One handler body; \<open>body\<close> is the compiled body of the clause.\<close>

definition handler_arm :: "(builder \<Rightarrow> builder) \<Rightarrow> nat \<Rightarrow> nat list \<Rightarrow> nat list \<times> builder \<Rightarrow> nat list \<times> builder" where
  "handler_arm body begin_top grp acc =
     (case acc of
        (jumps, b) \<Rightarrow>
          let b = patch_all grp (pos b) b;
              b = emit TruncateRescuesToBeginBaseline b;
              b = body (b\<lparr>retry_targets := begin_top # retry_targets b\<rparr>);
              b = b\<lparr>retry_targets := tl (retry_targets b)\<rparr>;
              b = emit ExitBegin (emit TruncateRescuesToBeginBaseline b)
          in (jumps @ [pos b], emit (Jump 0) b))"

definition rescue_arm ::
  "rescue_clause list \<Rightarrow> (builder \<Rightarrow> builder) \<Rightarrow> (nat \<Rightarrow> nat list list \<Rightarrow> nat list \<times> builder \<Rightarrow> nat list \<times> builder)
   \<Rightarrow> builder \<Rightarrow> builder" where
  "rescue_arm clauses body handlers b =
     (let b = emit EnterBegin b; begin_top = pos b
      in case push_clauses clauses b of
           (groups, b) \<Rightarrow>
             let b = body b;
                 b = emits (replicate (sum_list (List.map length groups)) PopRescue) b;
                 b = emit ExitBegin b;
                 jumps = [pos b]; b = emit (Jump 0) b
             in case handlers begin_top groups (jumps, b) of
                  (jumps, b) \<Rightarrow> patch_all jumps (pos b) b)"

definition ensure_arm :: "(builder \<Rightarrow> builder) \<Rightarrow> (builder \<Rightarrow> builder) \<Rightarrow> builder \<Rightarrow> builder" where
  "ensure_arm inner stmts b =
     (let pe = pos b; b = emit (PushEnsure 0) b;
          b = inner b;
          b = emit PopEnsure b;
          b = stmts b;
          je = pos b; b = emit (Jump 0) b;
          b = patch_jump pe (pos b) b;
          b = stmts b;
          b = emit EndEnsure b
      in patch_jump je (pos b) b)"

text \<open>The jumps out: \<open>return\<close>, \<open>next\<close>, \<open>break\<close>, \<open>retry\<close>, \<open>redo\<close>. The last instruction is never reached.\<close>

definition push_hole :: "nat \<Rightarrow> nat list list \<Rightarrow> nat list list" where
  "push_hole at_pos ls = (case ls of [] \<Rightarrow> [] | l # ls \<Rightarrow> (l @ [at_pos]) # ls)"

definition next_arm :: "bool \<Rightarrow> (builder \<Rightarrow> builder) \<Rightarrow> builder \<Rightarrow> builder" where
  "next_arm has_val val b =
     emit_plain LoadNil
       (if loop_next_jumps b \<noteq> []
        then let b = (if has_val then emit Pop (val b) else b);
                 at_pos = pos b; b = emit (NextLoop 0) b
             in b\<lparr>loop_next_jumps := push_hole at_pos (loop_next_jumps b)\<rparr>
        else emit Return (if has_val then val b else emit_plain LoadNil b))"

definition break_arm :: "bool \<Rightarrow> (builder \<Rightarrow> builder) \<Rightarrow> builder \<Rightarrow> builder" where
  "break_arm has_val val b =
     (let b = (if has_val then val b else emit_plain LoadNil b)
      in emit_plain LoadNil
           (if loop_break_jumps b \<noteq> []
            then let at_pos = pos b; b = emit (BreakLoop 0) b
                 in b\<lparr>loop_break_jumps := push_hole at_pos (loop_break_jumps b)\<rparr>
            else emits [Break, Return] b))"

definition retry_arm :: "builder \<Rightarrow> builder" where
  "retry_arm b =
     (case retry_targets b of
        target # _ \<Rightarrow>
          let b = emit TruncateRescuesToBeginBaseline b
          in emits [Jump (int target - int (pos b) - 1), Plain LoadNil] b
      | [] \<Rightarrow> emits [Plain (LoadConstStr ''Invalid retry''), Raise, Plain LoadNil] b)"

definition redo_arm :: "builder \<Rightarrow> builder" where
  "redo_arm b =
     emit_plain LoadNil
       (if loop_redo_jumps b \<noteq> []
        then let at_pos = pos b; b = emit (NextLoop 0) b
             in b\<lparr>loop_redo_jumps := push_hole at_pos (loop_redo_jumps b)\<rparr>
        else case block_redo_target b of
               Some target \<Rightarrow> emit (Jump (int target - int (pos b) - 1)) b
             | None \<Rightarrow> emits [Plain (LoadConstStr ''redo called outside of loop''), Raise] b)"

section \<open>The compiler\<close>

text \<open>\<open>compile_call_arm\<close>: the arms take the compiled receiver and the compiled arguments in each list mode.\<close>

definition raise_arm :: "nat \<Rightarrow> (lmode \<Rightarrow> builder \<Rightarrow> builder) \<Rightarrow> builder \<Rightarrow> builder" where
  "raise_arm n args b =
     emits [Raise, Plain LoadNil]
       (if n = 0 then emit_plain LoadNil b
        else if n = 1 then args AsArgs b
        else if n = 2 then emit_invoke (Call ''exception'' 1) (args AsArgs b)
        else case local_slot ''__raise_exc_bt'' b of
               (tmp, b) \<Rightarrow>
                 let b = emits [Invoke (Call ''exception'' 1), StoreLocal tmp, LoadLocal tmp] (args (Slice 0 2) b)
                 in emits [Invoke (Call ''set_backtrace'' 1), Pop, LoadLocal tmp] (args (Slice 2 1) b))"

definition generic_call_arm ::
  "bool \<Rightarrow> string \<Rightarrow> nat \<Rightarrow> bool \<Rightarrow> (builder \<Rightarrow> builder) \<Rightarrow> (lmode \<Rightarrow> builder \<Rightarrow> builder) \<Rightarrow> builder \<Rightarrow> builder" where
  "generic_call_arm has_recv name n kw recv args b =
     (let b = args AsArgs (recv b)
      in if has_recv \<and> \<not> kw \<and> n = 0 \<and> name = ''sum'' \<and> code b \<noteq> [] \<and> map_or_collect (last (code b))
         then b\<lparr>code := butlast (code b) @ [Invoke (CallBlock ''sum'' 0)]\<rparr>
         else emit_invoke (method_call name (of_nat n) has_recv False kw) b)"

definition kw_lit_arm ::
  "bool \<Rightarrow> string \<Rightarrow> nat \<Rightarrow> string list \<Rightarrow> (builder \<Rightarrow> builder) \<Rightarrow> (lmode \<Rightarrow> builder \<Rightarrow> builder) \<Rightarrow> builder \<Rightarrow> builder" where
  "kw_lit_arm has_recv name n keys recv args b =
     (let b = args AsKwArgs (recv b);
          argc = of_nat (n - 1 + length keys)
      in (emit_invoke ((if has_recv then CallKwLit else CallKwLitNoRecv) name argc keys) b)\<lparr>n_kw_calls := n_kw_calls b + 1\<rparr>)"

text \<open>A literal receiver of \<open>===\<close>, an operator with one argument, and a call on a local.\<close>

definition case_eq_lit :: "expr option \<Rightarrow> string \<Rightarrow> expr list \<Rightarrow> bool \<Rightarrow> case_lit option" where
  "case_eq_lit recv name args kw = (if name = ''==='' \<and> length args = 1 \<and> \<not> kw then case_lit_of recv else None)"

definition operator_call :: "expr option \<Rightarrow> string \<Rightarrow> expr list \<Rightarrow> binop_kind option" where
  "operator_call recv name args = (if recv \<noteq> None \<and> length args = 1 then from_op_name name else None)"

definition operator_arm ::
  "expr option \<Rightarrow> expr list \<Rightarrow> binop_kind \<Rightarrow> (builder \<Rightarrow> builder) \<Rightarrow> (lmode \<Rightarrow> builder \<Rightarrow> builder) \<Rightarrow> builder \<Rightarrow> builder" where
  "operator_arm recv arg_exprs k crecv cargs b =
     (case (recv, arg_exprs) of
        (Some (ELVar l), [ELVar r]) \<Rightarrow>
          (case local_slot l b of (a_slot, b) \<Rightarrow>
             (case local_slot r b of (b_slot, b) \<Rightarrow> emit (BinOpLocalLocal k a_slot b_slot) b))
      | (_, [EAtom (IntLit n)]) \<Rightarrow> emit_invoke (BinOpInt k n) (crecv b)
      | _ \<Rightarrow> emit_invoke (BinOp k) (cargs AsArgs (crecv b)))"

definition local_receiver :: "expr option \<Rightarrow> expr list \<Rightarrow> bool \<Rightarrow> string option" where
  "local_receiver recv args kw =
     (case recv of Some (ELVar l) \<Rightarrow> if args = [] \<and> \<not> kw then Some l else None | _ \<Rightarrow> None)"

definition literal_keywords :: "expr list \<Rightarrow> bool \<Rightarrow> builder \<Rightarrow> string list option" where
  "literal_keywords args kw b =
     (if kw \<and> args \<noteq> [] \<and> n_kw_calls b < 65535
      then (case kw_lit_keys (last args) of
              Some keys \<Rightarrow> if length args - 1 + length keys \<le> 255 then Some keys else None
            | None \<Rightarrow> None)
      else None)"

definition call_arm ::
  "expr option \<Rightarrow> string \<Rightarrow> expr list \<Rightarrow> bool \<Rightarrow> (builder \<Rightarrow> builder) \<Rightarrow> (lmode \<Rightarrow> builder \<Rightarrow> builder) \<Rightarrow> builder \<Rightarrow> builder" where
  "call_arm recv name args kw crecv cargs b =
     (if recv = None \<and> name = ''__seq__'' then cargs AsBody b
      else case intercepted recv name args of
        Some is \<Rightarrow> emits is b
      | None \<Rightarrow>
      if recv = None \<and> name = ''raise'' then raise_arm (length args) cargs b
      else case case_eq_lit recv name args kw of
        Some lit \<Rightarrow> emit_invoke (CaseEqLit lit) (cargs AsArgs b)
      | None \<Rightarrow>
      (case operator_call recv name args of
        Some k \<Rightarrow> operator_arm recv args k crecv cargs b
      | None \<Rightarrow>
      (case local_receiver recv args kw of
        Some l \<Rightarrow> (case local_slot l b of (s, b) \<Rightarrow> emit (LoadLocalCall s name) b)
      | None \<Rightarrow>
      (case literal_keywords args kw b of
        Some keys \<Rightarrow> kw_lit_arm (recv \<noteq> None) name (length args) keys crecv cargs b
      | None \<Rightarrow> generic_call_arm (recv \<noteq> None) name (length args) kw crecv cargs b))))"

text \<open>A call with a literal block; two literal forms define a method from the block.\<close>

definition block_call_arm ::
  "expr option \<Rightarrow> string \<Rightarrow> expr list \<Rightarrow> block_lit \<Rightarrow> bool \<Rightarrow> (builder \<Rightarrow> builder) \<Rightarrow> (lmode \<Rightarrow> builder \<Rightarrow> builder)
   \<Rightarrow> builder \<Rightarrow> builder" where
  "block_call_arm recv name args blk kw crecv cargs b =
     (let create = emit_plain (CreateBlock (block_proto blk));
          defines = length args = 1 \<and> all_symbols args
      in if recv = None \<and> name = ''define_method'' \<and> defines
         then emit_invoke (DefMethodBlock (the (symbol_of (hd args)))) (create (reserve_block blk b))
         else if recv \<noteq> None \<and> name = ''define_singleton_method'' \<and> defines
         then emit_invoke (DefObjectSingletonMethodBlock (the (symbol_of (hd args))))
                (create (reserve_block blk (crecv b)))
         else emit_invoke (method_call name (of_nat (length args)) (recv \<noteq> None) True kw)
                (cargs AsArgs (create (crecv (reserve_block blk b)))))"

definition apply_call :: "string \<Rightarrow> bool \<Rightarrow> bool \<Rightarrow> bool \<Rightarrow> dispatch" where
  "apply_call name has_recv has_block has_kw =
     (if has_kw
      then (if has_block then (if has_recv then ApplyCallKwBlock name else ApplyCallKwNoRecvBlock name)
            else (if has_recv then ApplyCallKw name else ApplyCallKwNoRecv name))
      else (if has_block then (if has_recv then ApplyCallBlock name else ApplyCallNoRecvBlock name)
            else (if has_recv then ApplyCall name else ApplyCallNoRecv name)))"

text \<open>A list of compiled expressions in one of the list modes.\<close>

fun compiled_list :: "(emode \<Rightarrow> builder \<Rightarrow> builder) list \<Rightarrow> lmode \<Rightarrow> builder \<Rightarrow> builder" where
  "compiled_list [] m b = (if m = AsBody then emit_plain LoadNil b else b)"
| "compiled_list (f # fs) m b =
     (case m of
        AsBody \<Rightarrow> if fs = [] then f AsExpr b else compiled_list fs AsBody (f AsStmt b)
      | AsStmts \<Rightarrow> compiled_list fs AsStmts (f AsStmt b)
      | AsArgs \<Rightarrow> compiled_list fs AsArgs (f AsExpr b)
      | Slice i n \<Rightarrow>
          if i \<noteq> 0 then compiled_list fs (Slice (i - 1) n) b
          else if n = 0 then b else compiled_list fs (Slice 0 (n - 1)) (f AsExpr b)
      | AsKwArgs \<Rightarrow> if fs = [] then f AsValues b else compiled_list fs AsKwArgs (f AsExpr b))"

definition compiled_opt :: "(emode \<Rightarrow> builder \<Rightarrow> builder) option \<Rightarrow> builder \<Rightarrow> builder" where
  "compiled_opt fo b = (case fo of None \<Rightarrow> b | Some f \<Rightarrow> f AsExpr b)"

fun compiled_parts :: "nat \<Rightarrow> bool list \<Rightarrow> (emode \<Rightarrow> builder \<Rightarrow> builder) list \<Rightarrow> builder \<Rightarrow> builder" where
  "compiled_parts k (lit # lits) (f # fs) b = compiled_parts (Suc k) lits fs (emits (interp_part k lit) (f AsExpr b))"
| "compiled_parts k _ _ b = b"

fun compiled_pairs ::
  "bool \<Rightarrow> ((emode \<Rightarrow> builder \<Rightarrow> builder) \<times> (emode \<Rightarrow> builder \<Rightarrow> builder)) list \<Rightarrow> builder \<Rightarrow> builder" where
  "compiled_pairs vals [] b = b"
| "compiled_pairs vals ((k, v) # ps) b = compiled_pairs vals ps (v AsExpr (if vals then b else k AsExpr b))"

text \<open>The handler bodies, last clause first.\<close>

fun compiled_handlers ::
  "(builder \<Rightarrow> builder) list \<Rightarrow> nat \<Rightarrow> nat list list \<Rightarrow> nat list \<times> builder \<Rightarrow> nat list \<times> builder" where
  "compiled_handlers [] begin_top grps acc = acc"
| "compiled_handlers (f # fs) begin_top grps acc =
     handler_arm f begin_top (hd grps) (compiled_handlers fs begin_top (tl grps) acc)"

definition is_str_lit :: "expr \<Rightarrow> bool" where
  "is_str_lit e \<longleftrightarrow> (case e of EAtom (StrLit _) \<Rightarrow> True | _ \<Rightarrow> False)"

text \<open>\<open>compile_expr\<close> and \<open>compile_stmt\<close> in one recursion over the tree.\<close>

primrec
  compile :: "expr \<Rightarrow> emode \<Rightarrow> builder \<Rightarrow> builder" and
  compile_clause :: "rescue_clause \<Rightarrow> builder \<Rightarrow> builder"
where
  "compile (EAtom a) = (\<lambda>m b. finish m (compile_atom a b))"
| "compile (EInterpStr parts) = (\<lambda>m b. finish m
     (if parts = [] then emit_plain (LoadConstStr []) b
      else compiled_parts 0 (List.map is_str_lit parts) (List.map compile parts) b))"
| "compile (EInterpRegex parts flags) = (\<lambda>m b. finish m (emit_plain (CompileRegex flags)
     (if parts = [] then emit_plain (LoadConstStr []) b
      else compiled_parts 0 (List.map is_str_lit parts) (List.map compile parts) b)))"
| "compile (ELVar name) = (\<lambda>m b. finish m (case local_slot name b of (s, b) \<Rightarrow> emit (LoadLocal s) b))"
| "compile (ELVarWrite name val) = (\<lambda>m b.
     case local_slot name b of
       (s, b) \<Rightarrow>
         if is_incr (ELVar name) val then emit (if m = AsStmt then IncLocalNoPush s else IncLocal s) b
         else let b = compile val AsExpr b
              in if m = AsStmt then emit (StoreLocal s) b else emits [Dup, StoreLocal s] b)"
| "compile (EIVarWrite name val) = (\<lambda>m b.
     if is_incr (EAtom (IVarRead name)) val
     then emit_plain (if m = AsStmt then IncIvarNoPush name else IncIvar name) b
     else let b = compile val AsExpr b
          in if m = AsStmt then emit_plain (StoreIvar name) b else emits [Dup, Plain (StoreIvar name)] b)"
| "compile (EGVarWrite name val) = (\<lambda>m b.
     let b = compile val AsExpr b
     in if m = AsStmt then emit_plain (StoreGlobal name) b else emits [Dup, Plain (StoreGlobal name)] b)"
| "compile (ECvarWrite name val) = (\<lambda>m b. finish m (emits [Dup, Plain (StoreCvar name)] (compile val AsExpr b)))"
| "compile (EDynConst base name) = (\<lambda>m b. finish m (emit_plain (LoadConstFromValue name) (compile base AsExpr b)))"
| "compile (EConstWrite name absolute val) = (\<lambda>m b.
     let b = emit_const_owner_read name absolute (compile val AsExpr b)
     in emit_const_store name absolute (if m = AsStmt then b else emit Dup b))"
| "compile (EIf c t e) = (\<lambda>m b. finish m
     (if_arm (compile c AsExpr) (compiled_list (List.map compile t) AsBody) (compiled_list (List.map compile e) AsBody) b))"
| "compile (EOr l r) = (\<lambda>m b. finish m (or_arm (compile l AsExpr) (compile r AsExpr) b))"
| "compile (EAnd l r) = (\<lambda>m b. finish m (and_arm (compile l AsExpr) (compile r AsExpr) b))"
| "compile (EWhile c body post) = (\<lambda>m b. finish m
     (while_arm post (compile c AsExpr) (compiled_list (List.map compile body) AsStmts) b))"
| "compile (ECall recv name args kw) = (\<lambda>m b. finish m
     (call_arm recv name args kw (compiled_opt (map_option compile recv)) (compiled_list (List.map compile args)) b))"
| "compile (EAssignCall recv name args) = (\<lambda>m b. finish m
     (emit_invoke (CallAset name (of_nat (length args)))
       (compiled_list (List.map compile args) AsArgs (compile recv AsExpr b))))"
| "compile (EArray es) = (\<lambda>m b. finish m
     (emit_plain (NewArray (of_nat (length es))) (compiled_list (List.map compile es) AsArgs b)))"
| "compile (EHash ps) = (\<lambda>m b.
     if m = AsValues then compiled_pairs True (List.map (map_prod compile compile) ps) b
     else finish m (emit_plain (NewHash (of_nat (length ps)))
            (compiled_pairs False (List.map (map_prod compile compile) ps) b)))"
| "compile (ERange l r excl) = (\<lambda>m b. finish m
     (emit_plain (NewRange excl) (compile r AsExpr (compile l AsExpr b))))"
| "compile (ECallWithBlock recv name args blk kw) = (\<lambda>m b. finish m
     (block_call_arm recv name args blk kw (compiled_opt (map_option compile recv))
       (compiled_list (List.map compile args)) b))"
| "compile (ECallWithBlockArg recv name args block_arg kw) = (\<lambda>m b. finish m
     (emit_invoke (method_call name (of_nat (length args)) (recv \<noteq> None) True kw)
       (compiled_list (List.map compile args) AsArgs
         (compile block_arg AsExpr (compiled_opt (map_option compile recv) b)))))"
| "compile (EApply recv name splat block_arg kwsplat) = (\<lambda>m b. finish m
     (emit_invoke (apply_call name (recv \<noteq> None) (block_arg \<noteq> None) (kwsplat \<noteq> None))
       (compiled_opt (map_option compile kwsplat) (compile splat AsExpr
         (compiled_opt (map_option compile block_arg) (compiled_opt (map_option compile recv) b))))))"
| "compile (ESuper args) = (\<lambda>m b. finish m
     (case map_option (List.map compile) args of
        Some fs \<Rightarrow> emit_invoke (Super (super_name b) (of_nat (length fs))) (compiled_list fs AsArgs b)
      | None \<Rightarrow> emits (bare_super b) b))"
| "compile (ESuperApply args block_arg) = (\<lambda>m b. finish m
     (emit_invoke (if block_arg \<noteq> None then ApplySuperBlock (super_name b) else ApplySuper (super_name b))
       (compile args AsExpr (compiled_opt (map_option compile block_arg) b))))"
| "compile (ESuperWithBlock args blk) = (\<lambda>m b. finish m
     (let b = emit_plain (CreateBlock (block_proto blk)) (reserve_block blk b);
          b = (case map_option (List.map compile) args of
                 Some fs \<Rightarrow> emit_plain (NewArray (of_nat (length fs))) (compiled_list fs AsArgs b)
               | None \<Rightarrow> emits (super_block_args b) b)
      in emit_invoke (ApplySuperBlock (super_name b)) b))"
| "compile (ESingletonChainPrepend src) = (\<lambda>m b. finish m (emit_invoke SingletonChainPrepend (compile src AsExpr b)))"
| "compile (EYield args) = (\<lambda>m b. finish m
     (emit_invoke (Yield (of_nat (length args))) (compiled_list (List.map compile args) AsArgs b)))"
| "compile (EYieldSplat arr) = (\<lambda>m b. finish m (emit_invoke ApplyYield (compile arr AsExpr b)))"
| "compile (EReturn val) = (\<lambda>m b. finish m
     (let b = (if val = None then emit_plain LoadNil b else compiled_opt (map_option compile val) b)
      in emits [if is_method_body b then Return else ReturnMethod, Plain LoadNil] b))"
| "compile (ENext val) = (\<lambda>m b. finish m (next_arm (val \<noteq> None) (compiled_opt (map_option compile val)) b))"
| "compile (EBreak val) = (\<lambda>m b. finish m (break_arm (val \<noteq> None) (compiled_opt (map_option compile val)) b))"
| "compile ERetry = (\<lambda>m b. finish m (retry_arm b))"
| "compile ERedo = (\<lambda>m b. finish m (redo_arm b))"
| "compile (EBegin body clauses ens) = (\<lambda>m b. finish m
     (let inner = (if clauses = [] then compiled_list (List.map compile body) AsBody
                   else rescue_arm clauses (compiled_list (List.map compile body) AsBody)
                          (compiled_handlers (List.map compile_clause clauses)))
      in case map_option (List.map compile) ens of
           None \<Rightarrow> inner b
         | Some fs \<Rightarrow> ensure_arm inner (compiled_list fs AsStmts) b))"
| "compile_clause (Clause classes var body) = compiled_list (List.map compile body) AsBody"

definition compile_list :: "expr list \<Rightarrow> lmode \<Rightarrow> builder \<Rightarrow> builder" where
  "compile_list es = compiled_list (List.map compile es)"

definition compile_opt :: "expr option \<Rightarrow> builder \<Rightarrow> builder" where
  "compile_opt e = compiled_opt (map_option compile e)"

abbreviation compile_expr :: "expr \<Rightarrow> builder \<Rightarrow> builder" where
  "compile_expr e \<equiv> compile e AsExpr"

abbreviation compile_stmt :: "expr \<Rightarrow> builder \<Rightarrow> builder" where
  "compile_stmt e \<equiv> compile e AsStmt"

section \<open>Protos\<close>

text \<open>
  \<open>compile_proto_kind\<close>: what a method knows about its own parameters, the prologues that evaluate the
  defaults of parameters that were not given, the body and a final return.
\<close>

definition method_layout ::
  "string \<Rightarrow> string list \<Rightarrow> nat \<Rightarrow> expr option list \<Rightarrow> nat option \<Rightarrow> nat \<Rightarrow> bool \<Rightarrow> bool \<Rightarrow> (string \<times> nat) list \<Rightarrow> nat option
   \<Rightarrow> builder \<Rightarrow> builder" where
  "method_layout name params n_required defaults rest n_post has_kw has_block kw_params kw_rest b =
     b\<lparr>method_name := Some name, method_param_count := length params, is_method_body := True,
       method_rest_slot := rest,
       method_n_positional := n_required + length (filter (\<lambda>d. d \<noteq> None) defaults) + n_post,
       method_n_post_rest := n_post, method_has_kw := has_kw, method_kw_params := kw_params,
       method_kw_rest_slot := kw_rest, method_block_slot := (if has_block then Some (length params - 1) else None)\<rparr>"

definition guarded_default :: "instr \<Rightarrow> nat \<Rightarrow> expr \<Rightarrow> builder \<Rightarrow> builder" where
  "guarded_default guard slot d b =
     (let jmp = pos b; b = emit guard b;
          b = emit (StoreLocal slot) (compile d AsExpr b)
      in patch_jump jmp (pos b) b)"

fun positional_defaults :: "nat \<Rightarrow> expr option list \<Rightarrow> builder \<Rightarrow> builder" where
  "positional_defaults i [] b = b"
| "positional_defaults i (d # ds) b =
     positional_defaults (Suc i) ds
       (case d of None \<Rightarrow> b | Some e \<Rightarrow> guarded_default (JumpIfArgGiven i 0) i e b)"

fun keyword_defaults :: "(nat \<times> nat \<times> expr) list \<Rightarrow> builder \<Rightarrow> builder" where
  "keyword_defaults [] b = b"
| "keyword_defaults ((kw, slot, e) # ds) b =
     keyword_defaults ds (guarded_default (JumpIfKwArgGiven kw 0) slot e b)"

definition compile_proto_kind ::
  "(builder \<Rightarrow> builder) \<Rightarrow> string \<Rightarrow> string list \<Rightarrow> string \<Rightarrow> string list \<Rightarrow> expr option list \<Rightarrow> (nat \<times> nat \<times> expr) list
   \<Rightarrow> expr list \<Rightarrow> builder" where
  "compile_proto_kind layout name params file path defaults kw_defaults body =
     (let b = layout ((new_builder params file)\<lparr>class_path := path,
            in_singleton_body := (name = ''<singleton class>'')\<rparr>);
          b = keyword_defaults kw_defaults (positional_defaults 0 defaults b)
      in emit Return (compile_list body AsBody b))"

text \<open>
  \<open>compile_proto_at\<close> and \<open>compile_proto\<close>: a class body or a script, which is no method and has no
  defaults.
\<close>

definition compile_proto_at :: "string \<Rightarrow> string list \<Rightarrow> expr list \<Rightarrow> string \<Rightarrow> string list \<Rightarrow> builder" where
  "compile_proto_at name params body file path = compile_proto_kind id name params file path [] [] body"

definition compile_proto :: "string \<Rightarrow> string list \<Rightarrow> expr list \<Rightarrow> string \<Rightarrow> builder" where
  "compile_proto name params body file = compile_proto_at name params body file []"

end
