(* ===== verification/Step_Core.thy ===== *)
theory Step_Core
  imports Compile_Model Unwind_Ops
begin

text \<open>
  The execution of instructions (\<open>vm/step.rs\<close>) on the machine of the control transfers: what one pass of
  the dispatch loop does. An instruction that dispatches to a method, a block or the class machinery is
  atomic here: it pops its operands and either pushes a value or raises, and what it computes is an
  argument of the model, together with the other frames it may run meanwhile.
\<close>

section \<open>The store\<close>

text \<open>What instructions compute on: locals of frames without a cell, cells and class tables, objects, \<open>$!\<close>.\<close>

record store =
  st_arena :: "rvalue list"
  st_world :: world
  st_heap :: heap
  st_bang :: rvalue

definition store_of :: "uvm \<Rightarrow> store" where
  "store_of s = \<lparr>st_arena = arena s, st_world = uworld s, st_heap = uheap s, st_bang = bang s\<rparr>"

text \<open>
  The rest of the program: the surroundings of an unwinding, the code of the protos, interned names, the
  result of a dispatching instruction on its operands (a value, or the exception it raises), the string
  raised when there is no exception, whether the caller gave a parameter, the owner of a \<open>return\<close>. For
  the operators: whether a string has an eigenclass of its own or the tag of a subclass, the promotions
  and primitives that answer before a method is called (big integers, rationals, \<open>primitive_call\<close>; \<open>None\<close> when
  they do not), the ones for symbols, the big integer of an overflow and the error of a division by zero.
\<close>

record ienv =
  ie_unwind :: uenv
  ie_code :: "nat \<Rightarrow> instr list"
  ie_sym :: "string \<Rightarrow> symid"
  ie_apply :: "instr \<Rightarrow> rvalue list \<Rightarrow> store \<Rightarrow> (rvalue + rvalue) \<times> world \<times> heap"
  ie_str_singleton :: "rvalue \<Rightarrow> bool"
  ie_class_tag :: "rvalue \<Rightarrow> bool"
  ie_primitive :: "binop_kind \<Rightarrow> rvalue \<Rightarrow> rvalue \<Rightarrow> store \<Rightarrow> (rvalue + rvalue) option \<times> world \<times> heap"
  ie_sym_primitive :: "binop_kind \<Rightarrow> rvalue \<Rightarrow> rvalue \<Rightarrow> store \<Rightarrow> (rvalue + rvalue) option \<times> world \<times> heap"
  ie_bigint_arith :: "binop_kind \<Rightarrow> rvalue \<Rightarrow> rvalue \<Rightarrow> store \<Rightarrow> (rvalue + rvalue) \<times> world \<times> heap"
  ie_zero_division :: "store \<Rightarrow> rvalue \<times> world \<times> heap"
  ie_unhandled :: rvalue
  ie_given :: "nat \<Rightarrow> bool"
  ie_kw_given :: "nat \<Rightarrow> bool"
  ie_owner :: "uvm \<Rightarrow> cellid option"
  ie_jump_error :: rvalue

section \<open>Operands\<close>

fun plain_operands :: "plain \<Rightarrow> nat" where
  "plain_operands (StoreIvar _) = 1"
| "plain_operands (StoreCvar _) = 1"
| "plain_operands (StoreConst _) = 1"
| "plain_operands (StoreGlobal _) = 1"
| "plain_operands (LoadConstFromValue _) = 1"
| "plain_operands (NewArray n) = unat n"
| "plain_operands (NewHash n) = 2 * unat n"
| "plain_operands (NewRange _) = 2"
| "plain_operands (CompileRegex _) = 1"
| "plain_operands InterpToS = 1"
| "plain_operands _ = 0"

fun dispatch_operands :: "dispatch \<Rightarrow> nat" where
  "dispatch_operands (Call _ n) = unat n + 1"
| "dispatch_operands (CallNoRecv _ n) = unat n"
| "dispatch_operands (CallKw _ n) = unat n + 1"
| "dispatch_operands (CallKwNoRecv _ n) = unat n"
| "dispatch_operands (CallBlock _ n) = unat n + 2"
| "dispatch_operands (CallNoRecvBlock _ n) = unat n + 1"
| "dispatch_operands (CallKwBlock _ n) = unat n + 2"
| "dispatch_operands (CallKwNoRecvBlock _ n) = unat n + 1"
| "dispatch_operands (CallKwLit _ n _) = unat n + 1"
| "dispatch_operands (CallKwLitNoRecv _ n _) = unat n"
| "dispatch_operands (CallAset _ n) = unat n + 1"
| "dispatch_operands (ApplyCall _) = 2"
| "dispatch_operands (ApplyCallNoRecv _) = 1"
| "dispatch_operands (ApplyCallKw _) = 3"
| "dispatch_operands (ApplyCallKwNoRecv _) = 2"
| "dispatch_operands (ApplyCallKwBlock _) = 4"
| "dispatch_operands (ApplyCallKwNoRecvBlock _) = 3"
| "dispatch_operands (ApplyCallBlock _) = 3"
| "dispatch_operands (ApplyCallNoRecvBlock _) = 2"
| "dispatch_operands (Super _ n) = unat n"
| "dispatch_operands (ApplySuper _) = 1"
| "dispatch_operands (ApplySuperBlock _) = 2"
| "dispatch_operands SingletonChainPrepend = 1"
| "dispatch_operands (DefMethodBlock _) = 1"
| "dispatch_operands (DefObjectSingletonMethodBlock _) = 2"
| "dispatch_operands (Yield n) = unat n"
| "dispatch_operands ApplyYield = 1"
| "dispatch_operands (BinOp _) = 2"
| "dispatch_operands (BinOpInt _ _) = 1"
| "dispatch_operands (CaseEqLit _) = 1"
| "dispatch_operands _ = 0"

text \<open>The instructions that leave nothing.\<close>

fun plain_pushes :: "plain \<Rightarrow> bool" where
  "plain_pushes (StoreIvar _) = False"
| "plain_pushes (StoreCvar _) = False"
| "plain_pushes (StoreConst _) = False"
| "plain_pushes (StoreGlobal _) = False"
| "plain_pushes (IncIvarNoPush _) = False"
| "plain_pushes _ = True"

fun dispatch_pushes :: "dispatch \<Rightarrow> bool" where
  "dispatch_pushes ImplicitSuperGuard = False"
| "dispatch_pushes _ = True"

fun operands :: "instr \<Rightarrow> nat" where
  "operands (Plain p) = plain_operands p"
| "operands (Invoke d) = dispatch_operands d"
| "operands _ = 0"

fun pushes :: "instr \<Rightarrow> bool" where
  "pushes (Plain p) = plain_pushes p"
| "pushes (Invoke d) = dispatch_pushes d"
| "pushes _ = False"

section \<open>The effect of an instruction\<close>

definition push_val :: "rvalue \<Rightarrow> uvm \<Rightarrow> uvm" where
  "push_val v s = s\<lparr>ostack := v # ostack s\<rparr>"

lemma push_val_onto [simp]: "push_val v (s\<lparr>ostack := vs\<rparr>) = s\<lparr>ostack := v # vs\<rparr>"
  by (simp add: push_val_def)

definition top_frame :: "uvm \<Rightarrow> uframe option" where
  "top_frame s = (case ufs s of [] \<Rightarrow> None | f # _ \<Rightarrow> Some f)"

definition raise_here :: "ienv \<Rightarrow> rvalue \<Rightarrow> uvm \<Rightarrow> uvm outcome" where
  "raise_here E exc s = boundary_check (unwind_with_exception (ie_unwind E) exc s)"

text \<open>A dispatching instruction; \<open>IncIvarNoPush\<close> is \<open>IncIvar\<close> without its result.\<close>

fun applied :: "instr \<Rightarrow> instr" where
  "applied (Plain (IncIvarNoPush n)) = Plain (IncIvar n)"
| "applied i = i"

text \<open>What is done with a result: it is pushed, or raised.\<close>

fun deliver :: "ienv \<Rightarrow> bool \<Rightarrow> (rvalue + rvalue) \<times> world \<times> heap \<Rightarrow> uvm \<Rightarrow> uvm outcome" where
  "deliver E push (Inl v, w, h) s = (let s = s\<lparr>uworld := w, uheap := h\<rparr> in Fine (if push then push_val v s else s))"
| "deliver E push (Inr exc, w, h) s = raise_here E exc (s\<lparr>uworld := w, uheap := h\<rparr>)"

definition apply_op :: "ienv \<Rightarrow> instr \<Rightarrow> uvm \<Rightarrow> uvm outcome" where
  "apply_op E i s =
     (let n = operands i
      in if length (ostack s) < n then Panic
         else deliver E (pushes i) (ie_apply E (applied i) (rev (take n (ostack s))) (store_of s))
                (s\<lparr>ostack := drop n (ostack s)\<rparr>))"

text \<open>
  The operators. The operands are popped; two small integers are computed on the spot, other values by
  the primitives, and only then a method is called.
\<close>

definition int_arm :: "ienv \<Rightarrow> binop_kind \<Rightarrow> i64 \<Rightarrow> i64 \<Rightarrow> uvm \<Rightarrow> uvm outcome" where
  "int_arm E k x y s =
     (if (k = Div \<or> k = Mod) \<and> y = 0
      then (case ie_zero_division E (store_of s) of (exc, r) \<Rightarrow> deliver E True (Inr exc, r) s)
      else case apply_int k x y of
             Some v \<Rightarrow> Fine (push_val v s)
           | None \<Rightarrow> deliver E True (ie_bigint_arith E k (VInt x) (VInt y) (store_of s)) s)"

definition is_str :: "rvalue \<Rightarrow> bool" where
  "is_str v \<longleftrightarrow> (case v of VStr _ \<Rightarrow> True | _ \<Rightarrow> False)"

definition operator_method :: "ienv \<Rightarrow> binop_kind \<Rightarrow> rvalue \<Rightarrow> rvalue \<Rightarrow> uvm \<Rightarrow> uvm outcome" where
  "operator_method E k a b s = apply_op E (Invoke (Call (binop_name k) 1)) (s\<lparr>ostack := b # a # ostack s\<rparr>)"

definition binop_values :: "ienv \<Rightarrow> binop_kind \<Rightarrow> rvalue \<Rightarrow> rvalue \<Rightarrow> uvm \<Rightarrow> uvm outcome" where
  "binop_values E k a b s =
     (if is_str a \<and> ie_str_singleton E a then operator_method E k a b s
      else if is_str a \<and> ie_class_tag E a then operator_method E k a b s
      else case (a, b) of
             (VInt x, VInt y) \<Rightarrow> int_arm E k x y s
           | _ \<Rightarrow>
               (case ie_primitive E k a b (store_of s) of
                  (Some r, w, h) \<Rightarrow> deliver E True (r, w, h) s
                | (None, w, h) \<Rightarrow> operator_method E k a b (s\<lparr>uworld := w, uheap := h\<rparr>)))"

definition op_binop :: "ienv \<Rightarrow> binop_kind \<Rightarrow> uvm \<Rightarrow> uvm outcome" where
  "op_binop E k s =
     (case ostack s of
        b # a # vs \<Rightarrow> binop_values E k a b (s\<lparr>ostack := vs\<rparr>)
      | _ \<Rightarrow> Panic)"

definition op_binop_int :: "ienv \<Rightarrow> binop_kind \<Rightarrow> i64 \<Rightarrow> uvm \<Rightarrow> uvm outcome" where
  "op_binop_int E k n s =
     (case ostack s of
        [] \<Rightarrow> Panic
      | a # vs \<Rightarrow>
          let s = s\<lparr>ostack := vs\<rparr>; b = VInt n
          in if is_str a \<and> ie_str_singleton E a then operator_method E k a b s
             else case a of
                    VInt x \<Rightarrow> int_arm E k x n s
                  | _ \<Rightarrow>
                      (case ie_primitive E k a b (store_of s) of
                         (Some r, w, h) \<Rightarrow> deliver E True (r, w, h) s
                       | (None, w, h) \<Rightarrow>
                           let s = s\<lparr>uworld := w, uheap := h\<rparr>
                           in case ie_sym_primitive E k a b (store_of s) of
                                (Some r, w, h) \<Rightarrow> deliver E True (r, w, h) s
                              | (None, w, h) \<Rightarrow> operator_method E k a b (s\<lparr>uworld := w, uheap := h\<rparr>)))"

text \<open>
  The two operator instructions differ in one gate: with an instance of a subclass of \<open>String\<close> on the
  left, \<open>BinOp\<close> calls the operator of the subclass, but \<open>BinOpInt\<close>, which is what the compiler emits when
  the right operand is an integer literal, takes the primitive of \<open>String\<close> first.
\<close>

lemma subclass_operator_skipped:
  assumes "ie_class_tag E (VStr t)" and "\<not> ie_str_singleton E (VStr t)"
    and "ie_primitive E k (VStr t) (VInt n) (store_of s) = (Some (Inl v), uworld s, uheap s)"
  shows "op_binop E k (push_val (VInt n) (push_val (VStr t) s)) = operator_method E k (VStr t) (VInt n) s"
    and "op_binop_int E k n (push_val (VStr t) s) = Fine (push_val v s)"
  using assms
  by (simp_all add: op_binop_def op_binop_int_def binop_values_def is_str_def push_val_def store_of_def)

definition op_binop_local_local :: "ienv \<Rightarrow> binop_kind \<Rightarrow> nat \<Rightarrow> nat \<Rightarrow> uvm \<Rightarrow> uvm outcome" where
  "op_binop_local_local E k a_slot b_slot s =
     (case top_frame s of
        None \<Rightarrow> Panic
      | Some f \<Rightarrow>
          (case (frame_local_get f s a_slot, frame_local_get f s b_slot) of
             (Some a, Some b) \<Rightarrow> binop_values E k a b s
           | _ \<Rightarrow> Panic))"

definition op_load_local :: "nat \<Rightarrow> uvm \<Rightarrow> uvm outcome" where
  "op_load_local slot s =
     (case top_frame s of
        None \<Rightarrow> Panic
      | Some f \<Rightarrow> (case frame_local_get f s slot of None \<Rightarrow> Panic | Some v \<Rightarrow> Fine (push_val v s)))"

text \<open>\<open>set_local_top\<close>.\<close>

definition set_local :: "nat \<Rightarrow> rvalue \<Rightarrow> uvm \<Rightarrow> uvm outcome" where
  "set_local slot v s =
     (case top_frame s of
        None \<Rightarrow> Panic
      | Some f \<Rightarrow> (case bind_exc slot v f s of None \<Rightarrow> Panic | Some s \<Rightarrow> Fine s))"

definition op_store_local :: "nat \<Rightarrow> uvm \<Rightarrow> uvm outcome" where
  "op_store_local slot s =
     (case ostack s of [] \<Rightarrow> Panic | v # vs \<Rightarrow> set_local slot v (s\<lparr>ostack := vs\<rparr>))"

fun outcome_bind :: "uvm outcome \<Rightarrow> (uvm \<Rightarrow> uvm outcome) \<Rightarrow> uvm outcome" where
  "outcome_bind Panic f = Panic"
| "outcome_bind (Fine s) f = f s"
| "outcome_bind (Trapped t s) f = Trapped t s"

text \<open>
  \<open>IncLocal\<close> and \<open>IncLocalNoPush\<close>. The largest integer, or another value, is a call of \<open>+\<close>. When that
  call raises, the unwinding leaves the instruction: the store is part of what the dispatch does then.
\<close>

definition inc_slow :: "ienv \<Rightarrow> nat \<Rightarrow> bool \<Rightarrow> rvalue \<Rightarrow> uvm \<Rightarrow> uvm outcome" where
  "inc_slow E slot push cur s =
     (case ie_apply E (Invoke (Call ''+'' 1)) [cur, VInt 1] (store_of s) of
        (Inl v, w, h) \<Rightarrow>
          let s = s\<lparr>uworld := w, uheap := h\<rparr>
          in outcome_bind (set_local slot v s) (\<lambda>s. Fine (if push then push_val v s else s))
      | (Inr exc, w, h) \<Rightarrow> raise_here E exc (s\<lparr>uworld := w, uheap := h\<rparr>))"

definition op_inc_local :: "ienv \<Rightarrow> nat \<Rightarrow> bool \<Rightarrow> uvm \<Rightarrow> uvm outcome" where
  "op_inc_local E slot push s =
     (case top_frame s of
        None \<Rightarrow> Panic
      | Some f \<Rightarrow>
          (case frame_local_get f s slot of
             None \<Rightarrow> (if push \<or> (\<exists>b. uf_locals f = InArena b) then Panic else inc_slow E slot push VNil s)
           | Some cur \<Rightarrow>
               (case cur of
                  VInt n \<Rightarrow>
                    if n \<noteq> word_of_int i64_max
                    then outcome_bind (set_local slot (VInt (n + 1)) s)
                           (\<lambda>s. Fine (if push then push_val (VInt (n + 1)) s else s))
                    else inc_slow E slot push cur s
                | _ \<Rightarrow> inc_slow E slot push cur s)))"

definition op_jump :: "int \<Rightarrow> uvm \<Rightarrow> uvm outcome" where
  "op_jump off s =
     (case ufs s of [] \<Rightarrow> Panic | f # fs \<Rightarrow> Fine (s\<lparr>ufs := f\<lparr>uf_ip := jump_target f off\<rparr> # fs\<rparr>))"

definition op_jump_if_false :: "int \<Rightarrow> uvm \<Rightarrow> uvm outcome" where
  "op_jump_if_false off s =
     (case ostack s of
        [] \<Rightarrow> Panic
      | v # vs \<Rightarrow> (if is_truthy v then Fine (s\<lparr>ostack := vs\<rparr>) else op_jump off (s\<lparr>ostack := vs\<rparr>)))"

definition op_raise :: "ienv \<Rightarrow> uvm \<Rightarrow> uvm outcome" where
  "op_raise E s = do_raise_value (ie_unwind E) (ie_unhandled E) (pop_or_nil (ostack s)) (s\<lparr>ostack := tl (ostack s)\<rparr>)"

text \<open>The visibility of a class body; public is 0.\<close>

definition op_pop_class_visibility :: "uvm \<Rightarrow> uvm outcome" where
  "op_pop_class_visibility s =
     (if visibility_stack s = [] then Panic
      else Fine (push_val VNil (s\<lparr>visibility_stack := tl (visibility_stack s),
                                  module_function_stack := tl (module_function_stack s)\<rparr>)))"

fun exec_plain :: "ienv \<Rightarrow> plain \<Rightarrow> uvm \<Rightarrow> uvm outcome" where
  "exec_plain E (LoadConstInt i) s = Fine (push_val (VInt i) s)"
| "exec_plain E (LoadConstFloat x) s = Fine (push_val (VFloat x) s)"
| "exec_plain E (LoadSymbol n) s = Fine (push_val (VSym (ie_sym E n)) s)"
| "exec_plain E LoadNil s = Fine (push_val VNil s)"
| "exec_plain E LoadTrue s = Fine (push_val (VBool True) s)"
| "exec_plain E LoadFalse s = Fine (push_val (VBool False) s)"
| "exec_plain E p s = apply_op E (Plain p) s"

fun exec_invoke :: "ienv \<Rightarrow> dispatch \<Rightarrow> uvm \<Rightarrow> uvm outcome" where
  "exec_invoke E (BinOp k) s = op_binop E k s"
| "exec_invoke E (BinOpInt k n) s = op_binop_int E k n s"
| "exec_invoke E PushClassVisibilityPublic s =
     Fine (push_val VNil (s\<lparr>visibility_stack := 0 # visibility_stack s,
       module_function_stack := False # module_function_stack s\<rparr>))"
| "exec_invoke E PopClassVisibility s = op_pop_class_visibility s"
| "exec_invoke E d s = apply_op E (Invoke d) s"

fun exec :: "ienv \<Rightarrow> instr \<Rightarrow> uvm \<Rightarrow> uvm outcome" where
  "exec E (Plain p) s = exec_plain E p s"
| "exec E (Invoke d) s = exec_invoke E d s"
| "exec E (LoadLocal slot) s = op_load_local slot s"
| "exec E (StoreLocal slot) s = op_store_local slot s"
| "exec E (IncLocal slot) s = op_inc_local E slot True s"
| "exec E (IncLocalNoPush slot) s = op_inc_local E slot False s"
| "exec E (BinOpLocalLocal k a b) s = op_binop_local_local E k a b s"
| "exec E (LoadLocalCall slot name) s =
     outcome_bind (op_load_local slot s) (apply_op E (Invoke (Call name 0)))"
| "exec E Dup s = (case ostack s of [] \<Rightarrow> Panic | v # _ \<Rightarrow> Fine (push_val v s))"
| "exec E Pop s = Fine (s\<lparr>ostack := tl (ostack s)\<rparr>)"
| "exec E (Jump off) s = op_jump off s"
| "exec E (JumpIfFalse off) s = op_jump_if_false off s"
| "exec E (JumpIfArgGiven slot off) s = (if ie_given E slot then op_jump off s else Fine s)"
| "exec E (JumpIfKwArgGiven kw off) s = (if ie_kw_given E kw then op_jump off s else Fine s)"
| "exec E (PushRescue off slot bind n) s = op_push_rescue off slot bind (ie_sym E n) s"
| "exec E (PushRescueSplatLocal off slot bind src) s = op_push_rescue_splat off slot bind src s"
| "exec E PopRescue s = op_pop_handler s"
| "exec E EnterBegin s = op_enter_begin s"
| "exec E ExitBegin s = op_exit_begin s"
| "exec E TruncateRescuesToBeginBaseline s = op_retry s"
| "exec E (PushEnsure off) s = op_push_ensure off s"
| "exec E PopEnsure s = op_pop_handler s"
| "exec E Raise s = op_raise E s"
| "exec E EndEnsure s = op_end_ensure (ie_unwind E) s"
| "exec E Break s = Fine (op_break s)"
| "exec E EnterLoop s = op_enter_loop s"
| "exec E ExitLoop s = op_exit_loop s"
| "exec E (BreakLoop off) s = op_break_loop off s"
| "exec E (NextLoop off) s = op_next_loop off s"
| "exec E Return s = outcome_map snd (op_return (ie_unwind E) s)"
| "exec E ReturnMethod s = Fine (op_return_method (ie_owner E s) s)"

text \<open>One pass of \<open>dispatch\<close>: the signals first, then the instruction at the advanced pointer.\<close>

definition vm_step :: "ienv \<Rightarrow> uvm \<Rightarrow> uvm outcome" where
  "vm_step E s =
     (case dispatch_signals (ie_unwind E) (ie_jump_error E) s of
        Some r \<Rightarrow> r
      | None \<Rightarrow>
          (case ufs s of
             [] \<Rightarrow> Panic
           | f # fs \<Rightarrow>
               if uf_ip f < length (ie_code E (uf_proto f))
               then exec E (ie_code E (uf_proto f) ! uf_ip f) (s\<lparr>ufs := f\<lparr>uf_ip := uf_ip f + 1\<rparr> # fs\<rparr>)
               else Panic))"

text \<open>The loop, for at most \<open>n\<close> passes; \<open>None\<close> means it has not stopped by then.\<close>

fun run :: "nat \<Rightarrow> ienv \<Rightarrow> uvm \<Rightarrow> uvm outcome option" where
  "run 0 E s = (if ufs s = [] then Some (Fine s) else None)"
| "run (Suc n) E s =
     (if ufs s = [] then Some (Fine s)
      else case vm_step E s of Fine s \<Rightarrow> run n E s | r \<Rightarrow> Some r)"

section \<open>The hot path\<close>

text \<open>
  \<open>step\<close> serves the common cases before \<open>step_cold\<close>, here \<open>exec\<close>: \<open>hot_locals\<close> says where the top frame
  keeps a local, when that is the arena or its own cell.
\<close>

datatype hot_locals = HotArena nat | HotOwn cellid

definition hot_locals :: "uvm \<Rightarrow> nat \<Rightarrow> hot_locals option" where
  "hot_locals s slot =
     (case top_frame s of
        None \<Rightarrow> None
      | Some f \<Rightarrow>
          (case uf_locals f of
             InArena base \<Rightarrow> Some (HotArena base)
           | InCell c \<Rightarrow> (if uf_own_start f \<le> slot then Some (HotOwn c) else None)))"

text \<open>The read of a hot local: \<open>Panic\<close> out of the arena, \<open>None\<close> out of the cell.\<close>

definition hot_get :: "uvm \<Rightarrow> nat \<Rightarrow> hot_locals \<Rightarrow> rvalue option outcome" where
  "hot_get s slot h =
     (case h of
        HotArena base \<Rightarrow> (if base + slot < length (arena s) then Fine (Some (arena s ! (base + slot))) else Panic)
      | HotOwn c \<Rightarrow>
          Fine (if slot < length (cell (uworld s) c) then Some (cell (uworld s) c ! slot) else None))"

definition hot_set :: "uvm \<Rightarrow> nat \<Rightarrow> hot_locals \<Rightarrow> rvalue \<Rightarrow> uvm" where
  "hot_set s slot h v =
     (case h of
        HotArena base \<Rightarrow> s\<lparr>arena := (arena s)[base + slot := v]\<rparr>
      | HotOwn c \<Rightarrow> s\<lparr>uworld := (uworld s)\<lparr>cells := (cells (uworld s))[c := (cell (uworld s) c)[slot := v]]\<rparr>\<rparr>)"

definition hot_load :: "ienv \<Rightarrow> instr \<Rightarrow> nat \<Rightarrow> (rvalue \<Rightarrow> uvm outcome) \<Rightarrow> uvm \<Rightarrow> uvm outcome" where
  "hot_load E i slot k s =
     (case hot_locals s slot of
        None \<Rightarrow> exec E i s
      | Some h \<Rightarrow>
          (case hot_get s slot h of
             Fine (Some v) \<Rightarrow> k v
           | Fine None \<Rightarrow> exec E i s
           | _ \<Rightarrow> Panic))"

fun step :: "ienv \<Rightarrow> instr \<Rightarrow> uvm \<Rightarrow> uvm outcome" where
  "step E (Plain (LoadConstInt i)) s = Fine (push_val (VInt i) s)"
| "step E (Plain LoadNil) s = Fine (push_val VNil s)"
| "step E (LoadLocal slot) s = hot_load E (LoadLocal slot) slot (\<lambda>v. Fine (push_val v s)) s"
| "step E (StoreLocal slot) s =
     (case hot_locals s slot of
        None \<Rightarrow> exec E (StoreLocal slot) s
      | Some h \<Rightarrow>
          if (case h of HotArena _ \<Rightarrow> True | HotOwn c \<Rightarrow> slot < length (cell (uworld s) c)) \<and> ostack s \<noteq> []
          then (case h of
                  HotArena base \<Rightarrow>
                    if base + slot < length (arena s)
                    then Fine (hot_set (s\<lparr>ostack := tl (ostack s)\<rparr>) slot h (hd (ostack s))) else Panic
                | HotOwn c \<Rightarrow> Fine (hot_set (s\<lparr>ostack := tl (ostack s)\<rparr>) slot h (hd (ostack s))))
          else exec E (StoreLocal slot) s)"
| "step E (IncLocalNoPush slot) s =
     (case hot_locals s slot of
        None \<Rightarrow> exec E (IncLocalNoPush slot) s
      | Some h \<Rightarrow>
          (case hot_get s slot h of
             Fine (Some (VInt n)) \<Rightarrow>
               if n \<noteq> word_of_int i64_max then Fine (hot_set s slot h (VInt (n + 1)))
               else exec E (IncLocalNoPush slot) s
           | Fine _ \<Rightarrow> exec E (IncLocalNoPush slot) s
           | _ \<Rightarrow> Panic))"
| "step E Pop s = Fine (s\<lparr>ostack := tl (ostack s)\<rparr>)"
| "step E (Jump off) s =
     (case ufs s of
        [] \<Rightarrow> exec E (Jump off) s
      | f # fs \<Rightarrow> Fine (s\<lparr>ufs := f\<lparr>uf_ip := jump_target f off\<rparr> # fs\<rparr>))"
| "step E (JumpIfFalse off) s =
     (case ostack s of
        [] \<Rightarrow> exec E (JumpIfFalse off) s
      | v # vs \<Rightarrow>
          let s = s\<lparr>ostack := vs\<rparr>
          in if is_truthy v then Fine s
             else case ufs s of
                    [] \<Rightarrow> exec E (JumpIfFalse off) s
                  | f # fs \<Rightarrow> Fine (s\<lparr>ufs := f\<lparr>uf_ip := jump_target f off\<rparr> # fs\<rparr>))"
| "step E (Invoke (BinOpInt k n)) s =
     (case ostack s of
        VInt x # vs \<Rightarrow>
          if (k = Div \<or> k = Mod) \<and> n = 0 then exec E (Invoke (BinOpInt k n)) s
          else (case apply_int k x n of
                  None \<Rightarrow> exec E (Invoke (BinOpInt k n)) s
                | Some v \<Rightarrow> Fine (s\<lparr>ostack := v # vs\<rparr>))
      | _ \<Rightarrow> exec E (Invoke (BinOpInt k n)) s)"
| "step E (BinOpLocalLocal k a b) s =
     (case hot_locals s (min a b) of
        None \<Rightarrow> exec E (BinOpLocalLocal k a b) s
      | Some h \<Rightarrow>
          (case (hot_get s a h, hot_get s b h) of
             (Fine x, Fine y) \<Rightarrow>
               (case (x, y) of
                  (Some (VInt x), Some (VInt y)) \<Rightarrow>
                    if (k = Div \<or> k = Mod) \<and> y = 0 then exec E (BinOpLocalLocal k a b) s
                    else (case apply_int k x y of
                            None \<Rightarrow> exec E (BinOpLocalLocal k a b) s
                          | Some v \<Rightarrow> Fine (push_val v s))
                | _ \<Rightarrow> exec E (BinOpLocalLocal k a b) s)
           | _ \<Rightarrow> Panic))"
| "step E (Invoke (Call name argc)) s = apply_op E (Invoke (Call name argc)) s"
| "step E (Invoke (CallNoRecv name argc)) s = apply_op E (Invoke (CallNoRecv name argc)) s"
| "step E (LoadLocalCall slot name) s =
     hot_load E (LoadLocalCall slot name) slot (\<lambda>v. apply_op E (Invoke (Call name 0)) (push_val v s)) s"
| "step E i s = exec E i s"

section \<open>The hot path agrees\<close>

lemma hot_local:
  assumes "top_frame s = Some f" and "hot_locals s slot = Some h"
  shows "frame_local_get f s slot = (case hot_get s slot h of Fine v \<Rightarrow> v | _ \<Rightarrow> None)"
    and "hot_get s slot h \<noteq> Trapped t x"
    and "hot_get s slot h = Fine None \<Longrightarrow> \<exists>c. h = HotOwn c"
    and "hot_get s slot h = Fine (Some v') \<Longrightarrow> bind_exc slot v f s = Some (hot_set s slot h v)"
  using assms
  by (auto simp: hot_locals_def frame_local_get_def hot_get_def bind_exc_def hot_set_def outer_cell_for_def Let_def
      split: frame_locals.splits if_splits)

lemma hot_locals_min:
  assumes "hot_locals s (min a b) = Some h"
  shows "hot_locals s a = Some h" and "hot_locals s b = Some h"
  using assms by (auto simp: hot_locals_def split: option.splits frame_locals.splits if_splits)

lemma hot_load_exec:
  assumes "top_frame s = Some f"
    and "\<And>v. frame_local_get f s slot = Some v \<Longrightarrow> k v = exec E i s"
    and "frame_local_get f s slot = None \<Longrightarrow> exec E i s = Panic"
  shows "hot_load E i slot k s = exec E i s"
proof (cases "hot_locals s slot")
  case (Some h)
  note hot = hot_local [OF assms(1) Some]
  show ?thesis
    using hot(1,2) assms(2,3) Some by (auto simp: hot_load_def split: outcome.splits option.splits)
qed (simp add: hot_load_def)


lemma hot_store:
  assumes "top_frame s = Some f"
  shows "step E (StoreLocal slot) s = exec E (StoreLocal slot) s"
proof (cases "hot_locals s slot")
  case (Some h)
  show ?thesis
  proof (cases "ostack s")
    case (Cons v vs)
    let ?s = "s\<lparr>ostack := vs\<rparr>"
    have t: "top_frame ?s = Some f" "hot_locals ?s slot = Some h" "hot_get ?s slot h = hot_get s slot h"
      using assms Some by (simp_all add: top_frame_def hot_locals_def hot_get_def split: hot_locals.splits)
    note hot = hot_local [OF t(1,2)]
    show ?thesis
    proof (cases "hot_get s slot h")
      case Panic
      then obtain base where b: "h = HotArena base" "\<not> base + slot < length (arena s)"
        by (auto simp: hot_get_def split: hot_locals.splits if_splits)
      then have "uf_locals f = InArena base"
        using Some assms by (auto simp: hot_locals_def split: frame_locals.splits if_splits)
      then show ?thesis using Some Cons b t by (auto simp: op_store_local_def set_local_def bind_exc_def)
    next
      case (Fine r)
      then show ?thesis
        using Some Cons t hot(3) hot(4) [where v = v]
        by (cases r) (auto simp: op_store_local_def set_local_def hot_get_def split: hot_locals.splits if_splits)
    qed (use hot(2) t(3) in auto)
  qed (auto simp: Some)
qed simp

lemma hot_inc:
  assumes "top_frame s = Some f"
  shows "step E (IncLocalNoPush slot) s = exec E (IncLocalNoPush slot) s"
proof (cases "hot_locals s slot")
  case (Some h)
  note hot = hot_local [OF assms Some]
  show ?thesis
  proof (cases "hot_get s slot h")
    case Panic
    then have "frame_local_get f s slot = None" "\<exists>b. uf_locals f = InArena b"
      using hot(1) Some assms by (auto simp: hot_get_def hot_locals_def split: hot_locals.splits frame_locals.splits if_splits)
    then show ?thesis using Some Panic assms by (simp add: op_inc_local_def)
  next
    case (Fine r)
    then show ?thesis
      using Some assms hot(1) hot(4)
      by (cases r) (auto simp: op_inc_local_def set_local_def split: rvalue.splits)
  qed (use hot(2) in auto)
qed simp

lemma hot_binop:
  assumes "top_frame s = Some f"
  shows "step E (BinOpLocalLocal k a b) s = exec E (BinOpLocalLocal k a b) s"
proof (cases "hot_locals s (min a b)")
  case (Some h)
  note ha = hot_locals_min(1) [OF Some] and hb = hot_locals_min(2) [OF Some]
  show ?thesis
    using Some assms hot_local(1,2) [OF assms ha] hot_local(1,2) [OF assms hb]
    by (auto simp: op_binop_local_local_def binop_values_def int_arm_def is_str_def push_val_def
        split: outcome.splits option.splits rvalue.splits)
qed simp

text \<open>C40. The fast front of the dispatch loop agrees with the full instruction: for every instruction
  and every machine with a frame, \<open>step\<close>, with its direct access to the arena or to the own cell of the
  top frame, its own integer arithmetic and its own jumps, has exactly the outcome of \<open>step_cold\<close>,
  including the cases it must hand over (captured locals, the largest integer, a division by zero,
  an overflow, other values) and the panics.\<close>

theorem hot_path:
  assumes "ufs s \<noteq> []"
  shows "step E i s = exec E i s"
proof -
  obtain f fs where u: "ufs s = f # fs" using assms by (cases "ufs s") auto
  then have f: "top_frame s = Some f" by (simp add: top_frame_def)
  show ?thesis
  proof (cases "(E, i, s)" rule: step.cases)
    case (3 E' slot s')
    then show ?thesis
      using f hot_load_exec [of s f slot "\<lambda>v. Fine (push_val v s)" E "LoadLocal slot"] by (simp add: op_load_local_def)
  next
    case (4 E' slot s')
    then show ?thesis using f hot_store by auto
  next
    case (5 E' slot s')
    then show ?thesis using f hot_inc by auto
  next
    case (10 E' k a b s')
    then show ?thesis using f hot_binop by auto
  next
    case (13 E' slot name s')
    then show ?thesis
      using f hot_load_exec [of s f slot "\<lambda>v. apply_op E (Invoke (Call name 0)) (push_val v s)" E "LoadLocalCall slot name"]
      by (simp add: op_load_local_def)
  qed (use u in \<open>auto simp: op_jump_def op_jump_if_false_def op_binop_int_def int_arm_def is_str_def Let_def
     split: list.splits rvalue.splits option.splits\<close>)
qed

text \<open>Surroundings in which every dispatching instruction answers \<open>nil\<close>, and a frame with two locals.\<close>

definition bare_ienv :: ienv where
  "bare_ienv = \<lparr>ie_unwind = bare_env, ie_code = (\<lambda>_. []), ie_sym = length,
     ie_apply = (\<lambda>_ _ st. (Inl VNil, st_world st, st_heap st)),
     ie_str_singleton = (\<lambda>_. False), ie_class_tag = (\<lambda>_. False),
     ie_primitive = (\<lambda>_ _ _ st. (None, st_world st, st_heap st)),
     ie_sym_primitive = (\<lambda>_ _ _ st. (None, st_world st, st_heap st)),
     ie_bigint_arith = (\<lambda>_ _ _ st. (Inl VNil, st_world st, st_heap st)),
     ie_zero_division = (\<lambda>st. (VNil, st_world st, st_heap st)), ie_unhandled = VNil, ie_given = (\<lambda>_. False),
     ie_kw_given = (\<lambda>_. False), ie_owner = (\<lambda>_. None), ie_jump_error = VNil\<rparr>"

definition two_locals :: uvm where
  "two_locals = new_uvm\<lparr>ufs := [new_frame False 0], arena := [VInt 7, VInt 2]\<rparr>"

theorem hot_path_witness:
  "step bare_ienv (BinOpLocalLocal Sub 0 1) two_locals = Fine (two_locals\<lparr>ostack := [VInt 5]\<rparr>)"
  by (subst hot_path)
    (simp_all add: two_locals_def new_uvm_def new_frame_def op_binop_local_local_def top_frame_def frame_local_get_def
      binop_values_def int_arm_def is_str_def push_val_def apply_int_def checked_i64_def fits_i64_iff)

end
