(* ===== verification/Code_Types.thy ===== *)
theory Code_Types
  imports Compile_Model
begin

text \<open>
  What the interpreter takes for granted of compiled code: every jump and every handler lands on an
  instruction, every slot is one of the frame, and the code ends with a return, so that no instruction
  runs off its end. Code is built with jumps whose target is filled in later; a placeholder falls on
  the next instruction and is in range at every moment, so the discipline is an invariant of the builder.
\<close>

section \<open>Typed code\<close>

fun jump_offset :: "instr \<Rightarrow> int option" where
  "jump_offset (Jump off) = Some off"
| "jump_offset (JumpIfFalse off) = Some off"
| "jump_offset (JumpIfArgGiven _ off) = Some off"
| "jump_offset (JumpIfKwArgGiven _ off) = Some off"
| "jump_offset (BreakLoop off) = Some off"
| "jump_offset (NextLoop off) = Some off"
| "jump_offset (PushRescue off _ _ _) = Some off"
| "jump_offset (PushRescueSplatLocal off _ _ _) = Some off"
| "jump_offset (PushEnsure off) = Some off"
| "jump_offset _ = None"

fun local_slots :: "instr \<Rightarrow> nat list" where
  "local_slots (LoadLocal s) = [s]"
| "local_slots (StoreLocal s) = [s]"
| "local_slots (IncLocal s) = [s]"
| "local_slots (IncLocalNoPush s) = [s]"
| "local_slots (BinOpLocalLocal _ a b) = [a, b]"
| "local_slots (LoadLocalCall s _) = [s]"
| "local_slots (PushRescue _ s bind _) = (if bind then [s] else [])"
| "local_slots (PushRescueSplatLocal _ s bind src) = src # (if bind then [s] else [])"
| "local_slots _ = []"

text \<open>An instruction at address \<open>p\<close>, in a frame with \<open>n\<close> locals, that jumps to an address up to \<open>m\<close>.\<close>

definition instr_ok :: "nat \<Rightarrow> nat \<Rightarrow> nat \<Rightarrow> instr \<Rightarrow> bool" where
  "instr_ok n m p i \<longleftrightarrow>
     list_all (\<lambda>s. s < n) (local_slots i) \<and>
     (case jump_offset i of None \<Rightarrow> True | Some off \<Rightarrow> 0 \<le> int p + 1 + off \<and> int p + 1 + off \<le> int m)"

definition code_in :: "nat \<Rightarrow> nat \<Rightarrow> instr list \<Rightarrow> bool" where
  "code_in n m C \<longleftrightarrow> list_all (\<lambda>(p, i). instr_ok n m p i) (enumerate 0 C)"

definition typed_code :: "nat \<Rightarrow> instr list \<Rightarrow> bool" where
  "typed_code n C \<longleftrightarrow> C \<noteq> [] \<and> last C = Return \<and> code_in n (length C - 1) C"

lemma code_in_iff: "code_in n m C \<longleftrightarrow> (\<forall>p<length C. instr_ok n m p (C ! p))"
  by (auto simp: code_in_def list_all_iff in_set_enumerate_eq)

lemma instr_ok_mono: "instr_ok n m p i \<Longrightarrow> n \<le> n' \<Longrightarrow> m \<le> m' \<Longrightarrow> instr_ok n' m' p i"
  by (fastforce simp: instr_ok_def list_all_iff split: option.splits)

lemma code_in_mono: "code_in n m C \<Longrightarrow> n \<le> n' \<Longrightarrow> m \<le> m' \<Longrightarrow> code_in n' m' C"
  using instr_ok_mono by (auto simp: code_in_iff)

lemma code_in_snoc: "code_in n m (C @ [i]) \<longleftrightarrow> code_in n m C \<and> instr_ok n m (length C) i"
  by (auto simp: code_in_iff nth_append less_Suc_eq)

lemma retarget_ok:
  "instr_ok n m p i \<Longrightarrow> t \<le> m \<Longrightarrow> instr_ok n m p (retarget (int t - int p - 1) i)"
  by (cases i) (auto simp: instr_ok_def)

section \<open>The builder\<close>

text \<open>The targets and slots a builder hands to the arms; no arm changes them for what follows.\<close>

definition context_part :: "builder \<Rightarrow> builder" where
  "context_part b = b\<lparr>code := [], locals := Map.empty, n_locals := 0, loop_break_jumps := [], loop_next_jumps := [],
     loop_redo_jumps := [], n_kw_calls := 0\<rparr>"

text \<open>The slots of the parameters, which \<open>super\<close> reads.\<close>

definition params_in :: "nat \<Rightarrow> builder \<Rightarrow> bool" where
  "params_in n b \<longleftrightarrow>
     method_param_count b \<le> n \<and> method_n_positional b \<le> n \<and>
     (\<forall>s. method_rest_slot b = Some s \<longrightarrow> s < n) \<and> (\<forall>s. method_block_slot b = Some s \<longrightarrow> s < n) \<and>
     (\<forall>s. method_kw_rest_slot b = Some s \<longrightarrow> s < n) \<and> (\<forall>(k, s)\<in>set (method_kw_params b). s < n)"

definition valid :: "builder \<Rightarrow> bool" where
  "valid b \<longleftrightarrow>
     code_in (n_locals b) (pos b) (code b) \<and> (\<forall>s\<in>ran (locals b). s < n_locals b) \<and>
     (\<forall>t\<in>set (retry_targets b). t \<le> pos b) \<and> (\<forall>t. block_redo_target b = Some t \<longrightarrow> t \<le> pos b) \<and>
     params_in (n_locals b) b"

text \<open>From one builder to a later one, and what preserves validity.\<close>

definition leads :: "builder \<Rightarrow> builder \<Rightarrow> bool" where
  "leads b b' \<longleftrightarrow> valid b' \<and> pos b \<le> pos b' \<and> n_locals b \<le> n_locals b' \<and> context_part b' = context_part b"

definition sound :: "(builder \<Rightarrow> builder) \<Rightarrow> bool" where
  "sound f \<longleftrightarrow> (\<forall>b. valid b \<longrightarrow> leads b (f b))"

lemma context_sel:
  assumes "context_part b' = context_part b"
  shows "retry_targets b' = retry_targets b" "block_redo_target b' = block_redo_target b"
    "method_param_count b' = method_param_count b" "method_n_positional b' = method_n_positional b"
    "method_rest_slot b' = method_rest_slot b" "method_block_slot b' = method_block_slot b"
    "method_kw_rest_slot b' = method_kw_rest_slot b" "method_kw_params b' = method_kw_params b"
  using arg_cong [OF assms, of retry_targets] arg_cong [OF assms, of block_redo_target]
    arg_cong [OF assms, of method_param_count] arg_cong [OF assms, of method_n_positional]
    arg_cong [OF assms, of method_rest_slot] arg_cong [OF assms, of method_block_slot]
    arg_cong [OF assms, of method_kw_rest_slot] arg_cong [OF assms, of method_kw_params]
  by (simp_all add: context_part_def)

lemma leads_refl: "valid b \<Longrightarrow> leads b b"
  by (simp add: leads_def)

lemma leads_valid: "leads b b' \<Longrightarrow> valid b'"
  by (simp add: leads_def)

lemma leads_pos: "leads b b' \<Longrightarrow> pos b \<le> pos b'"
  by (simp add: leads_def)

lemma leads_trans [trans]: "leads a b \<Longrightarrow> leads b c \<Longrightarrow> leads a c"
  by (auto simp: leads_def)

lemma sound_leads: "sound f \<Longrightarrow> leads a b \<Longrightarrow> leads a (f b)"
  using leads_trans by (auto simp: sound_def leads_def)

lemma sound_pos: "sound f \<Longrightarrow> valid b \<Longrightarrow> pos b \<le> pos (f b)"
  by (simp add: sound_def leads_def)

lemma sound_id [simp]: "sound (\<lambda>b. b)"
  by (simp add: sound_def leads_refl)

lemma pos_simps [simp]:
  "pos (emit i b) = Suc (pos b)" "pos (emits is b) = pos b + length is" "pos (patch_jump j t b) = pos b"
  "n_locals (emit i b) = n_locals b" "n_locals (emits is b) = n_locals b" "n_locals (patch_jump j t b) = n_locals b"
  by (simp_all add: pos_def emit_def emits_def patch_jump_def)

text \<open>A change of fields that no condition reads.\<close>

lemma leads_same:
  assumes "leads a b" and "code b' = code b" and "locals b' = locals b" and "n_locals b' = n_locals b"
    and "context_part b' = context_part b"
  shows "leads a b'"
  using assms context_sel [OF assms(5)] by (auto simp: leads_def valid_def params_in_def pos_def)

lemma leads_emit:
  assumes "leads a b" and "instr_ok (n_locals b) (Suc (pos b)) (pos b) i"
  shows "leads a (emit i b)"
proof -
  have "code_in (n_locals b) (Suc (pos b)) (code b)"
    using assms(1) by (auto simp: leads_def valid_def intro: code_in_mono)
  then show ?thesis
    using assms by (auto simp: leads_def valid_def params_in_def emit_def pos_def code_in_snoc context_part_def)
qed

text \<open>Instructions without slots and with placeholders.\<close>

definition inert :: "instr \<Rightarrow> bool" where
  "inert i \<longleftrightarrow> local_slots i = [] \<and> (jump_offset i = None \<or> jump_offset i = Some 0)"

lemma inert_ok: "inert i \<Longrightarrow> instr_ok n (Suc p) p i"
  by (auto simp: inert_def instr_ok_def)

lemma leads_inert: "leads a b \<Longrightarrow> inert i \<Longrightarrow> leads a (emit i b)"
  by (simp add: leads_emit inert_ok)

lemma emits_Cons: "emits (i # is) b = emits is (emit i b)"
  by (simp add: emits_def emit_def)

lemma emits_Nil [simp]: "emits [] b = b"
  by (simp add: emits_def)

lemma leads_emits:
  "leads a b \<Longrightarrow> list_all (\<lambda>i. local_slots i = [] \<and> jump_offset i = None) is \<Longrightarrow> leads a (emits is b)"
proof (induction "is" arbitrary: b)
  case (Cons i "is")
  then show ?case using leads_inert [of a b i] by (simp add: emits_Cons inert_def)
qed simp

lemma leads_patch:
  assumes "leads a b" and "t \<le> pos b"
  shows "leads a (patch_jump j t b)"
proof -
  have "instr_ok (n_locals b) (pos b) p ((code b)[j := retarget (int t - int j - 1) (code b ! j)] ! p)"
    if "p < length (code b)" for p
    using assms that by (cases "p = j") (simp_all add: leads_def valid_def code_in_iff retarget_ok)
  then show ?thesis
    using assms by (simp add: leads_def valid_def params_in_def patch_jump_def pos_def context_part_def code_in_iff)
qed

lemma leads_patch_all: "leads a b \<Longrightarrow> t \<le> pos b \<Longrightarrow> leads a (patch_all js t b) \<and> pos (patch_all js t b) = pos b"
  by (induction js arbitrary: b) (auto simp: patch_all_def leads_patch)

lemma leads_define:
  assumes "leads a b"
  shows "leads a (snd (define_local_slot n b))"
proof -
  have "code_in (Suc (n_locals b)) (pos b) (code b)"
    using assms by (auto simp: leads_def valid_def intro: code_in_mono)
  moreover have "\<forall>s\<in>ran ((locals b)(n \<mapsto> n_locals b)). s < Suc (n_locals b)"
    using assms by (auto simp: leads_def valid_def ran_def less_SucI)
  moreover have "params_in (Suc (n_locals b)) b"
    using assms by (fastforce simp: leads_def valid_def params_in_def)
  ultimately show ?thesis
    using assms by (simp add: leads_def valid_def define_local_slot_def pos_def context_part_def params_in_def)
qed

lemma leads_slot:
  assumes "leads a b" and "local_slot n b = (s, b')"
  shows "leads a b'" and "s < n_locals b'" and "pos b' = pos b" and "n_locals b \<le> n_locals b'"
proof -
  show "leads a b'"
    using assms leads_define [OF assms(1), of n] by (auto simp: local_slot_def split: option.splits)
  show "s < n_locals b'"
    using assms by (auto simp: local_slot_def define_local_slot_def leads_def valid_def ran_def split: option.splits)
qed (use assms in \<open>auto simp: local_slot_def define_local_slot_def pos_def split: option.splits\<close>)

end
