(* ===== verification/Code_Sound.thy ===== *)
theory Code_Sound
  imports Code_Types
begin

text \<open>Every arm of the compiler builds typed code.\<close>

section \<open>Lists of expressions\<close>

lemma leads_plain: "leads a b \<Longrightarrow> leads a (emit (Plain p) b)"
  and leads_invoke: "leads a b \<Longrightarrow> leads a (emit (Invoke d) b)"
  by (simp_all add: leads_inert inert_def)

lemma leads_local: "leads a b \<Longrightarrow> local_slots i = [s] \<Longrightarrow> jump_offset i = None \<Longrightarrow> s < n_locals b \<Longrightarrow> leads a (emit i b)"
  by (rule leads_emit) (simp_all add: instr_ok_def)

lemmas leads_intros = leads_plain leads_invoke leads_inert

definition sounds :: "(emode \<Rightarrow> builder \<Rightarrow> builder) \<Rightarrow> bool" where
  "sounds f \<longleftrightarrow> (\<forall>m. sound (f m))"

lemma sounds_leads: "sounds f \<Longrightarrow> leads a b \<Longrightarrow> leads a (f m b)"
  by (simp add: sounds_def sound_leads)

lemma leads_list: "list_all sounds fs \<Longrightarrow> leads a b \<Longrightarrow> leads a (compiled_list fs m b)"
proof (induction fs m b rule: compiled_list.induct)
  case (2 f fs m b)
  then have f: "leads a (f m' b)" for m' by (simp add: sounds_leads)
  show ?case using 2 f by (cases m) auto
qed (simp add: leads_plain)

lemma leads_opt: "pred_option sounds fo \<Longrightarrow> leads a b \<Longrightarrow> leads a (compiled_opt fo b)"
  by (auto simp: compiled_opt_def sounds_leads split: option.splits)

lemma interp_part_plain: "list_all (\<lambda>i. local_slots i = [] \<and> jump_offset i = None) (interp_part k lit)"
  by (simp add: interp_part_def)

lemma leads_parts: "list_all sounds fs \<Longrightarrow> leads a b \<Longrightarrow> leads a (compiled_parts k lits fs b)"
  by (induction k lits fs b rule: compiled_parts.induct) (simp_all add: leads_emits interp_part_plain sounds_leads)

lemma leads_pairs:
  "list_all (\<lambda>(k, v). sounds k \<and> sounds v) ps \<Longrightarrow> leads a b \<Longrightarrow> leads a (compiled_pairs vals ps b)"
  by (induction vals ps b rule: compiled_pairs.induct) (simp_all add: sounds_leads)

section \<open>Leaves\<close>

lemma leads_reserve:
  assumes "leads a b"
  shows "leads a (reserve_block blk b)"
proof -
  have "code_in (n_locals b + block_slots blk) (pos b) (code b)"
    using assms by (auto simp: leads_def valid_def intro: code_in_mono)
  moreover have "params_in (n_locals b + block_slots blk) b"
    using assms by (fastforce simp: leads_def valid_def params_in_def)
  ultimately show ?thesis
    using assms by (simp add: leads_def valid_def reserve_block_def pos_def context_part_def params_in_def trans_less_add1)
qed

lemma leads_const:
  assumes "leads a b"
  shows "leads a (emit_const_read n b)" and "leads a (emit_const_read_or_nil n b)"
    and "leads a (emit_const_owner_read n absolute b)" and "leads a (emit_const_store n absolute b)"
proof -
  show r: "leads a (emit_const_read n b)" for n
    using assms by (simp add: emit_const_read_def leads_plain split: option.split)
  show "leads a (emit_const_read_or_nil n b)"
    using assms by (simp add: emit_const_read_or_nil_def leads_plain split: option.split)
  show "leads a (emit_const_owner_read n absolute b)"
    using assms r by (simp add: emit_const_owner_read_def leads_inert inert_def split: option.split)
  show "leads a (emit_const_store n absolute b)"
    using assms by (simp add: emit_const_store_def Let_def leads_plain leads_inert inert_def split: option.split)
qed

lemma leads_atom: "leads a b \<Longrightarrow> leads a (compile_atom x b)"
  by (cases x) (simp_all add: leads_intros leads_const leads_reserve)

section \<open>super\<close>

text \<open>Instructions that only read the slots of parameters; the one jump of \<open>super\<close> stays inside its sequence.\<close>

definition reads_below :: "nat \<Rightarrow> instr list \<Rightarrow> bool" where
  "reads_below n is \<longleftrightarrow> list_all (\<lambda>i. jump_offset i = None \<and> list_all (\<lambda>s. s < n) (local_slots i)) is"

lemma reads_below_simps [simp]:
  "reads_below n []" "reads_below n (i # is) \<longleftrightarrow> jump_offset i = None \<and> list_all (\<lambda>s. s < n) (local_slots i) \<and> reads_below n is"
  "reads_below n (is @ js) \<longleftrightarrow> reads_below n is \<and> reads_below n js"
  by (auto simp: reads_below_def)

lemma reads_load_slots [simp]: "reads_below n (load_slots k) \<longleftrightarrow> k \<le> n"
  by (cases k) (fastforce simp: reads_below_def load_slots_def list_all_iff)+

lemma leads_reads: "leads a b \<Longrightarrow> reads_below (n_locals b) is \<Longrightarrow> leads a (emits is b)"
proof (induction "is" arbitrary: b)
  case (Cons i "is")
  have "leads a (emit i b)" using Cons.prems by (intro leads_emit) (auto simp: instr_ok_def)
  then show ?case using Cons by (simp add: emits_Cons)
qed simp

lemma emits_append: "emits (is @ js) b = emits js (emits is b)"
  by (simp add: emits_def)

lemma super_reads:
  assumes "params_in n b"
  shows "reads_below n (block_slot_load b)" and "reads_below n (super_kwargs b)"
    and "method_rest_slot b = Some rs \<Longrightarrow> reads_below n (super_forward_array rs)"
proof -
  show "reads_below n (super_kwargs b)"
    using assms by (auto simp: params_in_def super_kwargs_def reads_below_def list_all_iff split: option.splits)
qed (use assms in \<open>auto simp: params_in_def block_slot_load_def super_forward_array_def split: option.splits\<close>)

text \<open>A sequence whose jumps stay inside it.\<close>

lemma leads_sequence:
  assumes "leads a b" and "list_all (\<lambda>(k, i). instr_ok (n_locals b) (pos b + length is) (pos b + k) i) (enumerate 0 is)"
  shows "leads a (emits is b)"
proof -
  have "code_in (n_locals b) (pos b + length is) (code b)"
    using assms(1) by (auto simp: leads_def valid_def intro: code_in_mono)
  moreover have "instr_ok (n_locals b) (pos b + length is) (pos b + k) (is ! k)" if "k < length is" for k
    using assms(2) that by (auto simp: list_all_iff in_set_enumerate_eq)
  ultimately have "code_in (n_locals b) (pos b + length is) (code b @ is)"
    by (auto simp: code_in_iff nth_append pos_def) (metis le_add_diff_inverse less_diff_conv2 not_less add.commute)
  then show ?thesis
    using assms(1) by (auto simp: leads_def valid_def params_in_def emits_def pos_def context_part_def)
qed

lemma params_valid: "leads a b \<Longrightarrow> params_in (n_locals b) b"
  by (simp add: leads_def valid_def)

lemma leads_bare_super:
  assumes "leads a b"
  shows "leads a (emits (bare_super b) b)"
proof -
  note p = params_valid [OF assms]
  have c: "method_param_count b \<le> n_locals b" "method_n_positional b \<le> n_locals b"
    using p by (simp_all add: params_in_def)
  let ?tail = "[Dup, Invoke (Call ''empty?'' 0), JumpIfFalse 2, Pop, Jump 2, Plain (NewArray 1), Invoke (Call ''+'' 1), super_apply b]"
  have t: "leads a (emits (is @ ?tail) b)" if "reads_below (n_locals b) is" for "is"
    unfolding emits_append
    by (rule leads_sequence) (use leads_reads [OF assms that] in \<open>simp_all add: instr_ok_def super_apply_def\<close>)
  have q: "reads_below (n_locals b) [super_apply b]" by (simp add: super_apply_def)
  let ?guard = "if is_method_body b then [] else [Invoke ImplicitSuperGuard]"
  have g: "reads_below (n_locals b) ?guard" by simp
  show ?thesis
  proof (cases "method_has_kw b \<and> method_rest_slot b \<noteq> None \<and> method_n_post_rest b = 0")
    case True
    then obtain rs where rs: "method_rest_slot b = Some rs" by auto
    have "bare_super b = (?guard @ block_slot_load b @ super_forward_array rs @ super_kwargs b) @ ?tail"
      using True rs by (simp add: bare_super_def simple_super_def)
    then show ?thesis
      using t [of "?guard @ block_slot_load b @ super_forward_array rs @ super_kwargs b"] g super_reads [OF p] rs
      by (simp del: if_split)
  next
    case False
    then have "reads_below (n_locals b) (bare_super b)"
      using c q g super_reads [OF p] by (auto simp: bare_super_def Let_def super_apply_def)
    then show ?thesis by (rule leads_reads [OF assms])
  qed
qed

lemma leads_super_block_args:
  assumes "leads a b"
  shows "leads a (emits (super_block_args b) b)"
  using super_reads(3) [OF params_valid [OF assms]] params_valid [OF assms]
  by (intro leads_reads assms) (auto simp: super_block_args_def Let_def params_in_def)

end
