(* ===== verification/Code_Arms.thy ===== *)
theory Code_Arms
  imports Code_Sound
begin

text \<open>The arms with jumps, and the calls.\<close>

section \<open>Branches and loops\<close>

lemma soundD: "sound f \<Longrightarrow> leads a b \<Longrightarrow> leads a (f b)"
  by (rule sound_leads)

lemma leads_jumps: "leads a b \<Longrightarrow> leads a (emit (Jump 0) b)" "leads a b \<Longrightarrow> leads a (emit (JumpIfFalse 0) b)"
  "leads a b \<Longrightarrow> leads a (emit Dup b)" "leads a b \<Longrightarrow> leads a (emit Pop b)"
  by (simp_all add: leads_inert inert_def)

text \<open>A patch of a jump to the end.\<close>

lemma leads_label: "leads a b \<Longrightarrow> leads a (patch_jump j (pos b) b)"
  by (simp add: leads_patch)

lemma sound_if_arm: "sound c \<Longrightarrow> sound t \<Longrightarrow> sound e \<Longrightarrow> sound (if_arm c t e)"
  unfolding sound_def [of "if_arm c t e"] if_arm_def Let_def
  by (intro allI impI leads_label leads_jumps soundD [of e] soundD [of t] soundD [of c] leads_refl)
    (assumption | rule leads_jumps soundD leads_refl)+

lemma sound_or_arm: "sound l \<Longrightarrow> sound r \<Longrightarrow> sound (or_arm l r)"
  unfolding sound_def [of "or_arm l r"] or_arm_def Let_def
  by (intro allI impI leads_label leads_jumps soundD [of r] soundD [of l] leads_refl)

lemma sound_and_arm: "sound l \<Longrightarrow> sound r \<Longrightarrow> sound (and_arm l r)"
  unfolding sound_def [of "and_arm l r"] and_arm_def Let_def
  by (intro allI impI leads_label leads_jumps soundD [of r] soundD [of l] leads_refl)

lemma leads_open_loop: "leads a b \<Longrightarrow> leads a (open_loop b)"
  unfolding open_loop_def
  by (rule leads_same [of a "emit EnterLoop b"]) (simp_all add: leads_inert inert_def context_part_def)

lemma leads_close_loop:
  assumes "leads a b" and "r \<le> pos b" and "c \<le> pos b"
  shows "leads a (close_loop r c b)"
proof -
  define b1 where "b1 = (patch_all (hd (loop_redo_jumps b)) r b)\<lparr>loop_redo_jumps := tl (loop_redo_jumps b)\<rparr>"
  define b2 where "b2 = (patch_all (hd (loop_next_jumps b1)) c b1)\<lparr>loop_next_jumps := tl (loop_next_jumps b1)\<rparr>"
  define b3 where "b3 = (patch_all (hd (loop_break_jumps b2)) (pos b2) b2)\<lparr>loop_break_jumps := tl (loop_break_jumps b2)\<rparr>"
  have b1: "leads a b1" "pos b1 = pos b"
    using leads_patch_all [OF assms(1,2), of "hd (loop_redo_jumps b)"]
    by (auto simp: b1_def pos_def context_part_def intro: leads_same)
  have b2: "leads a b2" "pos b2 = pos b"
    using leads_patch_all [OF b1(1), of c "hd (loop_next_jumps b1)"] b1(2) assms(3)
    by (auto simp: b2_def pos_def context_part_def intro: leads_same)
  have "leads a b3"
    using leads_patch_all [OF b2(1), of "pos b2" "hd (loop_break_jumps b2)"]
    by (auto simp: b3_def pos_def context_part_def intro: leads_same)
  then show ?thesis by (simp add: close_loop_def Let_def b1_def b2_def b3_def leads_inert inert_def)
qed

lemma sound_while_arm:
  assumes c: "sound c" and d: "sound d"
  shows "sound (while_arm post c d)"
  unfolding sound_def
proof (intro allI impI)
  fix b assume "valid b"
  then have o: "leads b (open_loop b)" by (simp add: leads_open_loop leads_refl)
  show "leads b (while_arm post c d b)"
  proof (cases post)
    case True
    define b1 where "b1 = d (open_loop b)"
    define b2 where "b2 = emit (Jump 0) (emit (JumpIfFalse 0) (c b1))"
    have b1: "leads (open_loop b) b1" using soundD [OF d leads_refl [OF leads_valid [OF o]]] by (simp add: b1_def)
    have b2: "leads b1 b2" using soundD [OF c leads_refl [OF leads_valid [OF b1]]] by (simp add: b2_def leads_jumps)
    have p: "pos (open_loop b) \<le> pos b1" "pos b1 \<le> pos b2" using b1 b2 by (simp_all add: leads_pos)
    have q: "pos b2 = Suc (Suc (pos (c b1)))" by (simp add: b2_def)
    have "leads b b2" using o b1 b2 by (blast intro: leads_trans)
    then show ?thesis
      using True p q
      by (simp add: while_arm_def Let_def b1_def [symmetric] b2_def [symmetric] leads_close_loop leads_plain leads_patch)
  next
    case False
    define b1 where "b1 = emit (JumpIfFalse 0) (c (open_loop b))"
    define b2 where "b2 = emit (Jump 0) (d b1)"
    have b1: "leads (open_loop b) b1"
      using soundD [OF c leads_refl [OF leads_valid [OF o]]] by (simp add: b1_def leads_jumps)
    have b2: "leads b1 b2" using soundD [OF d leads_refl [OF leads_valid [OF b1]]] by (simp add: b2_def leads_jumps)
    have p: "pos (open_loop b) \<le> pos b1" "pos b1 \<le> pos b2" using b1 b2 by (simp_all add: leads_pos)
    have q: "pos b1 = Suc (pos (c (open_loop b)))" "pos b2 = Suc (pos (d b1))" by (simp_all add: b1_def b2_def)
    have "leads b b2" using o b1 b2 by (blast intro: leads_trans)
    then show ?thesis
      using False p q
      by (simp add: while_arm_def Let_def b1_def [symmetric] b2_def [symmetric] leads_close_loop leads_plain leads_patch)
  qed
qed

section \<open>begin\<close>

lemma push_class_leads:
  assumes "leads a b" and "bind \<longrightarrow> slot < n_locals b" and "push_class slot bind n (grp, b) = (grp', b')"
  shows "leads a b'" and "n_locals b \<le> n_locals b'"
proof -
  have p: "leads a (emit (PushRescue 0 slot bind n) b)"
    using assms(1,2) by (auto intro!: leads_emit simp: instr_ok_def)
  have s: "leads a (emit (PushRescueSplatLocal 0 slot bind src) b1) \<and> n_locals b \<le> n_locals b1"
    if "local_slot l b = (src, b1)" for l src b1
    using leads_slot [OF assms(1) that] assms(2) by (auto intro!: leads_emit simp: instr_ok_def)
  show "leads a b'" "n_locals b \<le> n_locals b'"
    using assms(3) p s by (auto simp: push_class_def split: option.splits prod.splits)
qed

lemma push_classes_leads:
  "leads a b \<Longrightarrow> bind \<longrightarrow> slot < n_locals b \<Longrightarrow> fold (push_class slot bind) ns (grp, b) = (grp', b') \<Longrightarrow> leads a b'"
proof (induction ns arbitrary: grp b)
  case (Cons n ns)
  obtain g b1 where p: "push_class slot bind n (grp, b) = (g, b1)" by fastforce
  show ?case
    using Cons.IH [of b1 g] Cons.prems push_class_leads [OF Cons.prems(1,2) p] p by auto
qed simp

lemma push_clause_leads:
  assumes "leads a b" and "push_clause c b = (g, b')"
  shows "leads a b'"
proof (cases c)
  case (Clause ns var body)
  obtain slot bind b1 where v:
    "(case var of Some n \<Rightarrow> (case local_slot n b of (s, b) \<Rightarrow> (s, True, b)) | None \<Rightarrow> (0, False, b)) = (slot, bind, b1)"
    using prod_cases3 by blast
  then have b1: "leads a b1 \<and> (bind \<longrightarrow> slot < n_locals b1)"
    using assms(1) leads_slot [OF assms(1)] by (auto split: option.splits prod.splits)
  then have "leads a (emit (PushRescue 0 slot bind n) b1)" for n
    by (auto intro!: leads_emit simp: instr_ok_def)
  then show ?thesis
    using assms(2) v b1 push_classes_leads [of a b1 bind slot "rev ns" "[]" g b'] Clause
    by (auto simp: push_clause_def split: if_splits)
qed

lemma push_clauses_leads: "leads a b \<Longrightarrow> push_clauses cs b = (gs, b') \<Longrightarrow> leads a b'"
  by (induction cs arbitrary: gs b') (auto split: prod.splits dest: push_clause_leads)

lemma handler_leads:
  assumes "leads a b" and "sound f" and "t \<le> pos b" and "handler_arm f t grp (js, b) = (js', b')"
  shows "leads a b'"
proof -
  define b1 where "b1 = emit TruncateRescuesToBeginBaseline (patch_all grp (pos b) b)"
  define b2 where "b2 = b1\<lparr>retry_targets := t # retry_targets b1\<rparr>"
  define b3 where "b3 = (f b2)\<lparr>retry_targets := tl (retry_targets (f b2))\<rparr>"
  have b1: "leads a b1" "pos b < pos b1"
    using leads_patch_all [OF assms(1), of "pos b" grp] by (auto simp: b1_def leads_inert inert_def)
  then have "valid b2" using assms(3) by (auto simp: b2_def valid_def leads_def params_in_def pos_def)
  then have f: "leads b2 (f b2)" using assms(2) by (simp add: sound_def)
  then have r: "retry_targets (f b2) = t # retry_targets b1" and c: "context_part (f b2) = context_part b2"
    using context_sel(1) [of "f b2" b2] by (simp_all add: leads_def b2_def)
  have b3: "b3 = (f b2)\<lparr>retry_targets := retry_targets b1\<rparr>" by (simp add: b3_def r)
  have "context_part b3 = (context_part b2)\<lparr>retry_targets := retry_targets b1\<rparr>"
    unfolding c [symmetric] by (simp add: b3 context_part_def)
  also have "\<dots> = context_part b1"
    by (cases b1) (simp add: b2_def context_part_def)
  finally have "context_part b3 = context_part b1" .
  moreover have "valid b3"
    using leads_valid [OF f] r by (simp add: b3 valid_def params_in_def pos_def)
  moreover have "pos b1 \<le> pos b3" "n_locals b1 \<le> n_locals b3"
    using f by (simp_all add: leads_def b3 b2_def pos_def)
  ultimately have "leads b1 b3" by (simp add: leads_def)
  then have "leads a b3" using b1(1) by (rule leads_trans [rotated])
  then show ?thesis
    using assms(4)
    by (auto simp: handler_arm_def Let_def b1_def [symmetric] b2_def [symmetric] b3_def [symmetric] leads_inert inert_def)
qed

lemma handlers_leads:
  "list_all sound fs \<Longrightarrow> valid b \<Longrightarrow> t \<le> pos b \<Longrightarrow> compiled_handlers fs t grps (js, b) = (js', b') \<Longrightarrow> leads b b'"
proof (induction fs arbitrary: grps js' b')
  case (Cons f fs)
  obtain js1 b1 where h: "compiled_handlers fs t (tl grps) (js, b) = (js1, b1)" by fastforce
  have b1: "leads b b1" using Cons.IH [of "tl grps" js1 b1] Cons.prems h by simp
  then have "t \<le> pos b1" using leads_pos Cons.prems(3) order_trans by blast
  then show ?case using handler_leads [OF b1, of f t "hd grps" js1 js' b'] Cons.prems h by simp
qed (simp add: leads_refl)

lemma sound_rescue_arm:
  assumes "sound d" and hs: "\<And>t grps js b js' b'. valid b \<Longrightarrow> t \<le> pos b \<Longrightarrow> hs t grps (js, b) = (js', b') \<Longrightarrow> leads b b'"
  shows "sound (rescue_arm cs d hs)"
  unfolding sound_def
proof (intro allI impI)
  fix b assume v: "valid b"
  define b0 where "b0 = emit EnterBegin b"
  have b0: "leads b b0" using v by (simp add: b0_def leads_inert inert_def leads_refl)
  obtain gs b1 where g: "push_clauses cs b0 = (gs, b1)" by fastforce
  have b1: "leads b0 b1" using push_clauses_leads [OF leads_refl g] b0 by (simp add: leads_valid)
  define b2 where "b2 = emit ExitBegin (emits (replicate (sum_list (List.map length gs)) PopRescue) (d b1))"
  have "leads b1 (d b1)" using assms(1) leads_refl [OF leads_valid [OF b1]] by (rule soundD)
  then have b2: "leads b1 (emit (Jump 0) b2)"
    by (simp add: b2_def leads_jumps leads_inert inert_def leads_emits list_all_iff)
  obtain js b3 where h: "hs (pos b0) gs ([pos b2], emit (Jump 0) b2) = (js, b3)" by fastforce
  have "pos b0 \<le> pos (emit (Jump 0) b2)" using leads_pos [OF b1] leads_pos [OF b2] by simp
  then have "leads (emit (Jump 0) b2) b3" using hs h leads_valid [OF b2] by blast
  then have "leads b b3" using b0 b1 b2 by (blast intro: leads_trans)
  moreover have "pos b2 = Suc (pos (d b1) + sum_list (List.map length gs))" by (simp add: b2_def)
  ultimately show "leads b (rescue_arm cs d hs b)"
    using leads_patch_all [of b b3 "pos b3" js] g h
    by (simp add: rescue_arm_def Let_def b0_def [symmetric] b2_def [symmetric])
qed

lemma sound_ensure_arm: "sound d \<Longrightarrow> sound e \<Longrightarrow> sound (ensure_arm d e)"
  unfolding sound_def [of "ensure_arm d e"] ensure_arm_def Let_def
  by (intro allI impI leads_label leads_jumps soundD [of e] soundD [of d] leads_inert leads_refl) (simp_all add: inert_def)

section \<open>Jumps out\<close>

lemma leads_hole:
  assumes "leads a b" and "code b' = code b" "locals b' = locals b" "n_locals b' = n_locals b" "context_part b' = context_part b"
  shows "leads a (emit_plain LoadNil b')"
  by (rule leads_plain [OF leads_same [OF assms]])

lemma sound_next_arm:
  assumes "sound v"
  shows "sound (next_arm has_val v)"
  unfolding sound_def
proof (intro allI impI)
  fix b assume "valid b"
  then have b: "leads b b" by (rule leads_refl)
  let ?b = "emit (NextLoop 0) (if has_val then emit Pop (v b) else b)"
  have "leads b ?b" using soundD [OF assms b] b by (simp add: leads_inert inert_def)
  then have "leads b (emit_plain LoadNil (?b\<lparr>loop_next_jumps := l\<rparr>))" for l
    by (rule leads_hole) (simp_all add: context_part_def)
  then show "leads b (next_arm has_val v b)"
    using soundD [OF assms b] b by (simp add: next_arm_def Let_def leads_intros inert_def)
qed

lemma sound_break_arm:
  assumes "sound v"
  shows "sound (break_arm has_val v)"
  unfolding sound_def
proof (intro allI impI)
  fix b assume "valid b"
  then have b: "leads b b" by (rule leads_refl)
  let ?v = "if has_val then v b else emit_plain LoadNil b"
  have v: "leads b ?v" using soundD [OF assms b] b by (simp add: leads_plain)
  then have "leads b (emit (BreakLoop 0) ?v)" by (simp add: leads_inert inert_def)
  then have "leads b (emit_plain LoadNil ((emit (BreakLoop 0) ?v)\<lparr>loop_break_jumps := l\<rparr>))" for l
    by (rule leads_hole) (simp_all add: context_part_def)
  moreover have "leads b (emit_plain LoadNil (emits [Break, Return] ?v))"
    using v by (simp add: leads_plain leads_emits)
  ultimately show "leads b (break_arm has_val v b)" by (simp add: break_arm_def Let_def)
qed

lemma leads_back:
  assumes "leads a b" and "t \<le> pos b"
  shows "leads a (emit (Jump (int t - int (pos b) - 1)) b)"
  using assms by (auto intro!: leads_emit simp: instr_ok_def)

lemma sound_retry_arm: "sound retry_arm"
  unfolding sound_def
proof (intro allI impI)
  fix b assume v: "valid b"
  let ?b = "emit TruncateRescuesToBeginBaseline b"
  have "leads b ?b" using v by (simp add: leads_inert inert_def leads_refl)
  then have "leads b (emit_plain LoadNil (emit (Jump (int t - int (pos ?b) - 1)) ?b))" if "t \<in> set (retry_targets b)" for t
    using v that by (intro leads_plain leads_back) (auto simp: valid_def)
  then show "leads b (retry_arm b)"
    using v by (auto simp: retry_arm_def Let_def emits_Cons leads_intros inert_def leads_refl split: list.split)
qed

lemma sound_redo_arm: "sound redo_arm"
  unfolding sound_def
proof (intro allI impI)
  fix b assume v: "valid b"
  have "leads b (emit (NextLoop 0) b)" using v by (simp add: leads_inert inert_def leads_refl)
  then have "leads b (emit_plain LoadNil ((emit (NextLoop 0) b)\<lparr>loop_redo_jumps := l\<rparr>))" for l
    by (rule leads_hole) (simp_all add: context_part_def)
  moreover have "leads b (emit (Jump (int t - int (pos b) - 1)) b)" if "block_redo_target b = Some t" for t
    using v that by (intro leads_back leads_refl) (auto simp: valid_def)
  ultimately show "leads b (redo_arm b)"
    using leads_emits [OF leads_refl [OF v]]
    by (auto simp: redo_arm_def Let_def leads_plain split: option.split)
qed

end
