(* ===== verification/Code_Calls.thy ===== *)
theory Code_Calls
  imports Code_Arms
begin

text \<open>The calls, and the compiler as a whole: compiled code is typed.\<close>

section \<open>Calls\<close>

lemma leads_slots:
  assumes "leads a b" and "local_slot n b = (s, b1)" and "s' < n_locals b"
  shows "s' < n_locals b1"
  using leads_slot(4) [OF assms(1,2)] assms(3) by simp

lemma sound_raise_arm:
  assumes "\<And>m. sound (args m)"
  shows "sound (raise_arm n args)"
  unfolding sound_def
proof (intro allI impI)
  fix b assume "valid b"
  then have b: "leads b b" by (rule leads_refl)
  obtain s b1 where s: "local_slot ''__raise_exc_bt'' b = (s, b1)" by fastforce
  note b1 = leads_slot(1,2) [OF b s]
  have "leads b (emits [Invoke (Call ''exception'' 1), StoreLocal s, LoadLocal s] (args (Slice 0 2) b1))
    \<and> s < n_locals (args (Slice 0 2) b1)"
  proof -
    have a: "leads b1 (args (Slice 0 2) b1)" by (rule soundD [OF assms leads_refl [OF leads_valid [OF b1(1)]]])
    then have n: "s < n_locals (args (Slice 0 2) b1)" using b1(2) by (simp add: leads_def)
    then show ?thesis using leads_reads [of b "args (Slice 0 2) b1"] leads_trans [OF b1(1) a] by simp
  qed
  moreover define b2 where "b2 = emits [Invoke (Call ''exception'' 1), StoreLocal s, LoadLocal s] (args (Slice 0 2) b1)"
  ultimately have b2: "leads b b2" "s < n_locals b2" by simp_all
  have a: "leads b2 (args (Slice 2 1) b2)" by (rule soundD [OF assms leads_refl [OF leads_valid [OF b2(1)]]])
  then have "s < n_locals (args (Slice 2 1) b2)" using b2(2) by (simp add: leads_def)
  then have "leads b (emits [Invoke (Call ''set_backtrace'' 1), Pop, LoadLocal s] (args (Slice 2 1) b2))"
    using leads_reads [OF leads_trans [OF b2(1) a]] by simp
  then show "leads b (raise_arm n args b)"
    using s soundD [OF assms b]
    by (auto simp: raise_arm_def Let_def b2_def [symmetric] leads_emits leads_intros b)
qed

lemma leads_fused:
  assumes "leads a b" and "code b \<noteq> []"
  shows "leads a (b\<lparr>code := butlast (code b) @ [Invoke d]\<rparr>)"
proof -
  have "code_in (n_locals b) (pos b) (butlast (code b) @ [Invoke d])"
    using assms by (auto simp: leads_def valid_def code_in_snoc instr_ok_def)
      (auto simp: code_in_iff nth_butlast)
  moreover have "length (butlast (code b) @ [Invoke d]) = pos b" using assms(2) by (simp add: pos_def)
  ultimately show ?thesis using assms by (simp add: leads_def valid_def params_in_def pos_def context_part_def)
qed

lemma sound_generic_call:
  assumes "sound r" and "\<And>m. sound (args m)"
  shows "sound (generic_call_arm has_recv name n kw r args)"
  using soundD [OF assms(2) soundD [OF assms(1)]]
  by (simp add: sound_def generic_call_arm_def Let_def leads_refl leads_fused leads_invoke)

lemma sound_kw_lit:
  assumes "sound r" and "\<And>m. sound (args m)"
  shows "sound (kw_lit_arm has_recv name n keys r args)"
  unfolding sound_def kw_lit_arm_def Let_def
proof (intro allI impI)
  fix b assume "valid b"
  then have "leads b (emit_invoke d (args AsKwArgs (r b)))" for d
    using soundD [OF assms(2) soundD [OF assms(1)]] by (simp add: leads_refl leads_invoke)
  then show "leads b ((emit_invoke ((if has_recv then CallKwLit else CallKwLitNoRecv) name (of_nat (n - 1 + length keys)) keys)
       (args AsKwArgs (r b)))\<lparr>n_kw_calls := n_kw_calls (args AsKwArgs (r b)) + 1\<rparr>)"
    by (rule leads_same) (simp_all add: context_part_def)
qed

lemma sound_operator:
  assumes "sound r" and "\<And>m. sound (args m)"
  shows "sound (operator_arm recv es k r args)"
  unfolding sound_def
proof (intro allI impI)
  fix b assume "valid b"
  then have b: "leads b b" by (rule leads_refl)
  have "leads b (emit (BinOpLocalLocal k s1 s2) b2)"
    if l: "local_slot n1 b = (s1, b1)" "local_slot n2 b1 = (s2, b2)" for n1 n2 s1 s2 b1 b2
    using leads_slot [OF b l(1)] leads_slot [OF leads_slot(1) [OF b l(1)] l(2)]
    by (intro leads_emit) (auto simp: instr_ok_def)
  then show "leads b (operator_arm recv es k r args b)"
    using soundD [OF assms(2) soundD [OF assms(1) b]] soundD [OF assms(1) b]
    by (auto simp: operator_arm_def leads_invoke split: option.split list.split expr.split atom.split prod.split)
qed

lemma attr_form:
  "(\<And>s acc. P (F s acc)) \<Longrightarrow> P D \<Longrightarrow>
     P (case xs of [EAtom (SymbolLit s), EAtom (BoolLit acc)] \<Rightarrow> F s acc | _ \<Rightarrow> D)"
  by (simp split: list.split expr.split atom.split)

definition no_slots :: "instr list \<Rightarrow> bool" where
  "no_slots is \<longleftrightarrow> list_all (\<lambda>i. local_slots i = [] \<and> jump_offset i = None) is"

lemma no_slots_accessors: "no_slots (def_accessors r w s @ [Plain LoadNil])"
  "no_slots (concat (List.map (\<lambda>a. def_accessors r w (f a)) args) @ [Plain LoadNil])"
  "no_slots [Invoke (AliasMethod x y)]"
  by (auto simp: no_slots_def def_accessors_def list_all_iff)

lemma intercepted_plain: "pred_option no_slots (intercepted recv name args)"
proof -
  have "pred_option no_slots
    (case (attr_reader_writer_flags name, all_symbols args) of
       (Some (r, w), True) \<Rightarrow>
         Some (concat (List.map (\<lambda>a. def_accessors r w (the (symbol_of a))) args) @ [Plain LoadNil])
     | _ \<Rightarrow> if name = ''alias_method'' \<and> length args = 2 \<and> all_symbols args
           then Some [Invoke (AliasMethod (the (symbol_of (args ! 0))) (the (symbol_of (args ! 1))))] else None)"
    by (simp add: no_slots_accessors split: option.split bool.split)
  then show ?thesis
    unfolding intercepted_def by (cases recv) (simp_all only: simp_thms if_True if_False option.pred_inject option.distinct
      attr_form [where P = "pred_option no_slots"] no_slots_accessors)
qed

lemma sound_call_arm:
  assumes "sound r" and "\<And>m. sound (args m)"
  shows "sound (call_arm recv name es kw r args)"
  unfolding sound_def
proof (intro allI impI)
  fix b assume v: "valid b"
  then have b: "leads b b" by (rule leads_refl)
  have l: "leads b (emit (LoadLocalCall s name) b1)" if "local_slot n b = (s, b1)" for n s b1
    using leads_slot [OF b that] by (simp add: leads_local)
  have i: "leads b (emits is b)" if "intercepted recv name es = Some is" for "is"
    using leads_emits [OF b, of "is"] intercepted_plain [of recv name es] that by (simp add: no_slots_def)
  note arms = sound_raise_arm [OF assms(2)] sound_operator [OF assms] sound_kw_lit [OF assms] sound_generic_call [OF assms]
  show "leads b (call_arm recv name es kw r args b)"
    using arms [THEN soundD, OF b] l i soundD [OF assms(2) b]
    by (simp add: call_arm_def leads_invoke split: option.split prod.split)
qed

lemma sound_block_call:
  assumes "sound r" and "\<And>m. sound (args m)"
  shows "sound (block_call_arm recv name es blk kw r args)"
  unfolding sound_def block_call_arm_def Let_def
  by (simp add: soundD [OF assms(1)] soundD [OF assms(2)] leads_intros leads_reserve leads_refl)

section \<open>The compiler\<close>

lemma sounds_finish: "sound g \<Longrightarrow> sounds (\<lambda>m b. finish m (g b))"
  by (simp add: sounds_def sound_def finish_def leads_jumps)

lemma soundsD: "sounds f \<Longrightarrow> sound (f m)"
  by (simp add: sounds_def)

lemma sound_list: "(\<And>e. e \<in> set es \<Longrightarrow> sounds (compile e)) \<Longrightarrow> sound (compiled_list (List.map compile es) m)"
  by (simp add: sound_def leads_list leads_refl list_all_iff)

lemma sound_opt: "(\<And>e. e \<in> set_option r \<Longrightarrow> sounds (compile e)) \<Longrightarrow> sound (compiled_opt (map_option compile r))"
  by (cases r) (auto simp: sound_def leads_refl compiled_opt_def sounds_leads)

lemma leads_start: "valid b \<Longrightarrow> sound f \<Longrightarrow> leads b (f b)"
  by (simp add: sound_def)

lemma leads_tail: "leads b (f b) \<Longrightarrow> leads b (finish m (f b))"
  by (simp add: finish_def leads_jumps)

text \<open>The writes, which have a form of their own as a statement.\<close>

lemma sounds_local_write:
  assumes "sounds (compile v)"
  shows "sounds (compile (ELVarWrite n v))"
proof -
  have "leads b (compile (ELVarWrite n v) m b)" if "valid b" for m b
  proof -
    obtain s b1 where s: "local_slot n b = (s, b1)" by fastforce
    note b1 = leads_slot [OF leads_refl [OF that] s]
    have c: "leads b1 (compile v AsExpr b1)" using assms leads_valid [OF b1(1)] by (simp add: sounds_def sound_def)
    then have "leads b (compile v AsExpr b1)" "s < n_locals (compile v AsExpr b1)"
      using b1 by (auto simp: leads_def)
    then show ?thesis
      using s b1 leads_reads [of b "compile v AsExpr b1" "[Dup, StoreLocal s]"]
      by (auto simp: Let_def intro: leads_local)
  qed
  then show ?thesis by (simp add: sounds_def sound_def)
qed

lemma sounds_writes:
  assumes "sounds (compile v)"
  shows "sounds (compile (EIVarWrite n v))" and "sounds (compile (EGVarWrite n v))"
    and "sounds (compile (ECvarWrite n v))" and "sounds (compile (EConstWrite n absolute v))"
  using assms
  by (auto simp: sounds_def sound_def Let_def leads_refl leads_plain leads_emits leads_const leads_jumps finish_def)

lemma sounds_pairs:
  assumes "\<And>p x. p \<in> set ps \<Longrightarrow> x \<in> Basic_BNFs.fsts p \<Longrightarrow> sounds (compile x)"
    and "\<And>p x. p \<in> set ps \<Longrightarrow> x \<in> Basic_BNFs.snds p \<Longrightarrow> sounds (compile x)"
  shows "sounds (compile (EHash ps))"
proof -
  have "list_all (\<lambda>(k, v). sounds k \<and> sounds v) (List.map (map_prod compile compile) ps)"
    using assms by (fastforce simp: list_all_iff)
  then show ?thesis
    by (auto simp: sounds_def sound_def leads_pairs leads_refl leads_plain finish_def leads_jumps)
qed

lemma sound_interp:
  assumes "\<And>e. e \<in> set es \<Longrightarrow> sounds (compile e)"
  shows "sound (\<lambda>b. if es = [] then emit_plain (LoadConstStr []) b
      else compiled_parts 0 (List.map is_str_lit es) (List.map compile es) b)"
  using assms by (simp add: sound_def leads_parts leads_refl leads_plain list_all_iff)

lemma sounds_calls:
  assumes r: "\<And>e. e \<in> set_option recv \<Longrightarrow> sounds (compile e)" and a: "\<And>e. e \<in> set es \<Longrightarrow> sounds (compile e)"
  shows "sounds (compile (ECall recv n es kw))" and "sounds (compile (ECallWithBlock recv n es blk kw))"
  using sound_call_arm [OF sound_opt [OF r] sound_list [OF a]] sound_block_call [OF sound_opt [OF r] sound_list [OF a]]
  by (auto intro!: sounds_finish)

lemma sounds_begin:
  assumes "\<And>e. e \<in> set body \<Longrightarrow> sounds (compile e)" and "\<And>c. c \<in> set cs \<Longrightarrow> sound (compile_clause c)"
    and "\<And>es e. es \<in> set_option ens \<Longrightarrow> e \<in> set es \<Longrightarrow> sounds (compile e)"
  shows "sounds (compile (EBegin body cs ens))"
proof -
  let ?body = "compiled_list (List.map compile body) AsBody"
  let ?inner = "if cs = [] then ?body else rescue_arm cs ?body (compiled_handlers (List.map compile_clause cs))"
  have h: "leads b b'" if "valid b" "t \<le> pos b" "compiled_handlers (List.map compile_clause cs) t grps (js, b) = (js', b')"
    for t grps js b js' b'
    using handlers_leads [OF _ that] assms(2) by (simp add: list_all_iff)
  have i: "sound ?inner" using sound_list [OF assms(1)] sound_rescue_arm [OF _ h] by simp
  show ?thesis
  proof (cases ens)
    case None
    then show ?thesis using sounds_finish [OF i] by (simp add: Let_def)
  next
    case (Some es)
    then show ?thesis
      using sounds_finish [OF sound_ensure_arm [OF i sound_list]] assms(3) by (simp add: Let_def)
  qed
qed

text \<open>The others are straight lines of parts.\<close>

lemma soundsI: "(\<And>m b. leads b b \<Longrightarrow> leads b (f m b)) \<Longrightarrow> sounds f"
  by (simp add: sounds_def sound_def leads_refl)

lemma leads_finish: "leads a b \<Longrightarrow> leads a (finish m b)"
  by (simp add: finish_def leads_jumps)

lemma leads_compile: "sounds (compile e) \<Longrightarrow> leads a b \<Longrightarrow> leads a (compile e m b)"
  by (rule sounds_leads)

lemma leads_args: "(\<And>e. e \<in> set es \<Longrightarrow> sounds (compile e)) \<Longrightarrow> leads a b \<Longrightarrow> leads a (compiled_list (List.map compile es) m b)"
  by (rule soundD [OF sound_list])

lemma leads_option:
  "(\<And>e. r = Some e \<Longrightarrow> sounds (compile e)) \<Longrightarrow> leads a b \<Longrightarrow> leads a (compiled_opt (map_option compile r) b)"
  by (rule soundD [OF sound_opt]) simp_all

lemma leads_load: "leads a b \<Longrightarrow> leads a (case local_slot n b of (s, b) \<Rightarrow> emit (LoadLocal s) b)"
  by (auto intro: leads_local leads_slot split: prod.split)

lemmas straight = leads_finish leads_compile leads_args leads_option leads_load leads_plain leads_invoke leads_reserve
  leads_jumps leads_emits leads_atom

lemma compile_sound: "sounds (compile e) \<and> sound (compile_clause c)"
proof (induction rule: expr_rescue_clause.induct)
  case (EInterpStr es)
  then show ?case by (simp add: sounds_finish sound_interp)
next
  case (EInterpRegex es fl)
  then show ?case by (auto intro!: soundsI simp: leads_finish leads_plain soundD [OF sound_interp])
next
  case (EHash ps)
  then show ?case by (rule sounds_pairs)
next
  case (EBegin body cs ens)
  then show ?case by (rule sounds_begin)
next
  case (EIf c t e)
  then show ?case by (simp add: sounds_finish sound_if_arm sound_list soundsD)
next
  case (EWhile c body post)
  then show ?case by (simp add: sounds_finish sound_while_arm sound_list soundsD)
next
  case (ESuper args)
  then show ?case by (auto intro!: soundsI simp: straight leads_bare_super split: option.split)
next
  case (ESuperWithBlock args blk)
  then show ?case
    by (cases args) (auto intro!: soundsI simp: Let_def straight leads_super_block_args)
next
  case (ENext v)
  show ?case using sound_opt [OF ENext] by (simp add: sounds_finish sound_next_arm)
next
  case (EBreak v)
  show ?case using sound_opt [OF EBreak] by (simp add: sounds_finish sound_break_arm)
next
  case (ECall recv n args kw)
  then show ?case by (rule sounds_calls)
next
  case (ECallWithBlock recv n args blk kw)
  then show ?case by (rule sounds_calls)
next
  case (ELVarWrite n v)
  then show ?case by (rule sounds_local_write)
next
  case (EIVarWrite n v)
  then show ?case by (rule sounds_writes)
next
  case (EGVarWrite n v)
  then show ?case by (rule sounds_writes)
next
  case (ECvarWrite n v)
  then show ?case by (rule sounds_writes)
next
  case (EConstWrite n absolute v)
  then show ?case by (rule sounds_writes)
next
  case (EOr l r)
  then show ?case by (simp add: sounds_finish sound_or_arm soundsD)
next
  case (EAnd l r)
  then show ?case by (simp add: sounds_finish sound_and_arm soundsD)
next
  case ERetry
  show ?case by (simp add: sounds_finish sound_retry_arm)
next
  case ERedo
  show ?case by (simp add: sounds_finish sound_redo_arm)
next
  case (Clause ns v body)
  then show ?case by (simp add: sound_list)
qed (rule soundsI; simp add: straight Let_def)+

section \<open>Protos\<close>

lemma leads_default:
  assumes "sounds (compile e)" and "leads a b" and "s < n_locals b" and "inert guard"
  shows "leads a (guarded_default guard s e b)"
proof -
  have e: "leads a (emit guard b)" using assms by (simp add: leads_inert)
  have c: "leads (emit guard b) (compile e AsExpr (emit guard b))"
    using assms(1) leads_valid [OF e] by (simp add: leads_compile leads_refl)
  then have "s < n_locals (compile e AsExpr (emit guard b))" using assms(3) by (simp add: leads_def)
  then have "leads a (emit (StoreLocal s) (compile e AsExpr (emit guard b)))"
    using leads_trans [OF e c] by (simp add: leads_local)
  then show ?thesis by (simp add: guarded_default_def Let_def leads_patch)
qed

lemma leads_positional: "leads a b \<Longrightarrow> i + length ds \<le> n_locals b \<Longrightarrow> leads a (positional_defaults i ds b)"
proof (induction ds arbitrary: i b)
  case (Cons d ds)
  let ?b = "case d of None \<Rightarrow> b | Some e \<Rightarrow> guarded_default (JumpIfArgGiven i 0) i e b"
  have d: "leads b ?b"
    using Cons.prems compile_sound [THEN conjunct1] leads_refl [OF leads_valid [OF Cons.prems(1)]]
    by (auto intro!: leads_default simp: inert_def split: option.split)
  then have "Suc i + length ds \<le> n_locals ?b"
    using Cons.prems(2) by (simp add: leads_def del: One_nat_def split: option.split_asm)
  then show ?case using Cons.IH [of ?b "Suc i"] leads_trans [OF Cons.prems(1) d] by simp
qed simp

lemma leads_keyword:
  assumes "\<forall>(k, s, e)\<in>set ds. s < n_locals b" and "leads a b"
  shows "leads a (keyword_defaults ds b)"
  using assms
proof (induction ds arbitrary: b)
  case (Cons d ds)
  obtain k s e where d: "d = (k, s, e)" using prod_cases3 by blast
  let ?b = "guarded_default (JumpIfKwArgGiven k 0) s e b"
  have g: "leads b ?b"
    using Cons.prems d compile_sound [THEN conjunct1] leads_refl [OF leads_valid [OF Cons.prems(2)]]
    by (auto intro!: leads_default simp: inert_def)
  then have "\<forall>(k, s, e)\<in>set ds. s < n_locals ?b"
    using Cons.prems(1) by (fastforce simp: leads_def)
  then show ?case using Cons.IH [of ?b] leads_trans [OF Cons.prems(2) g] d by simp
qed simp

end
