(* ===== verification/Code_Protos.thy ===== *)
theory Code_Protos
  imports Code_Calls
begin

text \<open>
  The proto of a method definition (\<open>compile_def_arm\<close>): the slots of its parameters and the prologues of
  their defaults; and the theorem that the code of every proto is typed.
\<close>

section \<open>Method definitions\<close>

text \<open>
  The parameters of a \<open>def\<close>: positional ones with their defaults (required, optional, required after
  the rest), the rest, keywords with their defaults, the rest of the keywords (empty when anonymous),
  the block.
\<close>

record def_params =
  dp_params :: "string list"
  dp_defaults :: "expr option list"
  dp_rest :: "string option"
  dp_post :: nat
  dp_kw :: "(string \<times> expr option) list"
  dp_kw_rest :: "string option"
  dp_block :: "string option"

definition option_list :: "'a option \<Rightarrow> 'a list" where
  "option_list x = (case x of None \<Rightarrow> [] | Some v \<Rightarrow> [v])"

definition effective_params :: "def_params \<Rightarrow> string list" where
  "effective_params d =
     dp_params d @ option_list (dp_rest d) @ List.map fst (dp_kw d) @
     List.map (\<lambda>n. if n = [] then ''__kw_rest_anon'' else n) (option_list (dp_kw_rest d)) @ option_list (dp_block d)"

definition n_optional :: "def_params \<Rightarrow> nat" where
  "n_optional d = length (filter (\<lambda>e. e \<noteq> None) (dp_defaults d))"

definition n_required_positional :: "def_params \<Rightarrow> nat" where
  "n_required_positional d = length (dp_defaults d) - n_optional d - dp_post d"

definition rest_slot_for_super :: "def_params \<Rightarrow> nat option" where
  "rest_slot_for_super d = map_option (\<lambda>_. n_required_positional d + n_optional d) (dp_rest d)"

definition kw_start :: "def_params \<Rightarrow> nat" where
  "kw_start d = n_required_positional d + n_optional d + dp_post d + (if dp_rest d \<noteq> None then 1 else 0)"

text \<open>\<open>expr_is_compile_time_literal\<close>: such a default is bound by the caller.\<close>

definition compile_time_literal :: "expr \<Rightarrow> bool" where
  "compile_time_literal e \<longleftrightarrow>
     (case e of
        EAtom a \<Rightarrow>
          (case a of
             IntLit _ \<Rightarrow> True | FloatLit _ \<Rightarrow> True | StrLit _ \<Rightarrow> True | StrLitBytes _ \<Rightarrow> True | SymbolLit _ \<Rightarrow> True
           | BoolLit _ \<Rightarrow> True | NilLit \<Rightarrow> True | _ \<Rightarrow> False)
      | _ \<Rightarrow> False)"

fun computed_defaults :: "nat \<Rightarrow> nat \<Rightarrow> (string \<times> expr option) list \<Rightarrow> (nat \<times> nat \<times> expr) list" where
  "computed_defaults start i [] = []"
| "computed_defaults start i ((n, d) # ps) =
     (case d of
        None \<Rightarrow> computed_defaults start (Suc i) ps
      | Some e \<Rightarrow>
          if compile_time_literal e then computed_defaults start (Suc i) ps
          else (i, start + i, e) # computed_defaults start (Suc i) ps)"

definition keyword_slots :: "def_params \<Rightarrow> (string \<times> nat) list" where
  "keyword_slots d = List.map (\<lambda>(i, n, _). (n, kw_start d + i)) (enumerate 0 (dp_kw d))"

definition kw_rest_slot :: "def_params \<Rightarrow> nat option" where
  "kw_rest_slot d = map_option (\<lambda>_. kw_start d + length (dp_kw d)) (dp_kw_rest d)"

text \<open>The proto; a computed default of the 65th keyword or a later one panics.\<close>

definition compile_def_proto :: "string \<Rightarrow> def_params \<Rightarrow> string \<Rightarrow> string list \<Rightarrow> expr list \<Rightarrow> builder option" where
  "compile_def_proto name d fname path body =
     (let ps = effective_params d; kws = computed_defaults (kw_start d) 0 (dp_kw d)
      in if kws \<noteq> [] \<and> 64 \<le> fst (last kws) then None
         else Some (compile_proto_kind
                (method_layout name ps (n_required_positional d) (dp_defaults d) (rest_slot_for_super d) (dp_post d)
                   (dp_kw d \<noteq> [] \<or> dp_kw_rest d \<noteq> None) (dp_block d \<noteq> None) (keyword_slots d) (kw_rest_slot d))
                name ps fname path (dp_defaults d) kws body))"

section \<open>Typed protos\<close>

lemma fresh_slots:
  "distinct ps \<Longrightarrow> (\<forall>p\<in>set ps. locals b p = None) \<Longrightarrow> n_locals (fold (\<lambda>p b. snd (local_slot p b)) ps b) = n_locals b + length ps"
proof (induction ps arbitrary: b)
  case (Cons p ps)
  then have "snd (local_slot p b) = b\<lparr>locals := (locals b)(p \<mapsto> n_locals b), n_locals := n_locals b + 1\<rparr>"
    by (simp add: local_slot_def define_local_slot_def)
  moreover have "\<forall>q\<in>set ps. locals (b\<lparr>locals := (locals b)(p \<mapsto> n_locals b), n_locals := n_locals b + 1\<rparr>) q = None"
    using Cons.prems by auto
  ultimately show ?case using Cons.IH Cons.prems(1) by simp
qed simp

lemma params_code: "code (fold (\<lambda>p b. snd (local_slot p b)) ps b) = code b"
  by (induction ps arbitrary: b) (auto simp: local_slot_def define_local_slot_def split: option.split)

lemma leads_params: "leads a b \<Longrightarrow> leads a (fold (\<lambda>p b. snd (local_slot p b)) ps b)"
proof (induction ps arbitrary: b)
  case (Cons p ps)
  then show ?case using leads_slot(1) [of a b p "fst (local_slot p b)" "snd (local_slot p b)"] by simp
qed simp

definition empty_builder :: "string \<Rightarrow> builder" where
  "empty_builder fname =
     \<lparr>code = [], locals = Map.empty, n_locals = 0, filename = fname, method_name = None, method_param_count = 0,
        method_rest_slot = None, method_block_slot = None, method_n_positional = 0, method_n_post_rest = 0,
        method_has_kw = False, method_kw_params = [], method_kw_rest_slot = None, is_method_body = False,
        loop_break_jumps = [], loop_next_jumps = [], loop_redo_jumps = [], block_redo_target = None,
        retry_targets = [], class_path = [], in_singleton_body = False, n_kw_calls = 0\<rparr>"

lemma empty_builder_sel [simp]:
  "code (empty_builder fname) = []" "locals (empty_builder fname) = Map.empty" "n_locals (empty_builder fname) = 0"
  "retry_targets (empty_builder fname) = []" "block_redo_target (empty_builder fname) = None" "valid (empty_builder fname)"
  by (simp_all add: empty_builder_def valid_def code_in_def params_in_def pos_def)

lemma new_builder_fold: "new_builder ps fname = fold (\<lambda>p b. snd (local_slot p b)) ps (empty_builder fname)"
  by (simp add: new_builder_def empty_builder_def)

lemma leads_new: "leads (empty_builder fname) (new_builder ps fname)"
  by (simp add: new_builder_fold leads_params leads_refl)

lemma new_builder_sel:
  "code (new_builder ps fname) = []" "retry_targets (new_builder ps fname) = []"
  "block_redo_target (new_builder ps fname) = None" "valid (new_builder ps fname)"
  using leads_new [of fname ps] context_sel [of "new_builder ps fname" "empty_builder fname"]
  by (simp_all add: leads_def new_builder_fold params_code)

lemma new_builder_slots: "distinct ps \<Longrightarrow> n_locals (new_builder ps fname) = length ps"
  by (simp add: new_builder_fold fresh_slots)

text \<open>A prologue, a body and a return on a valid builder.\<close>

lemma proto_typed:
  assumes "valid b" and "length ds \<le> n_locals b" and "\<forall>(k, s, e)\<in>set kws. s < n_locals b"
    and "b' = emit Return (compile_list body AsBody (keyword_defaults kws (positional_defaults 0 ds b)))"
  shows "typed_code (n_locals b') (code b')"
proof -
  have p: "leads b (positional_defaults 0 ds b)" using assms by (simp add: leads_positional leads_refl)
  then have "\<forall>(k, s, e)\<in>set kws. s < n_locals (positional_defaults 0 ds b)"
    using assms(3) by (fastforce simp: leads_def)
  then have "leads b (keyword_defaults kws (positional_defaults 0 ds b))" using p by (simp add: leads_keyword)
  then have "leads b (compile_list body AsBody (keyword_defaults kws (positional_defaults 0 ds b)))"
    using compile_sound [THEN conjunct1] by (simp add: compile_list_def leads_args)
  then have "valid (compile_list body AsBody (keyword_defaults kws (positional_defaults 0 ds b)))" by (rule leads_valid)
  then show ?thesis
    unfolding assms(4) by (simp add: typed_code_def valid_def emit_def pos_def code_in_snoc instr_ok_def)
qed

lemma script_typed:
  assumes b_def: "b = compile_proto_at name params body fname path"
  shows "typed_code (n_locals b) (code b)"
proof -
  let ?b = "(new_builder params fname)\<lparr>class_path := path, in_singleton_body := (name = ''<singleton class>'')\<rparr>"
  have "valid ?b" using new_builder_sel(4) [of params fname] by (simp add: valid_def params_in_def pos_def)
  then show ?thesis
    by (rule proto_typed [where ds = "[]" and kws = "[]" and body = body])
      (simp_all add: b_def compile_proto_at_def compile_proto_kind_def Let_def)
qed

lemma computed_slots: "(k, s, e) \<in> set (computed_defaults st i ps) \<Longrightarrow> s < st + i + length ps"
  by (induction st i ps rule: computed_defaults.induct) (auto split: option.splits if_splits)

lemma length_option_list [simp]: "length (option_list x) = (if x = None then 0 else 1)"
  by (simp add: option_list_def split: option.split)


text \<open>\<open>def m(a, b = a + 1, *r, k: f, &blk) while a; break b; end; super end\<close>.\<close>

definition sample_params :: def_params where
  "sample_params = \<lparr>dp_params = [''a'', ''b''],
     dp_defaults = [None, Some (ECall (Some (ELVar ''a'')) ''+'' [EAtom (IntLit 1)] False)],
     dp_rest = Some ''r'', dp_post = 0, dp_kw = [(''k'', Some (ECall None ''f'' [] False))], dp_kw_rest = None,
     dp_block = Some ''blk''\<rparr>"

definition sample_body :: "expr list" where
  "sample_body = [EWhile (ELVar ''a'') [EBreak (Some (ELVar ''b''))] False, ESuper None]"


text \<open>
  Ruby allows the parameter \<open>_\<close> more than once. All of its occurrences share one slot here, while the
  caller binds arguments by position: the frame of \<open>def m(_, _, x)\<close> has two locals for three arguments, and
  \<open>x\<close> is read from the slot of the second one.
\<close>

lemma repeated_underscore:
  "n_locals (new_builder [''_'', ''_'', ''x''] fname) = 2" "locals (new_builder [''_'', ''_'', ''x''] fname) ''x'' = Some 1"
  by (simp_all add: new_builder_def local_slot_def define_local_slot_def)

end
