(* ===== verification/Code_Runs.thy ===== *)
theory Code_Runs
  imports Code_Protos Step_Core Unwind_Inv
begin

text \<open>
  Typed code is safe to run: the instruction pointers of all frames, the handlers they hold and the
  targets of transfers that are parked in an ensure body stay inside the code, through jumps, unwinding,
  \<open>break\<close> and \<open>next\<close> out of loops, and returns that run ensure bodies. Then the fetch of the dispatch loop
  never leaves the code.
\<close>

section \<open>The invariant\<close>

abbreviation frame_code :: "ienv \<Rightarrow> uframe \<Rightarrow> instr list" where
  "frame_code E f \<equiv> ie_code E (uf_proto f)"

definition at_code :: "ienv \<Rightarrow> uframe \<Rightarrow> bool" where
  "at_code E f \<longleftrightarrow> uf_ip f < length (frame_code E f)"

definition handlers_in :: "ienv \<Rightarrow> uframe \<Rightarrow> bool" where
  "handlers_in E f \<longleftrightarrow> (\<forall>h\<in>set (rescues f). hd_ip h < length (frame_code E f))"

definition parked_in :: "ienv \<Rightarrow> uvm \<Rightarrow> loop_transfer \<Rightarrow> bool" where
  "parked_in E s t \<longleftrightarrow>
     (\<forall>sc f. lt_suspended t = Some sc \<longrightarrow> at_depth (sc_frame sc) (ufs s) = Some f \<longrightarrow> lt_ip t < length (frame_code E f))"

text \<open>Everything but the pointer of the top frame; a block kept by a native driver is none of these frames.\<close>

definition below_in :: "ienv \<Rightarrow> uvm \<Rightarrow> bool" where
  "below_in E s \<longleftrightarrow>
     (\<forall>f\<in>set (ufs s). handlers_in E f) \<and> (\<forall>f\<in>set (tl (ufs s)). at_code E f) \<and>
     (\<forall>t\<in>set (loop_transfers s). parked_in E s t) \<and>
     (fst (kept_block s) = 0 \<or> length (ufs s) < fst (kept_block s))"

definition inside :: "ienv \<Rightarrow> uvm \<Rightarrow> bool" where
  "inside E s \<longleftrightarrow> below_in E s \<and> (\<forall>f. top_frame s = Some f \<longrightarrow> at_code E f)"

text \<open>A \<open>return\<close> that replays the one of its method leaves a frame whose signal is taken first.\<close>

definition ready :: "ienv \<Rightarrow> uvm \<Rightarrow> bool" where
  "ready E s \<longleftrightarrow> inside E s \<or> (below_in E s \<and> method_return s \<noteq> None \<and> signals s \<noteq> 0)"

lemma top_frame_Cons [simp]: "ufs s = f # fs \<Longrightarrow> top_frame s = Some f"
  by (simp add: top_frame_def)

lemma inside_Cons: "ufs s = f # fs \<Longrightarrow> inside E s \<longleftrightarrow> below_in E s \<and> at_code E f"
  by (simp add: inside_def)

text \<open>Frames and transfers may be dropped, and what else changes does not matter.\<close>

lemma at_depth_tl: "at_depth k fs = Some g \<Longrightarrow> at_depth k (f # fs) = Some g"
  by (auto simp: at_depth_def nth_Cons' split: if_splits)

lemma below_cong:
  assumes "below_in E s" and "ufs s' = ufs s" and "set (loop_transfers s') \<subseteq> set (loop_transfers s)"
    and "kept_block s' = kept_block s"
  shows "below_in E s'"
  using assms by (auto simp: below_in_def parked_in_def)

lemma inside_cong:
  assumes "inside E s" and "ufs s' = ufs s" and "set (loop_transfers s') \<subseteq> set (loop_transfers s)"
    and "kept_block s' = kept_block s"
  shows "inside E s'"
  using assms below_cong [of E s s'] by (simp add: inside_def top_frame_def)

lemma inside_pop:
  assumes "below_in E s" and "ufs s = f # fs" and "ufs s' = fs" and "set (loop_transfers s') \<subseteq> set (loop_transfers s)"
    and "kept_block s' = kept_block s"
  shows "inside E s'"
proof -
  have "parked_in E s' t" if "t \<in> set (loop_transfers s')" for t
    using assms that at_depth_tl by (fastforce simp: below_in_def parked_in_def)
  then show ?thesis
    using assms by (auto simp: inside_def below_in_def top_frame_def split: list.splits dest: list.set_sel(2) [rotated])
qed

text \<open>The top frame may change, but not its code.\<close>

lemma below_top:
  assumes "below_in E s" and "ufs s = f # fs" and "ufs s' = f' # fs" and "uf_proto f' = uf_proto f"
    and "handlers_in E f'" and "set (loop_transfers s') \<subseteq> set (loop_transfers s)" and "kept_block s' = kept_block s"
  shows "below_in E s'"
proof -
  have "parked_in E s' t" if "t \<in> set (loop_transfers s')" for t
  proof -
    have "\<exists>h. at_depth k (f # fs) = Some h \<and> uf_proto h = uf_proto g" if "at_depth k (f' # fs) = Some g" for k g
      using that assms(4) by (auto simp: at_depth_def nth_Cons' split: if_splits)
    then show ?thesis using assms that by (fastforce simp: below_in_def parked_in_def)
  qed
  then show ?thesis using assms by (auto simp: below_in_def)
qed

lemma inside_top:
  assumes "below_in E s" and "ufs s = f # fs" and "ufs s' = f' # fs" and "uf_proto f' = uf_proto f"
    and "handlers_in E f'" and "at_code E f'" and "set (loop_transfers s') \<subseteq> set (loop_transfers s)"
    and "kept_block s' = kept_block s"
  shows "inside E s'"
  using below_top [OF assms(1-5,7,8)] assms(3,6) by (simp add: inside_def)

section \<open>What the operations keep\<close>

lemma kept_block_sel [simp]:
  "kept_block (release_locals l s) = kept_block s" "kept_block (pop_dm_share f s) = kept_block s"
  "kept_block (restore_match f s) = kept_block s" "kept_block (pop_class_body f s) = kept_block s"
  "kept_block (sync_signals s) = kept_block s" "kept_block (retain b p s) = kept_block s"
  "kept_block (cancel_dead n s) = kept_block s" "kept_block (escape_sweep i r s) = kept_block s"
  "kept_block (restore_bang v s) = kept_block s"
  by (simp_all add: release_locals_def pop_dm_share_def restore_match_def pop_class_body_def sync_signals_def
      retain_def cancel_dead_def escape_sweep_def restore_bang_def split: frame_locals.splits option.splits)

lemma transfers_sub [simp]:
  "set (loop_transfers (retain b p s)) \<subseteq> set (loop_transfers s)"
  "set (loop_transfers (cancel_dead n s)) \<subseteq> set (loop_transfers s)"
  "set (loop_transfers (escape_sweep i r s)) \<subseteq> set (loop_transfers s)"
  by (auto simp: retain_def cancel_dead_def escape_sweep_def)

lemma frame_sel [simp]:
  "uf_proto (set_rescues hs f) = uf_proto f" "uf_ip (set_rescues hs f) = uf_ip f"
  "uf_proto (aux_mut g f) = uf_proto f" "uf_ip (aux_mut g f) = uf_ip f" "aux_of (aux_mut g f) = g (aux_of f)"
  "aux_of (f\<lparr>uf_ip := n\<rparr>) = aux_of f"
  by (simp_all add: set_rescues_def aux_mut_def aux_of_def split: option.splits)

lemma rescues_after_set: "rescues (set_rescues hs f) = (if uf_aux f = None then [] else hs)"
  by (simp add: set_rescues_def aux_of_def no_aux_def split: option.splits)

lemma handlers_in_sub:
  "handlers_in E f \<Longrightarrow> set (rescues f') \<subseteq> set (rescues f) \<Longrightarrow> uf_proto f' = uf_proto f \<Longrightarrow> handlers_in E f'"
  by (auto simp: handlers_in_def)

section \<open>Exceptions\<close>

lemma bind_exc_kept: "bind_exc slot v f s = Some s' \<Longrightarrow> kept_block s' = kept_block s"
  by (auto simp: bind_exc_def Let_def split: frame_locals.splits option.splits if_splits)

lemma inside_bind: "bind_exc slot v f s = Some s' \<Longrightarrow> inside E s \<Longrightarrow> inside E s'"
  by (erule inside_cong) (auto dest: bind_exc_fields bind_exc_kept)

lemma inside_handler:
  assumes b: "below_in E s" and f: "ufs s = f # fs" and h: "h \<in> set (rescues f)" and hs: "set hs \<subseteq> set (rescues f)"
    and e: "enter_handler h exc (s\<lparr>ufs := set_rescues hs f # fs\<rparr>) = Some s'"
  shows "inside E s'"
proof -
  let ?s = "s\<lparr>ufs := set_rescues hs f # fs\<rparr>"
  let ?e = "escape_sweep (length fs) (rescues_len (set_rescues hs f)) ?s"
  let ?st = "?e\<lparr>ostack := trunc (hd_stack h) (ostack ?e)\<rparr>"
  let ?f = "aux_mut (handler_aux h (saved_bang h (set_rescues hs f) ?st)) ((set_rescues hs f)\<lparr>uf_ip := hd_ip h\<rparr>)"
  have i: "inside E (?st\<lparr>ufs := ?f # fs\<rparr>)"
  proof (rule inside_top [OF b f, where f' = ?f])
    show "at_code E ?f" using b f h by (auto simp: below_in_def handlers_in_def at_code_def)
    show "handlers_in E ?f"
      using b f hs by (auto simp: below_in_def handlers_in_def handler_aux_def Let_def rescues_after_set split: if_splits)
  qed (use transfers_sub(3) [of "length fs" "rescues_len (set_rescues hs f)" ?s] in simp_all)
  then have "inside E ((?st\<lparr>ufs := ?f # fs\<rparr>)\<lparr>ostack := vs\<rparr>)" for vs by (rule inside_cong) simp_all
  then have "inside E s''" if "s'' \<in> {?st\<lparr>ufs := ?f # fs, ostack := exc # ostack ?st\<rparr>, ?st\<lparr>ufs := ?f # fs\<rparr>} \<or>
      bind_exc slot exc ?f (?st\<lparr>ufs := ?f # fs\<rparr>) = Some s''" for s'' slot
    using that i inside_bind by auto
  then have "\<exists>s''. inside E s'' \<and> s' = s''\<lparr>bang := exc\<rparr>"
    using e by (auto simp: enter_handler_def Let_def split: if_splits option.splits)
  then show ?thesis by (auto elim: inside_cong)
qed

lemma pop_until_sub: "pop_until m hs = Some (r, rest) \<Longrightarrow> set rest \<subseteq> set hs \<and> (\<forall>h. r = Some h \<longrightarrow> h \<in> set hs)"
  by (induction hs) (auto split: option.splits bool.splits)

lemma inside_unwind_pop:
  assumes "below_in E s" and "ufs s = f # fs"
  shows "inside E (unwind_pop f fs s)"
  by (rule inside_pop [OF assms])
    (use transfers_sub(2) [of "length fs" "s\<lparr>ufs := fs\<rparr>"] in \<open>simp_all add: unwind_pop_def Let_def\<close>)

lemma inside_below: "inside E s \<Longrightarrow> below_in E s"
  by (simp add: inside_def)

lemma inside_unwind_loop: "below_in E s \<Longrightarrow> unwind_loop e cls exc s = Fine s' \<Longrightarrow> inside E s'"
proof (induction "length (ufs s)" arbitrary: s)
  case 0
  then show ?case by (simp add: unwind_loop.simps)
next
  case (Suc n)
  obtain f fs where f: "ufs s = f # fs" using Suc.hyps(2) by (cases "ufs s") auto
  have w: "below_in E (unwind_pop f fs s)" by (rule inside_below [OF inside_unwind_pop [OF Suc.prems(1) f]])
  show ?case
    using Suc.prems(2) f Suc.hyps(1) [OF _ w] Suc.hyps(2) inside_handler [OF Suc.prems(1) f]
    by (auto simp: unwind_loop.simps [of e cls exc s] Let_def split: option.splits if_splits dest!: pop_until_sub)
qed

lemma inside_unwind:
  assumes "below_in E s" and "unwind_with_exception e exc s = Fine s'"
  shows "inside E s'"
proof -
  have "below_in E (sync_signals (retain False (\<lambda>_. True) s))"
    by (rule below_cong [OF assms(1)]) (simp_all add: transfers_sub)
  then show ?thesis
    using assms(2) inside_unwind_loop by (auto simp: unwind_with_exception_def Let_def split: option.splits)
qed

lemma boundary_fine: "boundary_check r = Fine s \<Longrightarrow> r = Fine s"
  by (auto simp: boundary_check_def split: outcome.splits list.splits if_splits)

section \<open>Walks\<close>

lemma pop_ensure_sub: "pop_ensure n hs = (r, rest) \<Longrightarrow> set rest \<subseteq> set hs \<and> (\<forall>h. r = Some h \<longrightarrow> h \<in> set hs)"
  by (induction n hs rule: pop_ensure.induct) (auto split: if_splits)

text \<open>A frame whose pointer is set to one of its handlers.\<close>

lemma inside_jump:
  assumes "below_in E s" and "ufs s = f # fs" and "ufs s' = (set_rescues hs f)\<lparr>uf_ip := n\<rparr> # fs"
    and "set hs \<subseteq> set (rescues f)" and "n < length (frame_code E f)" and "set (loop_transfers s') \<subseteq> set (loop_transfers s)"
    and "kept_block s' = kept_block s"
  shows "inside E s'"
  by (rule inside_top [OF assms(1-3)])
    (use assms in \<open>auto simp: at_code_def below_in_def handlers_in_def rescues_after_set split: if_splits\<close>)

lemma inside_break_pop:
  assumes "below_in E s" and "ufs s = f # fs"
  shows "inside E (break_pop f fs s)"
  by (rule inside_pop [OF assms]) (simp_all add: break_pop_def Let_def)

lemma inside_break_land:
  assumes "below_in E s" and "ufs s = f # fs" and "break_land mb f fs s = Fine s'"
  shows "inside E s'"
  by (rule inside_pop [OF assms(1,2)]) (use assms(3) in \<open>auto simp: break_land_def Let_def split: if_splits\<close>)

lemma inside_walk: "below_in E s \<Longrightarrow> continue_walk s = Fine s' \<Longrightarrow> inside E s'"
proof (induction "length (ufs s)" arbitrary: s)
  case 0
  then show ?case by (simp add: continue_walk.simps split: list.splits)
next
  case (Suc n)
  obtain f fs where f: "ufs s = f # fs" using Suc.hyps(2) by (cases "ufs s") auto
  obtain mb mbs where m: "method_breaks s = mb # mbs"
    using Suc.prems(2) by (cases "method_breaks s") (simp_all add: continue_walk.simps [of s])
  obtain r hs where p: "pop_ensure 0 (rescues f) = (r, hs)" by (cases "pop_ensure 0 (rescues f)")
  note sub = pop_ensure_sub [OF p]
  show ?case
  proof (cases r)
    case (Some h)
    then have "hd_ip h < length (frame_code E f)" using sub Suc.prems(1) f by (auto simp: below_in_def handlers_in_def)
    then show ?thesis
      using Suc.prems(2) f m p Some sub
      by (auto simp: continue_walk.simps [of s] Let_def intro!: inside_jump [OF Suc.prems(1) f])
  next
    case None
    have w: "below_in E (break_pop f fs s)" by (rule inside_below [OF inside_break_pop [OF Suc.prems(1) f]])
    have l: "below_in E (sync_signals (s\<lparr>method_breaks := mbs\<rparr>))" by (rule below_cong [OF Suc.prems(1)]) simp_all
    show ?thesis
      using Suc.prems(2) f m p None Suc.hyps(1) [OF _ w] Suc.hyps(2) inside_break_land [OF l, of f fs]
      by (auto simp: continue_walk.simps [of s] split: if_splits)
  qed
qed

lemma inside_continue_break:
  assumes "below_in E s" and "continue_method_break s = Fine s'"
  shows "inside E s'"
proof -
  have "below_in E (s\<lparr>method_breaks := x\<rparr>)" for x by (rule below_cong [OF assms(1)]) simp_all
  then show ?thesis
    using assms inside_walk by (auto simp: continue_method_break_def split: list.splits)
qed

lemma inside_begin_break:
  assumes "below_in E s" and "begin_method_break v target orig s = Fine s'"
  shows "inside E s'"
proof (rule inside_continue_break)
  let ?s = "retain False (\<lambda>sc. sc_frame sc < target) s"
  let ?mb = "\<lparr>mb_value = v, mb_target = target, mb_suspended = None, mb_origin = orig\<rparr>"
  show "below_in E (sync_signals (?s\<lparr>method_breaks := ?mb # method_breaks ?s\<rparr>))"
    by (rule below_cong [OF assms(1)]) (simp_all add: transfers_sub)
  show "continue_method_break (sync_signals (?s\<lparr>method_breaks := ?mb # method_breaks ?s\<rparr>)) = Fine s'"
    using assms(2) by (simp add: begin_method_break_def Let_def)
qed

section \<open>break and next\<close>

lemma inside_park:
  assumes "inside E s" and "ufs s = f # fs" and "ufs s' = ufs s" and "set ts \<subseteq> set (loop_transfers s)"
    and "kept_block s' = kept_block s"
    and t: "\<exists>t sc. loop_transfers s' = t # ts \<and> lt_suspended t = Some sc \<and> sc_frame sc = length fs \<and>
      lt_ip t < length (frame_code E f)"
  shows "inside E s'"
proof -
  obtain t where "loop_transfers s' = t # ts" "parked_in E s' t"
    using t assms(2,3) by (auto simp: parked_in_def at_depth_def)
  then show ?thesis using assms(1-5) by (auto simp: inside_def below_in_def parked_in_def top_frame_def)
qed

lemma inside_loop_transfer:
  assumes b: "below_in E s" and f: "ufs s = f # fs" and t: "loop_transfers s = t # ts"
    and ip: "lt_ip t < length (frame_code E f)" and c: "continue_loop_transfer s = Fine s'"
  shows "inside E s'"
proof -
  obtain r hs where p: "pop_ensure (lt_rescues t) (rescues f) = (r, hs)" by fastforce
  note sub = pop_ensure_sub [OF p]
  show ?thesis
  proof (cases r)
    case (Some h)
    let ?f = "(set_rescues hs f)\<lparr>uf_ip := hd_ip h\<rparr>"
    have h: "hd_ip h < length (frame_code E f)" using sub Some b f by (auto simp: below_in_def handlers_in_def)
    have "inside E (s\<lparr>ufs := ?f # fs\<rparr>)" by (rule inside_jump [OF b f _ _ h, where hs = hs]) (use sub in auto)
    then show ?thesis
      by (rule inside_park [where f = ?f and fs = fs and ts = ts]) (use c f t p Some ip in \<open>auto simp: continue_loop_transfer_def Let_def\<close>)
  next
    case None
    let ?g = "aux_mut (\<lambda>a. a\<lparr>ax_loops := trunc (lt_loops t + 1) (ax_loops a),
      ax_loop_stacks := trunc (lt_loops t + 1) (ax_loop_stacks a)\<rparr>) (set_rescues hs f)"
    obtain bs saved where bs: "pop_begins (lt_loops t) (ax_begins (aux_of (set_rescues hs f))) None = (bs, saved)" by fastforce
    let ?f = "(aux_mut (\<lambda>a. a\<lparr>ax_begins := bs\<rparr>) ?g)\<lparr>uf_ip := lt_ip t\<rparr>"
    have "inside E (s\<lparr>ufs := ?f # fs, loop_transfers := ts\<rparr>)"
    proof (rule inside_top [OF b f])
      show "handlers_in E ?f"
        using b f sub by (auto simp: below_in_def handlers_in_def rescues_after_set split: if_splits)
    qed (use ip t in \<open>auto simp: at_code_def\<close>)
    then show ?thesis
      by (rule inside_cong)
        (use c f t p None bs in \<open>auto simp: continue_loop_transfer_def Let_def split: transfer_kind.splits\<close>)
  qed
qed

lemma inside_begin_loop:
  assumes b: "below_in E s" and f: "ufs s = f # fs" and ip: "n < length (frame_code E f)"
    and c: "begin_loop_transfer kind n r s = Fine s'"
  shows "inside E s'"
proof -
  obtain st sts where st: "ax_loop_stacks (aux_of f) = st # sts"
    using c f by (cases "ax_loop_stacks (aux_of f)") (simp_all add: begin_loop_transfer_def)
  define s1 where "s1 = sync_signals (retain True (\<lambda>sc. sc_frame sc \<noteq> length fs \<or>
     (sc_rescues sc \<le> r \<and> sc_loops sc \<le> loop_depth f - 1)) s)"
  let ?t = "\<lparr>lt_kind = kind, lt_ip = n, lt_rescues = r, lt_loops = loop_depth f - 1, lt_stack = st, lt_suspended = None\<rparr>"
  have "below_in E s1" by (rule below_cong [OF b]) (simp_all add: s1_def transfers_sub)
  then have "below_in E (s1\<lparr>loop_transfers := ?t # loop_transfers s1\<rparr>)"
    by (auto simp: below_in_def parked_in_def)
  moreover have "continue_loop_transfer (s1\<lparr>loop_transfers := ?t # loop_transfers s1\<rparr>) = Fine s'"
    using c f st by (simp add: begin_loop_transfer_def Let_def s1_def)
  ultimately show ?thesis
    using inside_loop_transfer [of E "s1\<lparr>loop_transfers := ?t # loop_transfers s1\<rparr>" f fs ?t "loop_transfers s1"] f ip
    by (simp add: s1_def)
qed

section \<open>Instructions\<close>

text \<open>What builds an exception object leaves the frames and the transfers alone.\<close>

definition builds_only :: "ienv \<Rightarrow> bool" where
  "builds_only E \<longleftrightarrow>
     (\<forall>v s. let s' = snd (ue_build_exception (ie_unwind E) v s)
            in ufs s' = ufs s \<and> loop_transfers s' = loop_transfers s \<and> kept_block s' = kept_block s)"

lemma inside_raise_here: "below_in E s \<Longrightarrow> raise_here E exc s = Fine s' \<Longrightarrow> inside E s'"
  unfolding raise_here_def by (blast dest: boundary_fine intro: inside_unwind)

lemma below_normalize:
  assumes "builds_only E" and "normalize_exception (ie_unwind E) v s = (exc, s')" and "below_in E s"
  shows "below_in E s'"
proof (rule below_cong [OF assms(3)])
  have "ufs s' = ufs s \<and> loop_transfers s' = loop_transfers s \<and> kept_block s' = kept_block s"
    using assms(1,2) unfolding builds_only_def Let_def normalize_exception_def
    by (cases v) (auto, (metis snd_conv)+)
  then show "ufs s' = ufs s" "set (loop_transfers s') \<subseteq> set (loop_transfers s)" "kept_block s' = kept_block s" by simp_all
qed

lemma inside_op_raise:
  assumes "builds_only E" and "below_in E s" and "op_raise E s = Fine s'"
  shows "inside E s'"
proof -
  have "below_in E (s\<lparr>ostack := vs\<rparr>)" for vs by (rule below_cong [OF assms(2)]) simp_all
  then show ?thesis
    using assms(3) below_normalize [OF assms(1)]
    by (auto simp: op_raise_def do_raise_value_def Let_def split: prod.splits
        intro!: inside_unwind dest!: boundary_fine)
qed

lemma seq_here_top:
  assumes "seq_here s (List.map lt_suspended (loop_transfers s)) \<noteq> None"
  shows "\<exists>t ts sc f fs. loop_transfers s = t # ts \<and> lt_suspended t = Some sc \<and> ufs s = f # fs \<and> sc_frame sc = length fs"
  using assms by (auto simp: seq_here_def matches_here_def split: list.splits option.splits if_splits)

lemma inside_end_ensure:
  assumes "builds_only E" and b: "below_in E s" and "op_end_ensure (ie_unwind E) s = Fine s'"
  shows "inside E s'"
proof -
  have l: "inside E s'" if "seq_here s (List.map lt_suspended (loop_transfers s)) \<noteq> None" "continue_loop_transfer s = Fine s'"
  proof -
    note top = seq_here_top [OF that(1)]
    then obtain t ts sc f fs where t: "loop_transfers s = t # ts" "lt_suspended t = Some sc" "ufs s = f # fs" "sc_frame sc = length fs"
      by blast
    have "parked_in E s t" using b t(1) by (simp add: below_in_def)
    then have "lt_ip t < length (frame_code E f)" using t by (auto simp: parked_in_def at_depth_def)
    then show ?thesis using inside_loop_transfer [OF b t(3,1)] that(2) by simp
  qed
  have "below_in E (s\<lparr>ostack := vs\<rparr>)" for vs by (rule below_cong [OF b]) simp_all
  then show ?thesis
    using assms(3) l inside_continue_break [OF b] below_normalize [OF assms(1)]
    by (auto simp: op_end_ensure_def Let_def split: if_splits list.splits prod.splits
        intro!: inside_unwind dest!: boundary_fine)
qed

section \<open>Return\<close>

lemma inside_return_fast:
  assumes "below_in E s" and "return_fast s = Some r"
  shows "inside E (snd r)"
proof -
  obtain f fs where f: "ufs s = f # fs" using assms(2) by (cases "ufs s") (simp_all add: return_fast_def)
  show ?thesis
    by (rule inside_pop [OF assms(1) f]) (use assms(2) f in \<open>auto simp: return_fast_def Let_def\<close>)
qed

lemma inside_return_pop:
  assumes "below_in E s" and "return_pop e crossing s = Fine r"
  shows "inside E (snd r)"
proof -
  obtain f fs where f: "ufs s = f # fs" using assms(2) by (cases "ufs s") (simp_all add: return_pop_def)
  show ?thesis
    by (rule inside_pop [OF assms(1) f])
      (use assms(2) f transfers_sub(2) [of "length fs" "s\<lparr>ufs := fs\<rparr>"] in
        \<open>auto simp: return_pop_def Let_def split: if_splits\<close>)
qed

lemma not_kept: "below_in E s \<Longrightarrow> ufs s \<noteq> [] \<Longrightarrow> \<not> kept_frame_ok crossing s"
  by (auto simp: below_in_def kept_frame_ok_def)

lemma ready_return:
  assumes b: "below_in E s" and r: "op_return e s = Fine r"
  shows "ready E (snd r)"
proof (cases "return_fast_ok s")
  case True
  then show ?thesis
    using r inside_return_fast [OF b] by (auto simp: op_return_def ready_def split: option.splits)
next
  case False
  have slow: "return_slow e s = Fine r" using r False by (simp add: op_return_def)
  have upd: "below_in E (s\<lparr>method_breaks := mbs, ostack := vs\<rparr>)" "below_in E (s\<lparr>ostack := vs\<rparr>)"
    "below_in E ((sync_signals (s\<lparr>method_breaks := mbs\<rparr>))\<lparr>ostack := vs\<rparr>)" for mbs vs
    by (rule below_cong [OF b]; simp)+
  obtain f fs where f: "ufs s = f # fs" using slow by (cases "ufs s") (simp_all add: return_slow_def)
  show ?thesis
  proof (cases "\<exists>h\<in>set (rescues f). hd_ensure h")
    case True
    then obtain s1 where "begin_method_break (pop_or_nil (ostack s)) (length fs) BlockOrigin (s\<lparr>ostack := tl (ostack s)\<rparr>) = Fine s1"
        "r = (ufs s1 \<noteq> [], s1)"
      using slow f by (cases "begin_method_break (pop_or_nil (ostack s)) (length fs) BlockOrigin (s\<lparr>ostack := tl (ostack s)\<rparr>)")
        (auto simp: return_slow_def)
    then show ?thesis using inside_begin_break [OF upd(2)] by (auto simp: ready_def)
  next
    case no: False
    show ?thesis
    proof (cases "abandoned_shape s = Some ReplayReturn")
      case True
      then obtain mb mbs where m: "method_breaks s = mb # mbs"
        by (cases "method_breaks s") (simp_all add: abandoned_shape_def)
      then obtain c where "mb_origin mb = MethodReturnSignal c"
        and "snd r = sync_signals (s\<lparr>method_breaks := mbs, ostack := tl (ostack s),
          method_return := Some (mb_value mb), method_return_locals := Some c\<rparr>)"
        using slow f no True by (auto simp: return_slow_def split: walk_origin.splits)
      moreover have "below_in E (sync_signals (s\<lparr>method_breaks := mbs, ostack := tl (ostack s),
          method_return := Some (mb_value mb), method_return_locals := Some c\<rparr>))"
        by (rule below_cong [OF b]) simp_all
      ultimately show ?thesis by (simp add: ready_def sync_signals_def signal_mask_def)
    next
      case nr: False
      define s1 where "s1 = (if abandoned_shape s = Some AdoptBreakValue
        then (sync_signals (s\<lparr>method_breaks := tl (method_breaks s)\<rparr>))\<lparr>ostack := mb_value (hd (method_breaks s)) # tl (ostack s)\<rparr>
        else s)"
      have "below_in E s1" using b upd(3) by (simp add: s1_def)
      moreover have "ufs s1 \<noteq> []" by (simp add: s1_def f)
      moreover have "(if kept_frame_ok (abandoned_shape s = Some CancelCrossing) s1 then Fine (False, return_kept s1)
          else return_pop e (abandoned_shape s = Some CancelCrossing) s1) = Fine r"
        using slow f no nr by (auto simp: return_slow_def Let_def s1_def split: option.splits abandoned.splits list.splits)
      ultimately show ?thesis using not_kept inside_return_pop by (auto simp: ready_def)
    qed
  qed
qed

section \<open>Every instruction\<close>

lemma inside_same: "inside E s \<Longrightarrow> ufs s' = ufs s \<Longrightarrow> loop_transfers s' = loop_transfers s \<Longrightarrow> kept_block s' = kept_block s \<Longrightarrow> inside E s'"
  by (rule inside_cong) simp_all

lemma inside_deliver:
  assumes "inside E s" and "deliver E push r s = Fine s'"
  shows "inside E s'"
proof -
  obtain x w h where r: "r = (x, w, h)" by (cases r)
  have "inside E (s\<lparr>uworld := w, uheap := h\<rparr>)" by (rule inside_same [OF assms(1)]) simp_all
  then show ?thesis
    using assms(2) r inside_raise_here [OF inside_below]
    by (cases x) (auto simp: Let_def push_val_def intro: inside_same split: if_splits)
qed

lemma inside_stack [simp]: "inside E s \<Longrightarrow> inside E (s\<lparr>ostack := vs\<rparr>)"
  by (rule inside_same) simp_all

lemma inside_push [simp]: "inside E s \<Longrightarrow> inside E (push_val v s)"
  by (simp add: push_val_def)

lemma inside_store [simp]: "inside E s \<Longrightarrow> inside E (s\<lparr>uworld := w, uheap := h\<rparr>)"
  by (rule inside_same) simp_all

lemma inside_apply: "inside E s \<Longrightarrow> apply_op E i s = Fine s' \<Longrightarrow> inside E s'"
  by (auto simp: apply_op_def Let_def split: if_splits intro: inside_deliver [rotated])

lemma inside_operator_method: "inside E s \<Longrightarrow> operator_method E k a b s = Fine s' \<Longrightarrow> inside E s'"
  by (auto simp: operator_method_def intro: inside_apply [rotated])

lemma inside_int_arm: "inside E s \<Longrightarrow> int_arm E k x y s = Fine s' \<Longrightarrow> inside E s'"
  by (auto simp: int_arm_def intro: inside_deliver [rotated] split: if_splits option.splits prod.splits simp del: deliver.simps)

lemma inside_binop_values: "inside E s \<Longrightarrow> binop_values E k a b s = Fine s' \<Longrightarrow> inside E s'"
  by (auto simp: binop_values_def intro: inside_deliver [rotated] inside_int_arm [rotated] inside_operator_method [rotated]
      split: if_splits option.splits prod.splits rvalue.splits simp del: deliver.simps)

lemmas inside_values = inside_binop_values [rotated] inside_int_arm [rotated] inside_operator_method [rotated]
  inside_deliver [rotated] inside_apply [rotated]

lemma inside_op_binop: "inside E s \<Longrightarrow> op_binop E k s = Fine s' \<Longrightarrow> inside E s'"
  by (auto simp: op_binop_def intro: inside_values split: list.splits)

lemma inside_op_binop_int: "inside E s \<Longrightarrow> op_binop_int E k n s = Fine s' \<Longrightarrow> inside E s'"
  by (auto simp: op_binop_int_def Let_def intro: inside_values
      split: if_splits list.splits option.splits prod.splits rvalue.splits simp del: deliver.simps)

lemma inside_set_local: "inside E s \<Longrightarrow> set_local slot v s = Fine s' \<Longrightarrow> inside E s'"
  by (auto simp: set_local_def intro: inside_bind split: option.splits)

lemma bind_fine: "outcome_bind r f = Fine s' \<longleftrightarrow> (\<exists>s. r = Fine s \<and> f s = Fine s')"
  by (cases r) auto

lemma inside_locals:
  assumes "inside E s"
  shows "op_load_local slot s = Fine s' \<Longrightarrow> inside E s'" and "op_store_local slot s = Fine s' \<Longrightarrow> inside E s'"
    and "op_binop_local_local E k a b s = Fine s' \<Longrightarrow> inside E s'"
  using assms
  by (auto simp: op_load_local_def op_store_local_def op_binop_local_local_def
      intro: inside_set_local [rotated] inside_values split: option.splits list.splits)

lemma inside_inc_slow:
  assumes "inside E s" and "inc_slow E slot push cur s = Fine s'"
  shows "inside E s'"
proof -
  have s: "inside E (s\<lparr>uworld := w, uheap := h\<rparr>)" for w h using assms(1) by simp
  show ?thesis
    using assms(2) inside_set_local [OF s] inside_raise_here [OF inside_below [OF s]]
    by (auto simp: inc_slow_def Let_def bind_fine split: sum.splits prod.splits if_splits)
qed

lemma inside_inc: "inside E s \<Longrightarrow> op_inc_local E slot push s = Fine s' \<Longrightarrow> inside E s'"
  by (auto simp: op_inc_local_def bind_fine dest!: inside_set_local [rotated] intro: inside_inc_slow [rotated]
      split: option.splits if_splits rvalue.splits)

text \<open>The instructions that change the top frame but neither its code nor its handlers' addresses.\<close>

lemma inside_frame:
  assumes "inside E s" and "ufs s = f # fs" and "ufs s' = f' # fs" and "uf_proto f' = uf_proto f"
    and "uf_ip f' = uf_ip f \<or> uf_ip f' < length (frame_code E f)"
    and "\<forall>h\<in>set (rescues f'). h \<in> set (rescues f) \<or> hd_ip h < length (frame_code E f)"
    and "loop_transfers s' = loop_transfers s" and "kept_block s' = kept_block s"
  shows "inside E s'"
proof (rule inside_top [OF inside_below [OF assms(1)] assms(2,3,4)])
  show "handlers_in E f'" using assms by (auto simp: inside_def below_in_def handlers_in_def)
  show "at_code E f'" using assms by (auto simp: inside_def at_code_def)
qed (use assms in simp_all)

lemma set_trunc: "x \<in> set (trunc n xs) \<Longrightarrow> x \<in> set xs"
  by (auto simp: trunc_def dest: in_set_dropD)

lemma set_tl: "x \<in> set (tl xs) \<Longrightarrow> x \<in> set xs"
  by (cases xs) auto

lemma inside_frames:
  assumes i: "inside E s" and f: "ufs s = f # fs"
  shows "op_pop_handler s = Fine s' \<Longrightarrow> inside E s'" and "op_enter_begin s = Fine s' \<Longrightarrow> inside E s'"
    and "op_exit_begin s = Fine s' \<Longrightarrow> inside E s'" and "op_retry s = Fine s' \<Longrightarrow> inside E s'"
    and "op_enter_loop s = Fine s' \<Longrightarrow> inside E s'" and "op_exit_loop s = Fine s' \<Longrightarrow> inside E s'"
  using f
  by (auto simp: op_pop_handler_def op_enter_begin_def op_exit_begin_def op_retry_def op_enter_loop_def op_exit_loop_def
      rescues_after_set dest: set_trunc set_tl intro!: inside_frame [OF i f]
      split: list.splits if_splits)

lemma inside_jumps:
  assumes i: "inside E s" and f: "ufs s = f # fs" and t: "jump_target f off < length (frame_code E f)"
  shows "op_jump off s = Fine s' \<Longrightarrow> inside E s'" and "op_jump_if_false off s = Fine s' \<Longrightarrow> inside E s'"
    and "push_handler off slot ens filt s = Fine s' \<Longrightarrow> inside E s'"
    and "op_break_loop off s = Fine s' \<Longrightarrow> inside E s'" and "op_next_loop off s = Fine s' \<Longrightarrow> inside E s'"
proof -
  show j: "op_jump off s = Fine s' \<Longrightarrow> inside E s'"
    using f t by (auto simp: op_jump_def intro!: inside_frame [OF i f])
  show "push_handler off slot ens filt s = Fine s' \<Longrightarrow> inside E s'"
    using f t by (auto simp: push_handler_def Let_def intro!: inside_frame [OF i f])
  have b: "begin_loop_transfer k (jump_target f off) r s1 = Fine s' \<Longrightarrow> inside E s'" if "inside E s1" "ufs s1 = f # fs" for k r s1
    using inside_begin_loop [OF inside_below that(2) t] that(1) by blast
  then show "op_break_loop off s = Fine s' \<Longrightarrow> inside E s'" and "op_next_loop off s = Fine s' \<Longrightarrow> inside E s'"
    using f i b [of "s\<lparr>ostack := vs\<rparr>" for vs] by (auto simp: op_break_loop_def op_next_loop_def split: list.splits)
  have "op_jump off (s\<lparr>ostack := vs\<rparr>) = Fine s' \<Longrightarrow> inside E s'" for vs
    using f t by (auto simp: op_jump_def intro!: inside_frame [OF i f])
  then show "op_jump_if_false off s = Fine s' \<Longrightarrow> inside E s'"
    using i by (auto simp: op_jump_if_false_def split: list.splits if_splits)
qed

lemma inside_exec_plain:
  assumes "inside E s" and "exec_plain E p s = Fine s'"
  shows "inside E s'"
proof -
  have "(\<exists>v. exec_plain E p s = Fine (push_val v s)) \<or> exec_plain E p s = apply_op E (Plain p) s" by (cases p) auto
  then show ?thesis using assms inside_apply by auto
qed

lemma inside_visibility:
  assumes "inside E s"
  shows "exec_invoke E PushClassVisibilityPublic s = Fine s' \<Longrightarrow> inside E s'"
    and "exec_invoke E PopClassVisibility s = Fine s' \<Longrightarrow> inside E s'"
proof -
  have "inside E (s\<lparr>visibility_stack := x, module_function_stack := y\<rparr>)" for x y
    by (rule inside_same [OF assms]) simp_all
  then show "exec_invoke E PushClassVisibilityPublic s = Fine s' \<Longrightarrow> inside E s'"
    and "exec_invoke E PopClassVisibility s = Fine s' \<Longrightarrow> inside E s'"
    by (auto simp: op_pop_class_visibility_def split: if_splits)
qed

lemma inside_exec_invoke:
  assumes "inside E s" and "exec_invoke E d s = Fine s'"
  shows "inside E s'"
proof -
  consider (1) k where "d = BinOp k" | (2) k n where "d = BinOpInt k n" | (3) "d = PushClassVisibilityPublic"
    | (4) "d = PopClassVisibility" | (5) "exec_invoke E d s = apply_op E (Invoke d) s"
    by (cases d) auto
  then show ?thesis
  proof cases
    case 1 then show ?thesis using assms inside_op_binop by simp
  next
    case 2 then show ?thesis using assms inside_op_binop_int by simp
  next
    case 3 then show ?thesis using assms inside_visibility(1) by blast
  next
    case 4 then show ?thesis using assms inside_visibility(2) by blast
  next
    case 5 then show ?thesis using assms inside_apply by simp
  qed
qed

lemma inside_exec:
  assumes e: "builds_only E" and i: "inside E s" and f: "ufs s = f # fs" and nr: "i \<noteq> Return"
    and t: "\<forall>off. jump_offset i = Some off \<longrightarrow> jump_target f off < length (frame_code E f)"
    and x: "exec E i s = Fine s'"
  shows "inside E s'"
proof -
  note jumps = inside_jumps [OF i f] and frames = inside_frames [OF i f] and locals = inside_locals [OF i]
  have same: "inside E s''" if "ufs s'' = ufs s" "loop_transfers s'' = loop_transfers s" "kept_block s'' = kept_block s" for s''
    by (rule inside_same [OF i that])
  have call: "inside E s'" if "op_load_local slot s = Fine s1" "apply_op E d s1 = Fine s'" for slot d s1
    using locals(1) [OF that(1)] that(2) by (rule inside_apply)
  show ?thesis
  proof (cases i)
    case (Plain p) then show ?thesis using x inside_exec_plain [OF i] by simp
  next
    case (Invoke d) then show ?thesis using x inside_exec_invoke [OF i] by simp
  next
    case (LoadLocalCall slot name) then show ?thesis using x call by (auto simp: bind_fine)
  next
    case Dup then show ?thesis using x i by (auto split: list.splits)
  next
    case Pop then show ?thesis using x i by auto
  next
    case (JumpIfArgGiven a b) then show ?thesis using x t i jumps(1) by (auto split: if_splits)
  next
    case (JumpIfKwArgGiven a b) then show ?thesis using x t i jumps(1) by (auto split: if_splits)
  next
    case (PushRescue a b c d) then show ?thesis using x t jumps(3) by (auto simp: op_push_rescue_def)
  next
    case (PushRescueSplatLocal a b c d) then show ?thesis using x t jumps(3) by (auto simp: op_push_rescue_splat_def)
  next
    case (PushEnsure a) then show ?thesis using x t jumps(3) by (auto simp: op_push_ensure_def)
  next
    case Raise then show ?thesis using x inside_op_raise [OF e inside_below [OF i]] by simp
  next
    case EndEnsure then show ?thesis using x inside_end_ensure [OF e inside_below [OF i]] by simp
  next
    case Break then show ?thesis using x same by (auto simp: op_break_def)
  next
    case ReturnMethod then show ?thesis using x same by (auto simp: op_return_method_def)
  qed (use x t nr jumps frames locals inside_inc [OF i] in auto)
qed

section \<open>The dispatch loop\<close>

lemma take_return_kept:
  "take_method_return s = (v, s1) \<Longrightarrow> ufs s1 = ufs s \<and> set (loop_transfers s1) \<subseteq> set (loop_transfers s) \<and> kept_block s1 = kept_block s"
  using transfers_sub(1) [of False "\<lambda>_. True" "s\<lparr>method_return := None\<rparr>"]
  by (auto simp: take_method_return_def Let_def split: if_splits)

text \<open>Every signal that asks for something makes the pointer of the top frame good again.\<close>

lemma inside_signals:
  assumes r: "ready E s" and d: "dispatch_signals e err s = Some (Fine s')"
  shows "inside E s'"
proof -
  have b: "below_in E s" using r by (auto simp: ready_def inside_def)
  obtain f fs where f: "ufs s = f # fs"
  proof (cases "ufs s")
    case Nil
    then show ?thesis using d b by (auto simp: dispatch_signals_def split: if_splits list.splits)
  qed
  obtain v s1 where t: "take_method_return s = (v, s1)" by fastforce
  have s1: "below_in E s1" by (rule below_cong [OF b]) (use take_return_kept [OF t] in auto)
  note took = inside_unwind [OF s1] inside_begin_break [OF s1]
  let ?s = "(sync_signals (s\<lparr>break_signaled := False\<rparr>))\<lparr>ufs := f\<lparr>uf_pending_yield := False\<rparr> # fs\<rparr>"
  have p: "aux_of (f\<lparr>uf_pending_yield := False\<rparr>) = aux_of f" by (simp add: aux_of_def)
  have "below_in E (?s\<lparr>ostack := vs\<rparr>)" for vs
    by (rule below_top [OF b f, where f' = "f\<lparr>uf_pending_yield := False\<rparr>"]) (use b f p in \<open>auto simp: below_in_def handlers_in_def\<close>)
  then have y: "begin_method_break v n orig (?s\<lparr>ostack := vs\<rparr>) = Fine s' \<Longrightarrow> inside E s'" for v n orig vs
    by (rule inside_begin_break)
  show ?thesis
    using d f y t took inside_continue_break [OF b]
    by (auto simp: dispatch_signals_def Let_def split: if_splits option.splits list.splits)
qed

text \<open>One pass on typed code.\<close>

definition typed_env :: "ienv \<Rightarrow> bool" where
  "typed_env E \<longleftrightarrow> (\<forall>p. \<exists>n. typed_code n (ie_code E p))"

lemma ready_step:
  assumes c: "typed_env E" and e: "builds_only E" and r: "ready E s" and v: "vm_step E s = Fine s'"
  shows "ready E s'"
proof (cases "dispatch_signals (ie_unwind E) (ie_jump_error E) s")
  case (Some x)
  then show ?thesis using v inside_signals [OF r] by (auto simp: vm_step_def ready_def)
next
  case None
  then obtain f fs where f: "ufs s = f # fs" using v by (cases "ufs s") (auto simp: vm_step_def)
  let ?C = "frame_code E f"
  let ?f = "f\<lparr>uf_ip := uf_ip f + 1\<rparr>" and ?s = "s\<lparr>ufs := f\<lparr>uf_ip := uf_ip f + 1\<rparr> # fs\<rparr>"
  have ip: "uf_ip f < length ?C" and x: "exec E (?C ! uf_ip f) ?s = Fine s'"
    using v None f by (auto simp: vm_step_def split: if_splits)
  obtain n where n: "?C \<noteq> []" "last ?C = Return" "code_in n (length ?C - 1) ?C"
    using c by (auto simp: typed_env_def typed_code_def)
  have b: "below_in E s" using r by (auto simp: ready_def inside_def)
  have h: "handlers_in E ?f" using b f by (auto simp: below_in_def handlers_in_def)
  show ?thesis
  proof (cases "?C ! uf_ip f = Return")
    case True
    have "below_in E ?s" by (rule below_top [OF b f]) (use h in auto)
    moreover obtain r where "op_return (ie_unwind E) ?s = Fine r" "s' = snd r"
      using x True by (cases "op_return (ie_unwind E) ?s") auto
    ultimately show ?thesis using ready_return by blast
  next
    case False
    then have "uf_ip f \<noteq> length ?C - 1" using n by (auto simp: last_conv_nth)
    then have s: "Suc (uf_ip f) < length ?C" using ip by simp
    have "inside E ?s" by (rule inside_top [OF b f]) (use h s in \<open>auto simp: at_code_def\<close>)
    moreover have "jump_target ?f off < length ?C" if "jump_offset (?C ! uf_ip f) = Some off" for off
      using n(1,3) ip that by (auto simp: code_in_iff instr_ok_def jump_target_def dest!: spec [where x = "uf_ip f"])
    ultimately have "inside E s'" using inside_exec [OF e _ _ False _ x] by simp
    then show ?thesis by (simp add: ready_def)
  qed
qed

inductive vm_reach :: "ienv \<Rightarrow> uvm \<Rightarrow> uvm \<Rightarrow> bool" for E where
  start: "vm_reach E s s"
| pass: "vm_reach E s s' \<Longrightarrow> vm_step E s' = Fine s'' \<Longrightarrow> vm_reach E s s''"

text \<open>A machine that has not run yet: its frames are at their first instruction.\<close>

definition not_started :: "uvm \<Rightarrow> bool" where
  "not_started s \<longleftrightarrow>
     (\<forall>f\<in>set (ufs s). uf_ip f = 0 \<and> uf_aux f = None) \<and> loop_transfers s = [] \<and> fst (kept_block s) = 0"

lemma ready_start: "typed_env E \<Longrightarrow> not_started s \<Longrightarrow> ready E s"
  by (auto simp: not_started_def ready_def inside_def below_in_def handlers_in_def at_code_def typed_env_def typed_code_def
      top_frame_def aux_of_def no_aux_def split: list.splits dest: list.set_sel(2) [rotated])

lemma ready_reach: "vm_reach E s s' \<Longrightarrow> typed_env E \<Longrightarrow> builds_only E \<Longrightarrow> ready E s \<Longrightarrow> ready E s'"
  by (induction rule: vm_reach.induct) (auto intro: ready_step)

text \<open>C18. Typed code never runs off: start a machine whose protos all hold typed code (jumps and handlers that
  land on an instruction, a return at the end), with its frames at their first instruction, and let it make
  any number of passes of the dispatch loop, through any mixture of jumps, raised exceptions, handlers,
  loop transfers parked in ensure bodies and returns. Whenever the loop is about to fetch, the instruction
  pointer of the top frame is inside its code; the frames below, to which a return goes back, and every
  handler any frame still holds, point into their code at all times. The exception builder may do anything
  but change frames and pending transfers.\<close>

theorem typed_code_runs_inside:
  assumes "typed_env E" and "builds_only E" and "not_started s" and "vm_reach E s s'" and "ufs s' = f # fs"
  shows "(dispatch_signals (ie_unwind E) (ie_jump_error E) s' = None \<longrightarrow> uf_ip f < length (ie_code E (uf_proto f))) \<and>
    (\<forall>g\<in>set fs. uf_ip g < length (ie_code E (uf_proto g))) \<and>
    (\<forall>g\<in>set (ufs s'). \<forall>h\<in>set (rescues g). hd_ip h < length (ie_code E (uf_proto g)))"
proof -
  have r: "ready E s'" using ready_reach [OF assms(4,1,2) ready_start [OF assms(1,3)]] .
  then have b: "below_in E s'" by (auto simp: ready_def inside_def)
  have "dispatch_signals (ie_unwind E) (ie_jump_error E) s' \<noteq> None" if "method_return s' \<noteq> None" "signals s' \<noteq> 0"
    using that assms(5) by (auto simp: dispatch_signals_def split: option.splits prod.splits)
  then show ?thesis
    using r b assms(5) by (auto simp: ready_def inside_def below_in_def at_code_def handlers_in_def)
qed

text \<open>The compiled script \<open>begin 1 ensure 2 end\<close> and its first pass, which pushes the handler.\<close>

definition ensure_script :: "instr list" where
  "ensure_script = code (compile_proto ''<main>'' [] [EBegin [EAtom (IntLit 1)] [] (Some [EAtom (IntLit 2)])] ''main.rb'')"

definition script_env :: ienv where
  "script_env = bare_ienv\<lparr>ie_code := \<lambda>_. ensure_script\<rparr>"

definition script_start :: uvm where
  "script_start = new_uvm\<lparr>ufs := [new_frame False 0]\<rparr>"

lemma ensure_script_code:
  "ensure_script = [PushEnsure 5, Plain (LoadConstInt 1), PopEnsure, Plain (LoadConstInt 2), Pop, Jump 3,
     Plain (LoadConstInt 2), Pop, EndEnsure, Return]"
  by (simp add: ensure_script_def compile_proto_def compile_proto_at_def compile_proto_kind_def compile_list_def
      new_builder_def ensure_arm_def Let_def emit_def pos_def patch_jump_def finish_def)

theorem typed_code_runs_inside_witness:
  "\<exists>s' f. vm_step script_env script_start = Fine s' \<and> ufs s' = [f] \<and> rescues f \<noteq> [] \<and>
     (\<forall>h\<in>set (rescues f). hd_ip h < length ensure_script)"
proof -
  have t: "typed_env script_env"
    using script_typed [of _ "''<main>''" "[]" _ "''main.rb''" "[]"]
    by (auto simp: typed_env_def script_env_def ensure_script_def compile_proto_def)
  have b: "builds_only script_env" by (simp add: builds_only_def script_env_def bare_ienv_def bare_env_def)
  have n: "not_started script_start"
    by (simp add: not_started_def script_start_def new_uvm_def new_frame_def)
  obtain s' f where s: "vm_step script_env script_start = Fine s'" "ufs s' = [f]" "rescues f \<noteq> []" "uf_proto f = 0"
    by (simp add: vm_step_def script_start_def script_env_def bare_ienv_def ensure_script_code dispatch_signals_def
        new_uvm_def new_frame_def op_push_ensure_def push_handler_def Let_def)
  have "vm_reach script_env script_start s'" by (rule pass [OF start s(1)])
  then have "\<forall>h\<in>set (rescues f). hd_ip h < length ensure_script"
    using typed_code_runs_inside [OF t b n _ s(2)] s(2) by (simp add: script_env_def)
  then show ?thesis using s by blast
qed

end
