(* ===== verification/Spec2Isabelle.thy ===== *)
theory Spec2Isabelle
  imports Int_Ops Interner Ivar_Table Sort_Engine Str2int Class_Lookup Method_Cache Heap_Safety Hash_Spec Unwind_Through Sandbox Step_Core Code_Runs
begin

text \<open>
  A verification library for rubyrs, an interpreter of Ruby written in Rust (\<open>src/crates/rubyrs/src\<close>).

  \<^bold>\<open>The program.\<close> A script is parsed by an external parser, translated to a syntax tree (\<open>ast.rs\<close>) and
  compiled to bytecode (\<open>compiler.rs\<close>, \<open>bytecode.rs\<close>). The machine (\<open>vm.rs\<close>, \<open>vm/step.rs\<close>, \<open>vm/dispatch.rs\<close>)
  executes one instruction at a time on a stack of frames and a stack of operands. Calls go through method
  lookup (\<open>vm/lookup.rs\<close>) and its caches; objects live on a generational garbage-collected heap (\<open>heap.rs\<close>,
  \<open>vm/gc.rs\<close>); exceptions and the other ways out of code unwind frames and run ensure bodies (\<open>vm/raise.rs\<close>);
  an embedding program confines a script with caps and an allowlist of paths (\<open>vm/gc.rs\<close>, \<open>lib.rs\<close>).

  \<^bold>\<open>The theories\<close>, in the order they build on each other:

  \<^item> \<open>Prelude\<close>: machine integers as words, Rust's checked and wrapping arithmetic, generic lemmas.
  \<^item> \<open>Value_Model\<close>: \<open>Value\<close> of \<open>value.rs\<close>, one constructor per variant; a heap variant carries a slot number.
  \<^item> \<open>Int_Ops\<close>: \<open>BinOpKind::apply_int\<close> and the integer and float operations of \<open>vm/numeric.rs\<close>, proved against
    unbounded integers.
  \<^item> \<open>Interner\<close>: \<open>intern.rs\<close>; the contract of a map keyed by hash is a locale, interpreted on the model's map.
  \<^item> \<open>Ivar_Table\<close>: shapes, tables and site caches of instance variables; the table refines a partial map.
  \<^item> \<open>Sort_Engine\<close>: \<open>vm/sort.rs\<close>, a merge sort whose comparator may fail and has a state.
  \<^item> \<open>Str2int\<close>: \<open>vm/str2int.rs\<close>, the integer scanner, with its value and a round trip through printing.
  \<^item> \<open>Class_Graph\<close>, \<open>Class_Lookup\<close>, \<open>Method_Cache\<close>: the class hierarchy of \<open>vm/lookup.rs\<close>, the walks for
    methods, \<open>super\<close> and \<open>is_a?\<close> against the list of ancestors, and the caches in front of them, proved
    transparent. A walk has a budget of steps; the number of classes is enough, because no class is visited
    twice.
  \<^item> \<open>Heap_Model\<close>, \<open>Heap_Gc\<close>, \<open>Heap_Collect\<close>, \<open>Heap_Safety\<close>: the objects, allocation and the write barrier,
    marking and sweeping of minor and major collections, pacing and finalizers; then the heap under a running
    program. The mark loop has fuel; the number of slots is enough, because every round marks a new slot.
  \<^item> \<open>Ruby_Eq\<close>, \<open>Eql_Hash\<close>, \<open>Hash_Index\<close>, \<open>Hash_Spec\<close>: \<open>==\<close>, \<open>eql?\<close> and hash codes of values, the index of
    large hashes, and the refinement of an insertion-ordered association list. The recursion into containers has
    a depth, as in the code; results beyond it are no results.
  \<^item> \<open>Unwind_Model\<close>, \<open>Unwind_Ops\<close>: the frames, handlers and pending transfers, the unwinding of exceptions, the
    walks of \<open>break\<close>, \<open>next\<close> and \<open>return\<close>, and the signal gates of the two dispatch loops. \<open>Unwind_Walks\<close>,
    \<open>Unwind_Inv\<close>, \<open>Unwind_Ensure\<close>, \<open>Unwind_Loops\<close>, \<open>Unwind_Through\<close>: where an exception lands, what holds in
    every reachable state, that every ensure body on the way runs exactly once, and the transfers through native
    iterators.
  \<^item> \<open>Errors\<close>: \<open>error.rs\<close>. \<open>Sandbox\<close>: fuel, deadline, caps and the gate of the file system; the dispatch loop
    with fuel in the code's own sense ends by itself.
  \<^item> \<open>Bytecode\<close>, \<open>Compile_Model\<close>: the instructions, the syntax tree and the compiler between them.
  \<^item> \<open>Step_Core\<close>: one pass of the dispatch loop over those instructions on the machine of \<open>Unwind_Model\<close>, and the
    agreement of the hot front of the loop with the full instruction.
  \<^item> \<open>Code_Types\<close>, \<open>Code_Sound\<close>, \<open>Code_Arms\<close>, \<open>Code_Calls\<close>, \<open>Code_Protos\<close>: typed code (jumps and handlers land on
    an instruction, slots are locals of the frame, a return at the end), an invariant of the builder that
    every arm of the compiler keeps, up to the proto of a method definition with the layout of its parameters.
    \<open>Code_Runs\<close>: running typed code through \<open>Step_Core\<close> never leaves it.

  \<^bold>\<open>Conventions.\<close> A Rust struct is a record, an enum a datatype, a \<open>u8\<close> to \<open>u64\<close> or \<open>i64\<close> a word; an index is a
  natural number. A \<open>Vec\<close> used as a stack is a list whose head is the top. A panic is \<open>None\<close> or \<open>Panic\<close>, an
  error a value of a sum, option or outcome type. What is not in the repository (float hardware beyond its bit
  patterns, big integers, the clock, the parser) is an argument of the definitions that use it.

  \<^bold>\<open>Not modelled.\<close> The native methods (\<open>vm/kernel.rs\<close>, \<open>vm/string.rs\<close>, \<open>vm/array.rs\<close>, \<open>vm/iter.rs\<close>, \<open>vm/hash.rs\<close>
  and the arms of \<open>vm/dispatch.rs\<close>): thousands of independent functions, whose results are an argument of
  \<open>Step_Core\<close>. The compilers to machine code, because the semantics of their code generator is not in the
  repository. The translation of parse trees, the regular expression engine, sockets, files, databases,
  cryptography and the C interface, which bind external libraries. Fibers and threads beyond their heap object.
  In the compiler: method and class definitions, multiple assignment and the inside of block literals.
\<close>

end
